(* ===== verification/Prelude.thy ===== *)
theory Prelude
  imports Main "HOL-Library.Word" "HOL-Library.Sublist"
begin

unbundle bit_operations_syntax

text \<open>
  What the component theories share: the C error numbers, the result type of a modelled
  C function, the total-correctness predicate over such results, bit flags and a few lemmas on
  lists and characters.

  \<^item> \<open>errno\<close> lists the error names of
    \<^verbatim>\<open>libc-bottom-half/headers/public/__errno_values.h\<close>.
  \<^item> \<open>outcome\<close> is what a call of a C function does: it returns a value, it returns the
    function's failure value (\<open>-1\<close> or \<open>NULL\<close>) with \<open>errno\<close> set, it stops the program
    (a failed \<open>assert\<close>, \<open>abort\<close>, \<open>__builtin_trap\<close>, an access outside an array), or it
    does not return.
  \<^item> \<open>holds x P Q\<close> says that \<open>x\<close> neither stops the program nor runs forever, that \<open>P\<close> holds
    of what it returns and \<open>Q\<close> of the error it reports.
\<close>

section \<open>Error numbers\<close>

type_synonym errno = int

abbreviation (input) E2BIG :: errno where "E2BIG \<equiv> 1"
abbreviation (input) EACCES :: errno where "EACCES \<equiv> 2"
abbreviation (input) EADDRINUSE :: errno where "EADDRINUSE \<equiv> 3"
abbreviation (input) EADDRNOTAVAIL :: errno where "EADDRNOTAVAIL \<equiv> 4"
abbreviation (input) EAFNOSUPPORT :: errno where "EAFNOSUPPORT \<equiv> 5"
abbreviation (input) EAGAIN :: errno where "EAGAIN \<equiv> 6"
abbreviation (input) EALREADY :: errno where "EALREADY \<equiv> 7"
abbreviation (input) EBADF :: errno where "EBADF \<equiv> 8"
abbreviation (input) EBADMSG :: errno where "EBADMSG \<equiv> 9"
abbreviation (input) EBUSY :: errno where "EBUSY \<equiv> 10"
abbreviation (input) ECANCELED :: errno where "ECANCELED \<equiv> 11"
abbreviation (input) ECHILD :: errno where "ECHILD \<equiv> 12"
abbreviation (input) ECONNABORTED :: errno where "ECONNABORTED \<equiv> 13"
abbreviation (input) ECONNREFUSED :: errno where "ECONNREFUSED \<equiv> 14"
abbreviation (input) ECONNRESET :: errno where "ECONNRESET \<equiv> 15"
abbreviation (input) EDEADLK :: errno where "EDEADLK \<equiv> 16"
abbreviation (input) EDESTADDRREQ :: errno where "EDESTADDRREQ \<equiv> 17"
abbreviation (input) EDOM :: errno where "EDOM \<equiv> 18"
abbreviation (input) EDQUOT :: errno where "EDQUOT \<equiv> 19"
abbreviation (input) EEXIST :: errno where "EEXIST \<equiv> 20"
abbreviation (input) EFAULT :: errno where "EFAULT \<equiv> 21"
abbreviation (input) EFBIG :: errno where "EFBIG \<equiv> 22"
abbreviation (input) EHOSTUNREACH :: errno where "EHOSTUNREACH \<equiv> 23"
abbreviation (input) EIDRM :: errno where "EIDRM \<equiv> 24"
abbreviation (input) EILSEQ :: errno where "EILSEQ \<equiv> 25"
abbreviation (input) EINPROGRESS :: errno where "EINPROGRESS \<equiv> 26"
abbreviation (input) EINTR :: errno where "EINTR \<equiv> 27"
abbreviation (input) EINVAL :: errno where "EINVAL \<equiv> 28"
abbreviation (input) EIO :: errno where "EIO \<equiv> 29"
abbreviation (input) EISCONN :: errno where "EISCONN \<equiv> 30"
abbreviation (input) EISDIR :: errno where "EISDIR \<equiv> 31"
abbreviation (input) ELOOP :: errno where "ELOOP \<equiv> 32"
abbreviation (input) EMFILE :: errno where "EMFILE \<equiv> 33"
abbreviation (input) EMLINK :: errno where "EMLINK \<equiv> 34"
abbreviation (input) EMSGSIZE :: errno where "EMSGSIZE \<equiv> 35"
abbreviation (input) EMULTIHOP :: errno where "EMULTIHOP \<equiv> 36"
abbreviation (input) ENAMETOOLONG :: errno where "ENAMETOOLONG \<equiv> 37"
abbreviation (input) ENETDOWN :: errno where "ENETDOWN \<equiv> 38"
abbreviation (input) ENETRESET :: errno where "ENETRESET \<equiv> 39"
abbreviation (input) ENETUNREACH :: errno where "ENETUNREACH \<equiv> 40"
abbreviation (input) ENFILE :: errno where "ENFILE \<equiv> 41"
abbreviation (input) ENOBUFS :: errno where "ENOBUFS \<equiv> 42"
abbreviation (input) ENODEV :: errno where "ENODEV \<equiv> 43"
abbreviation (input) ENOENT :: errno where "ENOENT \<equiv> 44"
abbreviation (input) ENOEXEC :: errno where "ENOEXEC \<equiv> 45"
abbreviation (input) ENOLCK :: errno where "ENOLCK \<equiv> 46"
abbreviation (input) ENOLINK :: errno where "ENOLINK \<equiv> 47"
abbreviation (input) ENOMEM :: errno where "ENOMEM \<equiv> 48"
abbreviation (input) ENOMSG :: errno where "ENOMSG \<equiv> 49"
abbreviation (input) ENOPROTOOPT :: errno where "ENOPROTOOPT \<equiv> 50"
abbreviation (input) ENOSPC :: errno where "ENOSPC \<equiv> 51"
abbreviation (input) ENOSYS :: errno where "ENOSYS \<equiv> 52"
abbreviation (input) ENOTCONN :: errno where "ENOTCONN \<equiv> 53"
abbreviation (input) ENOTDIR :: errno where "ENOTDIR \<equiv> 54"
abbreviation (input) ENOTEMPTY :: errno where "ENOTEMPTY \<equiv> 55"
abbreviation (input) ENOTRECOVERABLE :: errno where "ENOTRECOVERABLE \<equiv> 56"
abbreviation (input) ENOTSOCK :: errno where "ENOTSOCK \<equiv> 57"
abbreviation (input) ENOTSUP :: errno where "ENOTSUP \<equiv> 58"
abbreviation (input) ENOTTY :: errno where "ENOTTY \<equiv> 59"
abbreviation (input) ENXIO :: errno where "ENXIO \<equiv> 60"
abbreviation (input) EOVERFLOW :: errno where "EOVERFLOW \<equiv> 61"
abbreviation (input) EOWNERDEAD :: errno where "EOWNERDEAD \<equiv> 62"
abbreviation (input) EPERM :: errno where "EPERM \<equiv> 63"
abbreviation (input) EPIPE :: errno where "EPIPE \<equiv> 64"
abbreviation (input) EPROTO :: errno where "EPROTO \<equiv> 65"
abbreviation (input) EPROTONOSUPPORT :: errno where "EPROTONOSUPPORT \<equiv> 66"
abbreviation (input) EPROTOTYPE :: errno where "EPROTOTYPE \<equiv> 67"
abbreviation (input) ERANGE :: errno where "ERANGE \<equiv> 68"
abbreviation (input) EROFS :: errno where "EROFS \<equiv> 69"
abbreviation (input) ESPIPE :: errno where "ESPIPE \<equiv> 70"
abbreviation (input) ESRCH :: errno where "ESRCH \<equiv> 71"
abbreviation (input) ESTALE :: errno where "ESTALE \<equiv> 72"
abbreviation (input) ETIMEDOUT :: errno where "ETIMEDOUT \<equiv> 73"
abbreviation (input) ETXTBSY :: errno where "ETXTBSY \<equiv> 74"
abbreviation (input) EXDEV :: errno where "EXDEV \<equiv> 75"
abbreviation (input) ENOTCAPABLE :: errno where "ENOTCAPABLE \<equiv> 76"
abbreviation (input) EOPNOTSUPP :: errno where "EOPNOTSUPP \<equiv> ENOTSUP"
abbreviation (input) EWOULDBLOCK :: errno where "EWOULDBLOCK \<equiv> EAGAIN"

text \<open>The component-model builds of the library.\<close>

datatype wasi_version = P2 | P3

section \<open>Outcomes of C functions\<close>

datatype ('a, 's) outcome = Ret 'a 's | Err errno 's | Trap | Diverge

fun bindO :: "('a, 's) outcome \<Rightarrow> ('a \<Rightarrow> 's \<Rightarrow> ('b, 's) outcome) \<Rightarrow> ('b, 's) outcome" where
  "bindO (Ret a s) k = k a s"
| "bindO (Err e s) k = Err e s"
| "bindO Trap k = Trap"
| "bindO Diverge k = Diverge"

fun on_err :: "('a, 's) outcome \<Rightarrow> (errno \<Rightarrow> 's \<Rightarrow> ('a, 's) outcome) \<Rightarrow> ('a, 's) outcome" where
  "on_err (Ret a s) h = Ret a s"
| "on_err (Err e s) h = h e s"
| "on_err Trap h = Trap"
| "on_err Diverge h = Diverge"

text \<open>\<open>assertO b x\<close> is \<open>assert(b)\<close> followed by \<open>x\<close>, with assertions enabled.\<close>

definition assertO :: "bool \<Rightarrow> ('a, 's) outcome \<Rightarrow> ('a, 's) outcome" where
  "assertO b x = (if b then x else Trap)"

lemma assertO_True [simp]: "assertO True x = x"
  by (simp add: assertO_def)

lemma assertO_False [simp]: "assertO False x = Trap"
  by (simp add: assertO_def)

text \<open>A call on a part of the state: \<open>lift_part put\<close> puts the part back.\<close>

fun lift_part :: "('t \<Rightarrow> 's) \<Rightarrow> ('a, 't) outcome \<Rightarrow> ('a, 's) outcome" where
  "lift_part put (Ret a t) = Ret a (put t)"
| "lift_part put (Err e t) = Err e (put t)"
| "lift_part put Trap = Trap"
| "lift_part put Diverge = Diverge"

text \<open>The parts of an outcome, to evaluate concrete runs.\<close>

fun ret_val :: "('a, 's) outcome \<Rightarrow> 'a option" where
  "ret_val (Ret a s) = Some a"
| "ret_val (Err e s) = None"
| "ret_val Trap = None"
| "ret_val Diverge = None"

fun err_val :: "('a, 's) outcome \<Rightarrow> errno option" where
  "err_val (Ret a s) = None"
| "err_val (Err e s) = Some e"
| "err_val Trap = None"
| "err_val Diverge = None"

definition out_state :: "('a, 's) outcome \<Rightarrow> 's" where
  "out_state x = (case x of Ret _ s \<Rightarrow> s | Err _ s \<Rightarrow> s)"

lemma ret_val_Ret: "ret_val x = Some a \<Longrightarrow> x = Ret a (out_state x)"
  by (cases x) (auto simp: out_state_def)

lemma err_val_Err: "err_val x = Some e \<Longrightarrow> x = Err e (out_state x)"
  by (cases x) (auto simp: out_state_def)

section \<open>Total correctness of an outcome\<close>

fun holds :: "('a, 's) outcome \<Rightarrow> ('a \<Rightarrow> 's \<Rightarrow> bool) \<Rightarrow> (errno \<Rightarrow> 's \<Rightarrow> bool) \<Rightarrow> bool" where
  "holds (Ret a s) P Q = P a s"
| "holds (Err e s) P Q = Q e s"
| "holds Trap P Q = False"
| "holds Diverge P Q = False"

lemma holds_mono:
  assumes "holds x P Q" "\<And>a s. P a s \<Longrightarrow> P' a s" "\<And>e s. Q e s \<Longrightarrow> Q' e s"
  shows "holds x P' Q'"
  using assms by (cases x) auto

lemma holds_bind:
  assumes "holds x P Q" "\<And>a s. P a s \<Longrightarrow> holds (k a s) P' Q'" "\<And>e s. Q e s \<Longrightarrow> Q' e s"
  shows "holds (bindO x k) P' Q'"
  using assms by (cases x) auto

lemma holds_on_err:
  assumes "holds x P Q" "\<And>a s. P a s \<Longrightarrow> P' a s" "\<And>e s. Q e s \<Longrightarrow> holds (h e s) P' Q'"
  shows "holds (on_err x h) P' Q'"
  using assms by (cases x) auto

lemma holds_assert: "holds (assertO b x) P Q \<longleftrightarrow> b \<and> holds x P Q"
  by (cases b) auto

lemma holds_lift_part:
  "holds (lift_part put x) P Q \<longleftrightarrow> holds x (\<lambda>a t. P a (put t)) (\<lambda>e t. Q e (put t))"
  by (cases x) auto

lemma holds_conj:
  "holds x (\<lambda>a s. P a s \<and> P' a s) (\<lambda>e s. Q e s \<and> Q' e s) \<longleftrightarrow> holds x P Q \<and> holds x P' Q'"
  by (cases x) auto

lemma holds_RetD: "holds x P Q \<Longrightarrow> x = Ret a s \<Longrightarrow> P a s"
  by auto

lemma holds_ErrD: "holds x P Q \<Longrightarrow> x = Err e s \<Longrightarrow> Q e s"
  by auto

lemma holds_returns: "holds x P Q \<Longrightarrow> x \<noteq> Trap \<and> x \<noteq> Diverge"
  by auto

lemma holds_no_err: "holds x P (\<lambda>_ _. False) \<longleftrightarrow> (\<exists>a s. x = Ret a s \<and> P a s)"
  by (cases x) auto

section \<open>Lists\<close>

lemma count_list_update:
  "i < length xs \<Longrightarrow>
   count_list (xs[i := v]) a + (if xs ! i = a then 1 else 0) =
   count_list xs a + (if v = a then 1 else 0)"
proof (induction xs arbitrary: i)
  case Nil
  then show ?case by simp
next
  case (Cons x xs)
  show ?case
  proof (cases i)
    case 0
    then show ?thesis by simp
  next
    case (Suc n)
    with Cons.prems have "n < length xs" by simp
    then have "count_list (xs[n := v]) a + (if xs ! n = a then 1 else 0) =
        count_list xs a + (if v = a then 1 else 0)" by (rule Cons.IH)
    with Suc show ?thesis by (cases "v = a"; cases "xs ! n = a") auto
  qed
qed

lemma count_list_replicate [simp]: "count_list (replicate n x) y = (if x = y then n else 0)"
  by (induction n) auto

lemma count_list_pos_nth:
  "0 < count_list xs a \<longleftrightarrow> (\<exists>i < length xs. xs ! i = a)"
  by (metis count_list_0_iff in_set_conv_nth neq0_conv)

lemma dropWhile_hd: "dropWhile P xs \<noteq> [] \<Longrightarrow> \<not> P (hd (dropWhile P xs))"
  by (rule hd_dropWhile)

section \<open>Words\<close>

lemma unat_bound: "unat (w :: 'a::len word) < 2 ^ LENGTH('a)"
  by (rule unsigned_less)

lemma unat_add_of_nat:
  fixes w :: "'a::len word"
  assumes "unat w + n < 2 ^ LENGTH('a)"
  shows "unat (w + of_nat n) = unat w + n"
  using assms by (simp add: unat_word_ariths unat_of_nat)

end
