(* ===== verification/Fd_Interface.thy ===== *)
theory Fd_Interface
  imports Prelude
begin

text \<open>
  The contract of a table of descriptors, as its callers see it: a finite map from small numbers
  to entries, in which an allocation takes the lowest free number. The locale states the laws of
  the three operations over the map a table stands for; its lemmas follow whole sequences of
  requests. A second locale states what a call that borrows an entry may rely on.
  \<^verbatim>\<open>Descriptor_Table\<close> interprets both on the operations of
  \<^verbatim>\<open>descriptor_table.c\<close>.
\<close>

datatype 'e fd_request = Req_alloc 'e | Req_lookup int | Req_remove int

datatype 'e fd_answer = Ans_fd nat | Ans_entry 'e | Ans_errno errno

text \<open>The answers a map allows to one request and to a sequence of them.\<close>

fun map_answers :: "(nat \<Rightarrow> 'e option) \<Rightarrow> 'e fd_request \<Rightarrow> 'e fd_answer \<Rightarrow> (nat \<Rightarrow> 'e option) \<Rightarrow> bool" where
  "map_answers m (Req_alloc e) a m' \<longleftrightarrow>
     (let fd = (LEAST i. m i = None) in a = Ans_fd fd \<and> m' = m(fd \<mapsto> e)) \<or>
     a = Ans_errno ENOMEM \<and> m' = m"
| "map_answers m (Req_lookup fd) a m' \<longleftrightarrow> m' = m \<and>
     a = (case (if fd < 0 then None else m (nat fd)) of None \<Rightarrow> Ans_errno EBADF | Some e \<Rightarrow> Ans_entry e)"
| "map_answers m (Req_remove fd) a m' \<longleftrightarrow>
     (case (if fd < 0 then None else m (nat fd)) of
        None \<Rightarrow> a = Ans_errno EBADF \<and> m' = m
      | Some e \<Rightarrow> a = Ans_entry e \<and> m' = m(nat fd := None))"

fun map_run :: "(nat \<Rightarrow> 'e option) \<Rightarrow> 'e fd_request list \<Rightarrow> 'e fd_answer list \<Rightarrow> (nat \<Rightarrow> 'e option) \<Rightarrow> bool" where
  "map_run m [] as m' \<longleftrightarrow> as = [] \<and> m' = m"
| "map_run m (q # qs) as m' \<longleftrightarrow> (\<exists>a m1 as'. as = a # as' \<and> map_answers m q a m1 \<and> map_run m1 qs as' m')"

text \<open>Serving requests with the operations of a table; \<open>None\<close> when one of them stops the program.\<close>

fun answer_of :: "('a \<Rightarrow> 'e fd_answer) \<Rightarrow> ('a, 't) outcome \<Rightarrow> ('e fd_answer \<times> 't) option" where
  "answer_of f (Ret a t) = Some (f a, t)"
| "answer_of f (Err e t) = Some (Ans_errno e, t)"
| "answer_of f Trap = None"
| "answer_of f Diverge = None"

fun serve :: "('t \<Rightarrow> 'e \<Rightarrow> (nat, 't) outcome) \<Rightarrow> ('t \<Rightarrow> int \<Rightarrow> ('e, 't) outcome) \<Rightarrow>
    ('t \<Rightarrow> int \<Rightarrow> ('e, 't) outcome) \<Rightarrow> 't \<Rightarrow> 'e fd_request list \<Rightarrow> ('e fd_answer list \<times> 't) option" where
  "serve al lk rm t [] = Some ([], t)"
| "serve al lk rm t (q # qs) =
     (case (case q of Req_alloc e \<Rightarrow> answer_of Ans_fd (al t e)
            | Req_lookup fd \<Rightarrow> answer_of Ans_entry (lk t fd)
            | Req_remove fd \<Rightarrow> answer_of Ans_entry (rm t fd)) of
        None \<Rightarrow> None
      | Some (a, t') \<Rightarrow>
          (case serve al lk rm t' qs of None \<Rightarrow> None | Some (as, t'') \<Rightarrow> Some (a # as, t'')))"

locale fd_table =
  fixes alloc :: "'t \<Rightarrow> 'e \<Rightarrow> (nat, 't) outcome"
    and lookup :: "'t \<Rightarrow> int \<Rightarrow> ('e, 't) outcome"
    and remove :: "'t \<Rightarrow> int \<Rightarrow> ('e, 't) outcome"
    and abs_map :: "'t \<Rightarrow> nat \<Rightarrow> 'e option"
    and inv :: "'t \<Rightarrow> bool"
  assumes alloc_law: "inv t \<Longrightarrow> holds (alloc t e)
      (\<lambda>fd t'. inv t' \<and> fd = (LEAST i. abs_map t i = None) \<and> abs_map t' = (abs_map t)(fd \<mapsto> e))
      (\<lambda>er t'. er = ENOMEM \<and> t' = t)"
    and lookup_law: "inv t \<Longrightarrow> holds (lookup t fd)
      (\<lambda>e t'. t' = t \<and> 0 \<le> fd \<and> abs_map t (nat fd) = Some e)
      (\<lambda>er t'. t' = t \<and> er = EBADF \<and> (fd < 0 \<or> abs_map t (nat fd) = None))"
    and remove_law: "inv t \<Longrightarrow> holds (remove t fd)
      (\<lambda>e t'. inv t' \<and> 0 \<le> fd \<and> abs_map t (nat fd) = Some e \<and> abs_map t' = (abs_map t)(nat fd := None))
      (\<lambda>er t'. t' = t \<and> er = EBADF \<and> (fd < 0 \<or> abs_map t (nat fd) = None))"
    and finite_law: "inv t \<Longrightarrow> finite (dom (abs_map t))"
begin

lemma alloc_answers:
  assumes "inv t"
  shows "\<exists>a t'. answer_of Ans_fd (alloc t e) = Some (a, t') \<and> inv t' \<and>
    map_answers (abs_map t) (Req_alloc e) a (abs_map t')"
  using alloc_law [OF assms, of e] assms by (cases "alloc t e") (auto simp: Let_def)

lemma lookup_answers:
  assumes "inv t"
  shows "\<exists>a t'. answer_of Ans_entry (lookup t fd) = Some (a, t') \<and> inv t' \<and>
    map_answers (abs_map t) (Req_lookup fd) a (abs_map t')"
  using lookup_law [OF assms, of fd] assms by (cases "lookup t fd") auto

lemma remove_answers:
  assumes "inv t"
  shows "\<exists>a t'. answer_of Ans_entry (remove t fd) = Some (a, t') \<and> inv t' \<and>
    map_answers (abs_map t) (Req_remove fd) a (abs_map t')"
  using remove_law [OF assms, of fd] assms by (cases "remove t fd") auto

text \<open>Every sequence of requests is served without stopping, with answers the map allows.\<close>

lemma serve_refines:
  assumes "inv t"
  shows "\<exists>as t'. serve alloc lookup remove t qs = Some (as, t') \<and> inv t' \<and>
    map_run (abs_map t) qs as (abs_map t')"
  using assms
proof (induction qs arbitrary: t)
  case Nil
  then show ?case by simp
next
  case (Cons q qs)
  let ?ans = "case q of Req_alloc e \<Rightarrow> answer_of Ans_fd (alloc t e)
            | Req_lookup fd \<Rightarrow> answer_of Ans_entry (lookup t fd)
            | Req_remove fd \<Rightarrow> answer_of Ans_entry (remove t fd)"
  obtain a t1 where "?ans = Some (a, t1)" "inv t1" "map_answers (abs_map t) q a (abs_map t1)"
    using alloc_answers [OF Cons.prems] lookup_answers [OF Cons.prems] remove_answers [OF Cons.prems]
    by (cases q) force+
  moreover from Cons.IH [OF this(2)] obtain as t' where
    "serve alloc lookup remove t1 qs = Some (as, t')" "inv t'" "map_run (abs_map t1) qs as (abs_map t')"
    by blast
  ultimately show ?case by auto
qed

text \<open>A number just handed out was free, and is again the answer once it has been removed.\<close>

lemma alloc_fresh:
  assumes "inv t" "alloc t e = Ret fd t'"
  shows "abs_map t fd = None" "\<And>i. i < fd \<Longrightarrow> abs_map t i \<noteq> None"
proof -
  have fd: "fd = (LEAST i. abs_map t i = None)"
    using alloc_law [OF assms(1), of e] assms(2) by simp
  have "\<exists>i. i \<notin> dom (abs_map t)"
    using finite_law [OF assms(1)] infinite_UNIV_nat by (metis ex_new_if_finite)
  then have "\<exists>i. abs_map t i = None" by (simp add: domIff)
  then show "abs_map t fd = None" unfolding fd by (rule LeastI_ex)
  show "\<And>i. i < fd \<Longrightarrow> abs_map t i \<noteq> None" unfolding fd by (rule not_less_Least)
qed

lemma alloc_reuse:
  assumes "inv t" "alloc t e = Ret fd t1" "remove t1 (int fd) = Ret e' t2" "alloc t2 e2 = Ret fd2 t3"
  shows "e' = e \<and> fd2 = fd \<and> abs_map t2 = abs_map t"
proof -
  from assms(1,2) have t1: "inv t1" "fd = (LEAST i. abs_map t i = None)" "abs_map t1 = (abs_map t)(fd \<mapsto> e)"
    using alloc_law [OF assms(1), of e] by simp_all
  from t1(1) assms(3) have t2: "inv t2" "abs_map t1 fd = Some e'" "abs_map t2 = (abs_map t1)(fd := None)"
    using remove_law [OF t1(1), of "int fd"] by simp_all
  from t1(3) t2(3) alloc_fresh(1) [OF assms(1,2)] have "abs_map t2 = abs_map t" by auto
  with t1 t2 assms(4) alloc_law [OF t2(1), of e2] show ?thesis by auto
qed

end

section \<open>Borrowing an entry for the length of a call\<close>

text \<open>
  A call looks an entry up, which takes a reference, and gives the reference back when it
  returns: \<open>defer descriptor_table_entry_dec(entry);\<close> in the source.
\<close>

definition deferO :: "('s \<Rightarrow> (unit, 's) outcome) \<Rightarrow> ('a, 's) outcome \<Rightarrow> ('a, 's) outcome" where
  "deferO d x =
     (case x of
        Ret a s \<Rightarrow> bindO (d s) (\<lambda>_ s. Ret a s)
      | Err e s \<Rightarrow> bindO (d s) (\<lambda>_ s. Err e s)
      | Trap \<Rightarrow> Trap
      | Diverge \<Rightarrow> Diverge)"

definition with_borrow :: "(int \<Rightarrow> 's \<Rightarrow> ('e, 's) outcome) \<Rightarrow> ('e \<Rightarrow> 's \<Rightarrow> (unit, 's) outcome) \<Rightarrow> int \<Rightarrow>
    ('e \<Rightarrow> 's \<Rightarrow> ('a, 's) outcome) \<Rightarrow> 's \<Rightarrow> ('a, 's) outcome" where
  "with_borrow get dec fd body s = bindO (get fd s) (\<lambda>e s. deferO (dec e) (body e s))"

lemma holds_defer:
  assumes "holds x P Q"
    and "\<And>a s. P a s \<Longrightarrow> holds (d s) (\<lambda>_ s'. P' a s') (\<lambda>_ _. False)"
    and "\<And>e s. Q e s \<Longrightarrow> holds (d s) (\<lambda>_ s'. Q' e s') (\<lambda>_ _. False)"
  shows "holds (deferO d x) P' Q'"
proof (cases x)
  case (Ret a s)
  with assms(1) have "holds (d s) (\<lambda>_ s'. P' a s') (\<lambda>_ _. False)" by (intro assms(2)) simp
  with Ret show ?thesis by (cases "d s") (auto simp: deferO_def)
next
  case (Err e s)
  with assms(1) have "holds (d s) (\<lambda>_ s'. Q' e s') (\<lambda>_ _. False)" by (intro assms(3)) simp
  with Err show ?thesis by (cases "d s") (auto simp: deferO_def)
qed (use assms(1) in auto)

text \<open>
  \<open>inv r\<close> is the invariant when \<open>r k\<close> references to the object \<open>k\<close> are held outside the table,
  \<open>view\<close> is what the rest of the program sees of the state, and \<open>look\<close> reads the table from it.
  An entry that is still in the table survives the return of a reference.
\<close>

locale borrowing =
  fixes get :: "int \<Rightarrow> 's \<Rightarrow> ('e, 's) outcome"
    and dec :: "'e \<Rightarrow> 's \<Rightarrow> (unit, 's) outcome"
    and inv :: "('k \<Rightarrow> nat) \<Rightarrow> 's \<Rightarrow> bool"
    and key :: "'e \<Rightarrow> 'k"
    and look :: "'v \<Rightarrow> nat \<Rightarrow> 'e option"
    and view :: "'s \<Rightarrow> 'v"
  assumes get_law: "inv r s \<Longrightarrow> holds (get fd s)
      (\<lambda>e s'. inv (r(key e := Suc (r (key e)))) s' \<and> view s' = view s \<and> 0 \<le> fd \<and> look (view s) (nat fd) = Some e)
      (\<lambda>er s'. s' = s \<and> er = EBADF \<and> (fd < 0 \<or> look (view s) (nat fd) = None))"
    and dec_law: "inv (r(key e := Suc (r (key e)))) s \<Longrightarrow> look (view s) i = Some e \<Longrightarrow>
      holds (dec e s) (\<lambda>_ s'. inv r s' \<and> view s' = view s) (\<lambda>_ _. False)"
begin

lemma borrow_holds:
  assumes "inv r s"
    and "\<And>e s1. inv (r(key e := Suc (r (key e)))) s1 \<Longrightarrow> view s1 = view s \<Longrightarrow> 0 \<le> fd \<Longrightarrow>
      look (view s) (nat fd) = Some e \<Longrightarrow>
      holds (body e s1)
        (\<lambda>a s2. inv (r(key e := Suc (r (key e)))) s2 \<and> look (view s2) (nat fd) = Some e \<and> P a (view s2))
        (\<lambda>er s2. inv (r(key e := Suc (r (key e)))) s2 \<and> look (view s2) (nat fd) = Some e \<and> Q er (view s2))"
    and "fd < 0 \<or> look (view s) (nat fd) = None \<Longrightarrow> Q EBADF (view s)"
  shows "holds (with_borrow get dec fd body s)
    (\<lambda>a s'. inv r s' \<and> P a (view s')) (\<lambda>er s'. inv r s' \<and> Q er (view s'))"
  unfolding with_borrow_def
proof (rule holds_bind [OF get_law [OF assms(1)]], goal_cases)
  case (1 e s1)
  show ?case
  proof (rule holds_defer [OF assms(2)], goal_cases)
    case (5 a s2)
    then have d: "inv (r(key e := Suc (r (key e)))) s2" "look (view s2) (nat fd) = Some e" "P a (view s2)" by auto
    show ?case by (rule holds_mono [OF dec_law [OF d(1,2)]]) (use d(3) in auto)
  next
    case (6 er s2)
    then have d: "inv (r(key e := Suc (r (key e)))) s2" "look (view s2) (nat fd) = Some e" "Q er (view s2)" by auto
    show ?case by (rule holds_mono [OF dec_law [OF d(1,2)]]) (use d(3) in auto)
  qed (use 1 in auto)
qed (use assms(1,3) in auto)

end

end
