(* ===== verification/Descriptor_Table.thy ===== *)
theory Descriptor_Table
  imports Fd_Interface
begin

text \<open>
  The file descriptor table of WASIp2 and WASIp3 builds:
  \<^verbatim>\<open>libc-bottom-half/sources/descriptor_table.c\<close> with the reference counts of
  \<^verbatim>\<open>headers/private/wasi/descriptor_table.h\<close> and the start-up of the three standard
  descriptors (\<^verbatim>\<open>wasip2_stdio.c\<close>, \<^verbatim>\<open>wasip3_stdio.c\<close>).

  The table is a list of slots with a cached length and an allocation hint. A descriptor is a
  pair of a data pointer and a virtual table; the data holds a reference count. The destructors
  (\<open>vtable->free\<close>) act on the part \<open>world\<close> of the state and are an argument of the
  operations, as are the answers of the memory allocator. Locks are not part of the state: every
  operation below is one critical section. The build modelled is the one with assertions, in
  which \<open>live_descriptors\<close> is maintained.
\<close>

section \<open>Data\<close>

type_synonym data_ptr = nat

datatype vtable = Null_vtable | Stdio_vtable | Stdin3_vtable | Stdout3_vtable | File_vtable
  | Pipe_vtable | Tcp_vtable | Udp_vtable

record descriptor_table_entry =
  e_data :: data_ptr
  e_vtable :: vtable

record descriptor_table_item =
  occupied :: bool
  entry :: descriptor_table_entry

record descriptor_table =
  entries :: "descriptor_table_item list"
  len :: nat
  next_fd :: nat

record 'x dt_state =
  global_table :: descriptor_table
  stdio_initialized :: bool
  cnt :: "data_ptr \<Rightarrow> nat"
  live_descriptors :: nat
  world :: 'x

text \<open>
  What the operations call and this theory does not define: whether \<open>realloc\<close> of that many
  bytes succeeds, what \<open>calloc\<close> returns for the data of standard descriptor \<open>i\<close>, and the
  destructors.
\<close>

record 'x dt_env =
  version :: wasi_version
  realloc_ok :: "nat \<Rightarrow> bool"
  stdio_alloc :: "nat \<Rightarrow> data_ptr option"
  vt_free :: "vtable \<Rightarrow> data_ptr \<Rightarrow> 'x \<Rightarrow> 'x"

datatype dup_op = DUP_OP_DUP | DUP_OP_DUP2 | DUP_OP_DUP3 | DUP_OP_DUPFD

definition MINSIZE :: nat where "MINSIZE = 8"

definition MAX_DESCRIPTOR :: int where "MAX_DESCRIPTOR = 2 ^ 20"

text \<open>The size of a slot on a 32-bit target: a flag padded to a word, and two pointers.\<close>

definition sizeof_item :: nat where "sizeof_item = 12"

text \<open>A slot after \<open>memset(..., 0, ...)\<close>.\<close>

definition zero_item :: descriptor_table_item where
  "zero_item = \<lparr>occupied = False, entry = \<lparr>e_data = 0, e_vtable = Null_vtable\<rparr>\<rparr>"

section \<open>Operations on one table\<close>

text \<open>\<open>while (new_len < needed) new_len *= 2;\<close>\<close>

partial_function (option) grow_len :: "nat \<Rightarrow> nat \<Rightarrow> nat option" where
  "grow_len new_len needed =
     (if new_len < needed then grow_len (2 * new_len) needed else Some new_len)"

declare grow_len.simps [code]

definition table_grow :: "(nat \<Rightarrow> bool) \<Rightarrow> descriptor_table \<Rightarrow> nat \<Rightarrow> (unit, descriptor_table) outcome" where
  "table_grow realloc table needed =
     (if needed \<le> len table then Ret () table
      else case grow_len (if len table = 0 then MINSIZE else len table) needed of
        None \<Rightarrow> Diverge
      | Some new_len \<Rightarrow>
          if \<not> realloc (new_len * sizeof_item) then Err ENOMEM table
          else Ret () (table\<lparr>entries := entries table @ replicate (new_len - len table) zero_item,
                             len := new_len\<rparr>))"

text \<open>\<open>while (fd < len && entries[fd].occupied) fd++;\<close>\<close>

function scan :: "descriptor_table_item list \<Rightarrow> nat \<Rightarrow> nat \<Rightarrow> nat" where
  "scan es n fd = (if fd < n \<and> occupied (es ! fd) then scan es n (Suc fd) else fd)"
  by pat_completeness auto
termination
  by (relation "measure (\<lambda>(es, n, fd). n - fd)") auto

text \<open>\<open>entries[fd].occupied = true; entries[fd].entry = e;\<close> a store outside the array stops.\<close>

definition set_slot :: "descriptor_table \<Rightarrow> nat \<Rightarrow> descriptor_table_entry \<Rightarrow> (unit, descriptor_table) outcome" where
  "set_slot table fd e =
     assertO (fd < length (entries table))
       (Ret () (table\<lparr>entries := (entries table)[fd := \<lparr>occupied = True, entry = e\<rparr>]\<rparr>))"

definition table_allocate ::
    "(nat \<Rightarrow> bool) \<Rightarrow> descriptor_table \<Rightarrow> descriptor_table_entry \<Rightarrow> (nat, descriptor_table) outcome" where
  "table_allocate realloc table e =
     (let fd = scan (entries table) (len table) (next_fd table) in
      bindO (if fd = len table then table_grow realloc table (len table + 1) else Ret () table)
        (\<lambda>_ table. bindO (set_slot table fd e)
          (\<lambda>_ table. Ret fd (table\<lparr>next_fd := fd + 1\<rparr>))))"

definition table_lookup :: "descriptor_table \<Rightarrow> int \<Rightarrow> (descriptor_table_entry, descriptor_table) outcome" where
  "table_lookup table fd =
     (if fd < 0 \<or> len table \<le> nat fd then Err EBADF table
      else let table_entry = entries table ! nat fd in
        if \<not> occupied table_entry then Err EBADF table
        else Ret (entry table_entry) table)"

definition table_remove :: "descriptor_table \<Rightarrow> int \<Rightarrow> (descriptor_table_entry, descriptor_table) outcome" where
  "table_remove table fd =
     (if fd < 0 \<or> len table \<le> nat fd then Err EBADF table
      else let table_entry = entries table ! nat fd in
        if \<not> occupied table_entry then Err EBADF table
        else Ret (entry table_entry)
          (table\<lparr>entries := (entries table)[nat fd := table_entry\<lparr>occupied := False\<rparr>],
                 next_fd := (if nat fd < next_fd table then nat fd else next_fd table)\<rparr>))"

section \<open>Reference counts\<close>

definition descriptor_table_entry_inc :: "descriptor_table_entry \<Rightarrow> 'x dt_state \<Rightarrow> (unit, 'x dt_state) outcome" where
  "descriptor_table_entry_inc e s =
     assertO (0 < cnt s (e_data e))
       (Ret () (s\<lparr>cnt := (cnt s)(e_data e := cnt s (e_data e) + 1)\<rparr>))"

definition wasilibc_descriptor_deallocate ::
    "'x dt_env \<Rightarrow> descriptor_table_entry \<Rightarrow> 'x dt_state \<Rightarrow> (unit, 'x dt_state) outcome" where
  "wasilibc_descriptor_deallocate env e s =
     assertO (cnt s (e_data e) = 0)
       (let s = s\<lparr>world := vt_free env (e_vtable e) (e_data e) (world s)\<rparr> in
        assertO (0 < live_descriptors s)
          (Ret () (s\<lparr>live_descriptors := live_descriptors s - 1\<rparr>)))"

definition descriptor_table_entry_dec ::
    "'x dt_env \<Rightarrow> descriptor_table_entry \<Rightarrow> 'x dt_state \<Rightarrow> (unit, 'x dt_state) outcome" where
  "descriptor_table_entry_dec env e s =
     assertO (0 < cnt s (e_data e))
       (let s = s\<lparr>cnt := (cnt s)(e_data e := cnt s (e_data e) - 1)\<rparr> in
        if cnt s (e_data e) = 0 then wasilibc_descriptor_deallocate env e s else Ret () s)"

section \<open>Operations on the global table\<close>

definition on_table :: "('a, descriptor_table) outcome \<Rightarrow> 'x dt_state \<Rightarrow> ('a, 'x dt_state) outcome" where
  "on_table x s = lift_part (\<lambda>t. s\<lparr>global_table := t\<rparr>) x"

definition descriptor_table_insert_entry ::
    "'x dt_env \<Rightarrow> descriptor_table_entry \<Rightarrow> 'x dt_state \<Rightarrow> (nat, 'x dt_state) outcome" where
  "descriptor_table_insert_entry env e s =
     assertO (0 < cnt s (e_data e))
       (on_err (on_table (table_allocate (realloc_ok env) (global_table s) e) s)
         (\<lambda>er s. bindO (descriptor_table_entry_dec env e s) (\<lambda>_ s. Err er s)))"

text \<open>
  \<open>descriptor_table_insert\<close> and \<open>__wasilibc_init_stdio\<close> call each other: an insertion into an
  uninitialised table first inserts the three standard descriptors. The flag
  \<open>stdio_initialized\<close> is set before the nested insertions, so they never initialise again;
  \<open>init\<close> is what the insertion runs when the flag is not set.
\<close>

definition insert_with ::
    "('x dt_state \<Rightarrow> (unit, 'x dt_state) outcome) \<Rightarrow> 'x dt_env \<Rightarrow> descriptor_table_entry \<Rightarrow>
     'x dt_state \<Rightarrow> (nat, 'x dt_state) outcome" where
  "insert_with init env e s =
     assertO (cnt s (e_data e) = 0)
       (let s = s\<lparr>cnt := (cnt s)(e_data e := 1), live_descriptors := live_descriptors s + 1\<rparr> in
        bindO (on_err (if \<not> stdio_initialized s then init s else Ret () s)
                (\<lambda>er s. bindO (descriptor_table_entry_dec env e s) (\<lambda>_ s. Err er s)))
          (\<lambda>_ s. descriptor_table_insert_entry env e s))"

definition stdio_vtable_of :: "wasi_version \<Rightarrow> nat \<Rightarrow> vtable" where
  "stdio_vtable_of v i =
     (case v of P2 \<Rightarrow> Stdio_vtable | P3 \<Rightarrow> if i = 0 then Stdin3_vtable else Stdout3_vtable)"

definition stdio_add :: "'x dt_env \<Rightarrow> nat \<Rightarrow> 'x dt_state \<Rightarrow> (nat, 'x dt_state) outcome" where
  "stdio_add env i s =
     (case stdio_alloc env i of
        None \<Rightarrow> Err ENOMEM s
      | Some p \<Rightarrow> insert_with (\<lambda>_. Trap) env
          \<lparr>e_data = p, e_vtable = stdio_vtable_of (version env) i\<rparr> s)"

definition wasilibc_init_stdio :: "'x dt_env \<Rightarrow> 'x dt_state \<Rightarrow> (unit, 'x dt_state) outcome" where
  "wasilibc_init_stdio env s =
     bindO (stdio_add env 0 s) (\<lambda>_ s. bindO (stdio_add env 1 s) (\<lambda>_ s.
       bindO (stdio_add env 2 s) (\<lambda>_ s. Ret () s)))"

definition init_stdio :: "'x dt_env \<Rightarrow> 'x dt_state \<Rightarrow> (unit, 'x dt_state) outcome" where
  "init_stdio env s = wasilibc_init_stdio env (s\<lparr>stdio_initialized := True\<rparr>)"

definition ensure_stdio :: "'x dt_env \<Rightarrow> 'x dt_state \<Rightarrow> (unit, 'x dt_state) outcome" where
  "ensure_stdio env s = (if \<not> stdio_initialized s then init_stdio env s else Ret () s)"

definition descriptor_table_insert ::
    "'x dt_env \<Rightarrow> descriptor_table_entry \<Rightarrow> 'x dt_state \<Rightarrow> (nat, 'x dt_state) outcome" where
  "descriptor_table_insert env e s = insert_with (init_stdio env) env e s"

definition descriptor_table_get ::
    "'x dt_env \<Rightarrow> int \<Rightarrow> 'x dt_state \<Rightarrow> (descriptor_table_entry, 'x dt_state) outcome" where
  "descriptor_table_get env fd s =
     bindO (ensure_stdio env s)
       (\<lambda>_ s. bindO (on_table (table_lookup (global_table s) fd) s)
         (\<lambda>slot s. bindO (descriptor_table_entry_inc slot s) (\<lambda>_ s. Ret slot s)))"

definition descriptor_table_remove :: "'x dt_env \<Rightarrow> int \<Rightarrow> 'x dt_state \<Rightarrow> (unit, 'x dt_state) outcome" where
  "descriptor_table_remove env fd s =
     bindO (ensure_stdio env s)
       (\<lambda>_ s. bindO (on_table (table_remove (global_table s) fd) s)
         (\<lambda>e s. descriptor_table_entry_dec env e s))"

text \<open>The cases of \<open>descriptor_table_dup\<close> after the entry of \<open>fd\<close> has been found.\<close>

definition dup_onto ::
    "'x dt_env \<Rightarrow> int \<Rightarrow> descriptor_table_entry \<Rightarrow> int \<Rightarrow> 'x dt_state \<Rightarrow> (int, 'x dt_state) outcome" where
  "dup_onto env fd e arg s =
     (if fd = arg then Err EINVAL s
      else if arg < 0 \<or> MAX_DESCRIPTOR \<le> arg then Err EBADF s
      else let newfd = nat arg in
        bindO (on_table (table_grow (realloc_ok env) (global_table s) (newfd + 1)) s)
          (\<lambda>_ s. bindO (descriptor_table_entry_inc e s)
            (\<lambda>_ s. assertO (newfd < length (entries (global_table s)))
              (let table_entry = entries (global_table s) ! newfd in
               bindO (on_table (set_slot (global_table s) newfd e) s)
                 (\<lambda>_ s. if occupied table_entry
                   then bindO (descriptor_table_entry_dec env (entry table_entry) s) (\<lambda>_ s. Ret arg s)
                   else Ret arg s)))))"

definition dup_above ::
    "'x dt_env \<Rightarrow> descriptor_table_entry \<Rightarrow> int \<Rightarrow> 'x dt_state \<Rightarrow> (int, 'x dt_state) outcome" where
  "dup_above env e arg s =
     (if arg < 0 \<or> MAX_DESCRIPTOR \<le> arg then Err EINVAL s
      else let t = global_table s;
               minfd = (if nat arg < next_fd t then next_fd t else nat arg);
               minfd = scan (entries t) (len t) minfd in
        bindO (on_table (table_grow (realloc_ok env) t (minfd + 1)) s)
          (\<lambda>_ s. bindO (descriptor_table_entry_inc e s)
            (\<lambda>_ s. bindO (on_table (set_slot (global_table s) minfd e) s)
              (\<lambda>_ s. Ret (int minfd) s))))"

definition descriptor_table_dup ::
    "'x dt_env \<Rightarrow> int \<Rightarrow> dup_op \<Rightarrow> int \<Rightarrow> 'x dt_state \<Rightarrow> (int, 'x dt_state) outcome" where
  "descriptor_table_dup env fd op arg s =
     bindO (ensure_stdio env s)
       (\<lambda>_ s. bindO (on_table (table_lookup (global_table s) fd) s)
         (\<lambda>e s. case op of
             DUP_OP_DUP \<Rightarrow>
               bindO (descriptor_table_entry_inc e s)
                 (\<lambda>_ s. bindO (descriptor_table_insert_entry env e s) (\<lambda>n s. Ret (int n) s))
           | DUP_OP_DUP2 \<Rightarrow> if fd = arg then Ret arg s else dup_onto env fd e arg s
           | DUP_OP_DUP3 \<Rightarrow> dup_onto env fd e arg s
           | DUP_OP_DUPFD \<Rightarrow> dup_above env e arg s))"

text \<open>\<open>clear\<close>: drop the reference of every occupied slot, then free the array.\<close>

primrec clear_slots :: "'x dt_env \<Rightarrow> nat list \<Rightarrow> 'x dt_state \<Rightarrow> (unit, 'x dt_state) outcome" where
  "clear_slots env [] s = Ret () s"
| "clear_slots env (i # is) s =
     (let table_entry = entries (global_table s) ! i in
      bindO (if occupied table_entry then descriptor_table_entry_dec env (entry table_entry) s
             else Ret () s)
        (\<lambda>_ s. clear_slots env is s))"

definition clear :: "'x dt_env \<Rightarrow> 'x dt_state \<Rightarrow> (unit, 'x dt_state) outcome" where
  "clear env s =
     bindO (clear_slots env [0..<len (global_table s)] s)
       (\<lambda>_ s. Ret () (s\<lparr>global_table := \<lparr>entries = [], len = 0, next_fd = 0\<rparr>\<rparr>))"

definition descriptor_table_clear :: "'x dt_env \<Rightarrow> 'x dt_state \<Rightarrow> (unit, 'x dt_state) outcome" where
  "descriptor_table_clear env s =
     bindO (clear env s) (\<lambda>_ s. Ret () (s\<lparr>stdio_initialized := False\<rparr>))"

text \<open>
  The exit-time check: close what is still open above the standard descriptors, counting the
  open standard ones; the program stops when more descriptors are alive than those.
\<close>

primrec close_leaked :: "'x dt_env \<Rightarrow> nat list \<Rightarrow> nat \<Rightarrow> 'x dt_state \<Rightarrow> (nat, 'x dt_state) outcome" where
  "close_leaked env [] stdio_open s = Ret stdio_open s"
| "close_leaked env (i # is) stdio_open s =
     (if occupied (entries (global_table s) ! i) then
        if i < 3 then close_leaked env is (stdio_open + 1) s
        else bindO (on_err (descriptor_table_remove env (int i) s) (\<lambda>_ _. Trap))
          (\<lambda>_ s. close_leaked env is stdio_open s)
      else close_leaked env is stdio_open s)"

definition wasilibc_assert_no_descriptor_leaks :: "'x dt_env \<Rightarrow> 'x dt_state \<Rightarrow> (unit, 'x dt_state) outcome" where
  "wasilibc_assert_no_descriptor_leaks env s =
     (if \<not> stdio_initialized s then assertO (live_descriptors s = 0) (Ret () s)
      else bindO (close_leaked env [0..<len (global_table s)] 0 s)
        (\<lambda>stdio_open s. if live_descriptors s = stdio_open then Ret () s else Trap))"

section \<open>The invariant and the abstract table\<close>

text \<open>What a table means: a finite map from descriptors to entries.\<close>

definition fd_map :: "descriptor_table \<Rightarrow> nat \<Rightarrow> descriptor_table_entry option" where
  "fd_map t i = (if i < length (entries t) \<and> occupied (entries t ! i)
     then Some (entry (entries t ! i)) else None)"

definition item_ref :: "descriptor_table_item \<Rightarrow> data_ptr option" where
  "item_ref it = (if occupied it then Some (e_data (entry it)) else None)"

text \<open>How many slots refer to the data at \<open>p\<close>.\<close>

definition slots :: "descriptor_table \<Rightarrow> data_ptr \<Rightarrow> nat" where
  "slots t p = count_list (map item_ref (entries t)) (Some p)"

definition table_inv :: "descriptor_table \<Rightarrow> bool" where
  "table_inv t \<longleftrightarrow> length (entries t) = len t \<and> next_fd t \<le> len t \<and>
     (\<forall>i < next_fd t. occupied (entries t ! i))"

text \<open>
  The invariant of the whole state. \<open>r p\<close> is the number of references to \<open>p\<close> held outside
  the table, by callers of \<open>descriptor_table_get\<close>. A count is exactly the number of slots plus
  the number of references held outside, and \<open>live_descriptors\<close> is the number of objects that
  are still counted.
\<close>

definition refs_ok :: "(data_ptr \<Rightarrow> nat) \<Rightarrow> descriptor_table \<Rightarrow> (data_ptr \<Rightarrow> nat) \<Rightarrow> bool" where
  "refs_ok c t r \<longleftrightarrow> (\<forall>p. c p = slots t p + r p)"

definition live_ok :: "(data_ptr \<Rightarrow> nat) \<Rightarrow> nat \<Rightarrow> bool" where
  "live_ok c n \<longleftrightarrow> finite {p. 0 < c p} \<and> n = card {p. 0 < c p}"

definition dt_inv :: "(data_ptr \<Rightarrow> nat) \<Rightarrow> 'x dt_state \<Rightarrow> bool" where
  "dt_inv r s \<longleftrightarrow> table_inv (global_table s) \<and> refs_ok (cnt s) (global_table s) r \<and>
     live_ok (cnt s) (live_descriptors s)"

section \<open>Lemmas on one table\<close>

lemma grow_len_Some:
  assumes "0 < a"
  shows "\<exists>m. grow_len a b = Some m \<and> b \<le> m \<and> a \<le> m \<and> (m = a \<or> m < 2 * b)"
  using assms
proof (induction "b - a" arbitrary: a rule: less_induct)
  case less
  show ?case
  proof (cases "a < b")
    case True
    with less.prems have "b - 2 * a < b - a" by simp
    from less.hyps [OF this] less.prems obtain m where
      "grow_len (2 * a) b = Some m" "b \<le> m" "2 * a \<le> m" "m = 2 * a \<or> m < 2 * b"
      by auto
    with True show ?thesis by (subst grow_len.simps) auto
  next
    case False
    then show ?thesis by (subst grow_len.simps) auto
  qed
qed

declare scan.simps [simp del]

lemma scan_ge: "fd \<le> scan es n fd"
proof (induction es n fd rule: scan.induct)
  case (1 es n fd)
  then show ?case by (subst scan.simps) force
qed

lemma scan_le: "fd \<le> n \<Longrightarrow> scan es n fd \<le> n"
proof (induction es n fd rule: scan.induct)
  case (1 es n fd)
  then show ?case by (subst scan.simps) force
qed

lemma scan_occupied: "fd \<le> j \<Longrightarrow> j < scan es n fd \<Longrightarrow> occupied (es ! j)"
proof (induction es n fd rule: scan.induct)
  case (1 es n fd)
  show ?case
  proof (cases "fd < n \<and> occupied (es ! fd)")
    case True
    with 1 show ?thesis by (cases "fd = j") (auto simp: scan.simps [of es n fd])
  next
    case False
    with "1.prems" show ?thesis by (simp add: scan.simps [of es n fd])
  qed
qed

lemma scan_stop: "scan es n fd < n \<Longrightarrow> \<not> occupied (es ! scan es n fd)"
proof (induction es n fd rule: scan.induct)
  case (1 es n fd)
  then show ?case
    by (cases "fd < n \<and> occupied (es ! fd)") (auto simp: scan.simps [of es n fd])
qed

lemma scan_beyond: "n \<le> fd \<Longrightarrow> scan es n fd = fd"
  by (subst scan.simps) simp

lemma fd_map_None_iff:
  "fd_map t i = None \<longleftrightarrow> length (entries t) \<le> i \<or> \<not> occupied (entries t ! i)"
  by (auto simp: fd_map_def)

lemma fd_map_next_fd [simp]: "fd_map (t\<lparr>next_fd := n\<rparr>) = fd_map t"
  by (simp add: fd_map_def fun_eq_iff)

lemma slots_next_fd [simp]: "slots (t\<lparr>next_fd := n\<rparr>) = slots t"
  by (simp add: slots_def fun_eq_iff)

lemma scan_least:
  assumes "table_inv t" "m \<le> fd" "\<And>i. m \<le> i \<Longrightarrow> i < fd \<Longrightarrow> occupied (entries t ! i) \<and> i < len t"
  shows "scan (entries t) (len t) fd = (LEAST i. m \<le> i \<and> fd_map t i = None)"
proof (rule Least_equality [symmetric])
  let ?k = "scan (entries t) (len t) fd"
  from assms(1) have len: "length (entries t) = len t" by (simp add: table_inv_def)
  have "fd_map t ?k = None"
    by (cases "?k < len t") (auto simp: fd_map_None_iff len dest: scan_stop)
  then show "m \<le> ?k \<and> fd_map t ?k = None"
    using assms(2) scan_ge [of fd "entries t" "len t"] by simp
next
  fix i
  assume i: "m \<le> i \<and> fd_map t i = None"
  let ?k = "scan (entries t) (len t) fd"
  from assms(1) have len: "length (entries t) = len t" by (simp add: table_inv_def)
  show "?k \<le> i"
  proof (rule ccontr)
    assume "\<not> ?k \<le> i"
    then have lt: "i < ?k" by simp
    have "occupied (entries t ! i)"
      using assms(3) i scan_occupied [OF _ lt] by (cases "i < fd") auto
    moreover have "i < len t"
    proof (cases "fd \<le> len t")
      case True
      with lt scan_le [of fd "len t" "entries t"] show ?thesis by simp
    next
      case False
      with lt have "i < fd" by (simp add: scan_beyond)
      with assms(3) i show ?thesis by blast
    qed
    ultimately show False using i by (simp add: fd_map_None_iff len)
  qed
qed

lemma table_grow_holds:
  assumes "table_inv t"
  shows "holds (table_grow realloc t n)
    (\<lambda>_ t'. table_inv t' \<and> n \<le> len t' \<and> next_fd t' = next_fd t \<and>
      fd_map t' = fd_map t \<and> slots t' = slots t)
    (\<lambda>e t'. e = ENOMEM \<and> t' = t)"
proof (cases "n \<le> len t")
  case True
  with assms show ?thesis by (simp add: table_grow_def)
next
  case False
  from assms have len: "length (entries t) = len t" by (simp add: table_inv_def)
  obtain m where m: "grow_len (if len t = 0 then MINSIZE else len t) n = Some m" "n \<le> m" "len t \<le> m"
    using grow_len_Some [of "if len t = 0 then MINSIZE else len t" n] False
    by (cases "len t = 0") (auto simp: MINSIZE_def)
  let ?t = "t\<lparr>entries := entries t @ replicate (m - len t) zero_item, len := m\<rparr>"
  have "table_inv ?t"
    using assms m(3) by (auto simp: table_inv_def nth_append)
  moreover have "fd_map ?t = fd_map t"
    by (auto simp: fd_map_def fun_eq_iff nth_append len zero_item_def)
  moreover have "slots ?t = slots t"
    by (auto simp: slots_def fun_eq_iff item_ref_def zero_item_def)
  ultimately show ?thesis
    using False m by (simp add: table_grow_def)
qed

lemma set_slot_holds:
  assumes "table_inv t" "fd < len t"
  shows "holds (set_slot t fd e)
    (\<lambda>_ t'. table_inv t' \<and> len t' = len t \<and> next_fd t' = next_fd t \<and>
      fd_map t' = (fd_map t)(fd \<mapsto> e) \<and>
      (\<forall>p. slots t' p + (if map_option e_data (fd_map t fd) = Some p then 1 else 0) =
           slots t p + (if e_data e = p then 1 else 0)))
    (\<lambda>_ _. False)"
proof -
  from assms have len: "length (entries t) = len t" by (simp add: table_inv_def)
  let ?t = "t\<lparr>entries := (entries t)[fd := \<lparr>occupied = True, entry = e\<rparr>]\<rparr>"
  have "table_inv ?t"
    using assms by (auto simp: table_inv_def nth_list_update)
  moreover have "fd_map ?t = (fd_map t)(fd \<mapsto> e)"
    using assms(2) by (auto simp: fd_map_def fun_eq_iff nth_list_update len)
  moreover have "slots ?t p + (if map_option e_data (fd_map t fd) = Some p then 1 else 0) =
      slots t p + (if e_data e = p then 1 else 0)" for p
  proof -
    have "map item_ref (entries t) ! fd = map_option e_data (fd_map t fd)"
      using assms(2) by (simp add: len item_ref_def fd_map_def)
    with count_list_update [of fd "map item_ref (entries t)" "Some (e_data e)" "Some p"] assms(2)
    show ?thesis by (simp add: slots_def map_update item_ref_def len)
  qed
  ultimately show ?thesis
    using assms(2) by (simp add: set_slot_def len)
qed

lemma table_inv_next_fd:
  "table_inv t \<Longrightarrow> n \<le> len t \<Longrightarrow> (\<And>i. i < n \<Longrightarrow> fd_map t i \<noteq> None) \<Longrightarrow> table_inv (t\<lparr>next_fd := n\<rparr>)"
  by (auto simp: table_inv_def fd_map_None_iff simp del: not_None_eq)

lemma table_allocate_holds:
  assumes "table_inv t"
  shows "holds (table_allocate realloc t e)
    (\<lambda>fd t'. table_inv t' \<and> fd = (LEAST i. fd_map t i = None) \<and>
      fd_map t' = (fd_map t)(fd \<mapsto> e) \<and>
      (\<forall>p. slots t' p = slots t p + (if e_data e = p then 1 else 0)))
    (\<lambda>er t'. er = ENOMEM \<and> t' = t)"
proof -
  let ?fd = "scan (entries t) (len t) (next_fd t)"
  from assms have nf: "next_fd t \<le> len t" by (simp add: table_inv_def)
  then have le: "?fd \<le> len t" by (rule scan_le)
  have least: "?fd = (LEAST i. fd_map t i = None)"
    using scan_least [of t 0 "next_fd t"] assms nf by (auto simp: table_inv_def)
  have free: "fd_map t ?fd = None"
    using assms by (cases "?fd < len t") (auto simp: fd_map_None_iff table_inv_def dest: scan_stop)
  have below: "fd_map t i \<noteq> None" if "i < ?fd" for i
    using that least by (auto dest: not_less_Least)
  have grow: "holds (if ?fd = len t then table_grow realloc t (len t + 1) else Ret () t)
      (\<lambda>_ t'. table_inv t' \<and> ?fd < len t' \<and> next_fd t' = next_fd t \<and>
        fd_map t' = fd_map t \<and> slots t' = slots t)
      (\<lambda>er t'. er = ENOMEM \<and> t' = t)"
    using assms le table_grow_holds [OF assms, of realloc "len t + 1"]
    by (auto elim!: holds_mono)
  show ?thesis
    unfolding table_allocate_def Let_def
  proof (rule holds_bind [OF grow], elim conjE, rule holds_bind)
    fix t'
    assume t': "table_inv t'" "?fd < len t'" "fd_map t' = fd_map t" "slots t' = slots t"
      "next_fd t' = next_fd t"
    show "holds (set_slot t' ?fd e)
      (\<lambda>_ t''. table_inv t'' \<and> len t'' = len t' \<and> fd_map t'' = (fd_map t)(?fd \<mapsto> e) \<and>
         (\<forall>p. slots t'' p = slots t p + (if e_data e = p then 1 else 0)))
      (\<lambda>_ _. False)"
      using set_slot_holds [OF t'(1,2), of e] t'(3,4) free by (auto elim!: holds_mono)
  next
    fix t' t''
    assume "?fd < len t'" "table_inv t'' \<and> len t'' = len t' \<and> fd_map t'' = (fd_map t)(?fd \<mapsto> e) \<and>
         (\<forall>p. slots t'' p = slots t p + (if e_data e = p then 1 else 0))"
    then show "holds (Ret ?fd (t''\<lparr>next_fd := ?fd + 1\<rparr>))
      (\<lambda>fd t'. table_inv t' \<and> fd = (LEAST i. fd_map t i = None) \<and>
        fd_map t' = (fd_map t)(fd \<mapsto> e) \<and>
        (\<forall>p. slots t' p = slots t p + (if e_data e = p then 1 else 0)))
      (\<lambda>er t'. er = ENOMEM \<and> t' = t)"
      using below by (auto simp: least [symmetric] intro!: table_inv_next_fd)
  qed simp_all
qed

lemma table_lookup_holds:
  assumes "table_inv t"
  shows "table_lookup t fd =
    (case (if fd < 0 then None else fd_map t (nat fd)) of None \<Rightarrow> Err EBADF t | Some e \<Rightarrow> Ret e t)"
  using assms by (auto simp: table_lookup_def table_inv_def fd_map_def Let_def)

lemma table_remove_holds:
  assumes "table_inv t"
  shows "holds (table_remove t fd)
    (\<lambda>e t'. 0 \<le> fd \<and> fd_map t (nat fd) = Some e \<and> table_inv t' \<and> len t' = len t \<and>
      fd_map t' = (fd_map t)(nat fd := None) \<and>
      (\<forall>p. slots t p = slots t' p + (if e_data e = p then 1 else 0)))
    (\<lambda>er t'. er = EBADF \<and> t' = t \<and> (fd < 0 \<or> fd_map t (nat fd) = None))"
proof (cases "fd < 0 \<or> fd_map t (nat fd) = None")
  case True
  with assms show ?thesis
    by (auto simp: table_remove_def table_inv_def fd_map_None_iff Let_def)
next
  case False
  then obtain e where e: "fd_map t (nat fd) = Some e" and pos: "0 \<le> fd" by auto
  from assms have len: "length (entries t) = len t" by (simp add: table_inv_def)
  from e have lt: "nat fd < len t" and occ: "occupied (entries t ! nat fd)"
    and ent: "entry (entries t ! nat fd) = e"
    by (auto simp: fd_map_def len split: if_splits)
  let ?es = "(entries t)[nat fd := (entries t ! nat fd)\<lparr>occupied := False\<rparr>]"
  let ?n = "if nat fd < next_fd t then nat fd else next_fd t"
  have "table_inv (t\<lparr>entries := ?es, next_fd := ?n\<rparr>)"
    using assms lt by (auto simp: table_inv_def nth_list_update)
  moreover have "fd_map (t\<lparr>entries := ?es, next_fd := ?n\<rparr>) = (fd_map t)(nat fd := None)"
    using lt by (auto simp: fd_map_def fun_eq_iff nth_list_update len)
  moreover have "slots t p = slots (t\<lparr>entries := ?es, next_fd := ?n\<rparr>) p + (if e_data e = p then 1 else 0)" for p
  proof -
    have "item_ref (entries t ! nat fd) = Some (e_data e)" by (simp add: item_ref_def occ ent)
    with count_list_update [of "nat fd" "map item_ref (entries t)" None "Some p"] lt
    show ?thesis by (simp add: slots_def map_update item_ref_def len)
  qed
  ultimately show ?thesis
    using pos lt occ ent e by (simp add: table_remove_def Let_def)
qed

lemma slots_pos: "0 < slots t p \<longleftrightarrow> (\<exists>i e. fd_map t i = Some e \<and> e_data e = p)"
proof -
  have "0 < slots t p \<longleftrightarrow> (\<exists>i < length (entries t). item_ref (entries t ! i) = Some p)"
    unfolding slots_def count_list_pos_nth by (metis length_map nth_map)
  also have "\<dots> \<longleftrightarrow> (\<exists>i e. fd_map t i = Some e \<and> e_data e = p)"
    by (simp add: item_ref_def fd_map_def) metis
  finally show ?thesis .
qed

section \<open>Lemmas on the whole state\<close>

lemma live_ok_keep: "live_ok c n \<Longrightarrow> 0 < c p \<Longrightarrow> 0 < k \<Longrightarrow> live_ok (c(p := k)) n"
proof -
  assume "live_ok c n" "0 < c p" "0 < k"
  moreover from this have "{q. 0 < (c(p := k)) q} = {q. 0 < c q}" by auto
  ultimately show ?thesis by (simp only: live_ok_def)
qed

lemma live_ok_new: "live_ok c n \<Longrightarrow> c p = 0 \<Longrightarrow> 0 < k \<Longrightarrow> live_ok (c(p := k)) (n + 1)"
proof -
  assume a: "live_ok c n" "c p = 0" "0 < k"
  then have "{q. 0 < (c(p := k)) q} = insert p {q. 0 < c q}" by auto
  with a show ?thesis by (simp add: live_ok_def)
qed

lemma live_ok_last: "live_ok c n \<Longrightarrow> 0 < c p \<Longrightarrow> 0 < n \<and> live_ok (c(p := 0)) (n - 1)"
proof -
  assume a: "live_ok c n" "0 < c p"
  then have "{q. 0 < (c(p := 0)) q} = {q. 0 < c q} - {p}" by auto
  moreover have "0 < card {q. 0 < c q}" using a by (auto simp: live_ok_def card_gt_0_iff)
  ultimately show ?thesis using a by (simp add: live_ok_def)
qed

lemma refs_ok_inc: "refs_ok c t r \<Longrightarrow> refs_ok (c(p := Suc (c p))) t (r(p := Suc (r p)))"
  by (simp add: refs_ok_def)

lemma refs_ok_dec: "refs_ok c t (r(p := Suc (r p))) \<Longrightarrow> refs_ok (c(p := c p - 1)) t r"
  by (simp add: refs_ok_def)

lemma refs_ok_app: "refs_ok c t r \<Longrightarrow> c p = slots t p + r p"
  by (simp add: refs_ok_def)

lemma inc_holds:
  assumes "dt_inv r s" "0 < cnt s (e_data e)"
  shows "holds (descriptor_table_entry_inc e s)
    (\<lambda>_ s'. dt_inv (r(e_data e := Suc (r (e_data e)))) s' \<and>
       s' = s\<lparr>cnt := (cnt s)(e_data e := Suc (cnt s (e_data e)))\<rparr>) (\<lambda>_ _. False)"
  using assms by (simp add: descriptor_table_entry_inc_def dt_inv_def refs_ok_inc live_ok_keep)

text \<open>
  Dropping a reference held outside the table: the destructor runs exactly when it was the last
  reference of any kind, and then no slot refers to the object.
\<close>

lemma dec_holds:
  assumes "dt_inv (r(e_data e := Suc (r (e_data e)))) s"
  shows "holds (descriptor_table_entry_dec env e s)
    (\<lambda>_ s'. dt_inv r s' \<and> global_table s' = global_table s \<and>
       stdio_initialized s' = stdio_initialized s \<and>
       cnt s' = (cnt s)(e_data e := cnt s (e_data e) - 1) \<and>
       world s' = (if cnt s (e_data e) = 1
         then vt_free env (e_vtable e) (e_data e) (world s) else world s))
    (\<lambda>_ _. False)"
proof -
  let ?p = "e_data e"
  have inv: "table_inv (global_table s)" "refs_ok (cnt s) (global_table s) (r(?p := Suc (r ?p)))"
    "live_ok (cnt s) (live_descriptors s)" using assms by (simp_all add: dt_inv_def)
  have pos: "0 < cnt s ?p"
    using refs_ok_app [OF inv(2), of ?p] by simp
  note ref = refs_ok_dec [OF inv(2)]
  show ?thesis
  proof (cases "cnt s ?p = 1")
    case True
    with live_ok_last [OF inv(3) pos] inv(1) ref show ?thesis
      by (simp add: descriptor_table_entry_dec_def wasilibc_descriptor_deallocate_def dt_inv_def)
  next
    case False
    with pos have "0 < cnt s ?p - 1" by simp
    with live_ok_keep [OF inv(3) pos this] False inv(1) ref show ?thesis
      by (simp add: descriptor_table_entry_dec_def dt_inv_def)
  qed
qed

lemma holds_on_table:
  "holds (on_table x s) P Q \<longleftrightarrow>
   holds x (\<lambda>a t. P a (s\<lparr>global_table := t\<rparr>)) (\<lambda>e t. Q e (s\<lparr>global_table := t\<rparr>))"
  by (simp add: on_table_def holds_lift_part)

text \<open>A reference held outside moves into a slot.\<close>

lemma refs_ok_store:
  "refs_ok c t (r(p := Suc (r p))) \<Longrightarrow>
   (\<forall>q. slots t' q = slots t q + (if p = q then 1 else 0)) \<Longrightarrow> refs_ok c t' r"
  by (auto simp: refs_ok_def)

lemma refs_ok_take:
  "refs_ok c t r \<Longrightarrow> (\<forall>q. slots t q = slots t' q + (if p = q then 1 else 0)) \<Longrightarrow>
   refs_ok c t' (r(p := Suc (r p)))"
  by (auto simp: refs_ok_def)

lemma insert_entry_holds:
  assumes "dt_inv (r(e_data e := Suc (r (e_data e)))) s"
  shows "holds (descriptor_table_insert_entry env e s)
    (\<lambda>fd s'. dt_inv r s' \<and> fd = (LEAST i. fd_map (global_table s) i = None) \<and>
       fd_map (global_table s') = (fd_map (global_table s))(fd \<mapsto> e) \<and> cnt s' = cnt s \<and>
       world s' = world s \<and> stdio_initialized s' = stdio_initialized s)
    (\<lambda>er s'. er = ENOMEM \<and> dt_inv r s' \<and> global_table s' = global_table s \<and>
       stdio_initialized s' = stdio_initialized s \<and>
       cnt s' = (cnt s)(e_data e := cnt s (e_data e) - 1) \<and>
       world s' = (if cnt s (e_data e) = 1
         then vt_free env (e_vtable e) (e_data e) (world s) else world s))"
proof -
  have inv: "table_inv (global_table s)"
    "refs_ok (cnt s) (global_table s) (r(e_data e := Suc (r (e_data e))))"
    "live_ok (cnt s) (live_descriptors s)" using assms by (simp_all add: dt_inv_def)
  have pos: "0 < cnt s (e_data e)"
    using refs_ok_app [OF inv(2), of "e_data e"] by simp
  show ?thesis
    unfolding descriptor_table_insert_entry_def holds_assert
  proof (intro conjI pos holds_on_err)
    show "holds (on_table (table_allocate (realloc_ok env) (global_table s) e) s)
      (\<lambda>fd s'. dt_inv r s' \<and> fd = (LEAST i. fd_map (global_table s) i = None) \<and>
         fd_map (global_table s') = (fd_map (global_table s))(fd \<mapsto> e) \<and> cnt s' = cnt s \<and>
         world s' = world s \<and> stdio_initialized s' = stdio_initialized s)
      (\<lambda>er s'. er = ENOMEM \<and> s' = s)"
      unfolding holds_on_table
      by (rule holds_mono [OF table_allocate_holds [OF inv(1)]])
        (use inv refs_ok_store [OF inv(2)] in \<open>auto simp: dt_inv_def\<close>)
  qed (auto intro!: holds_bind [OF dec_holds [OF assms]])
qed

lemma insert_with_holds:
  assumes "dt_inv r s" "cnt s (e_data e) = 0" "stdio_initialized s"
  shows "holds (insert_with init env e s)
    (\<lambda>fd s'. dt_inv r s' \<and> fd = (LEAST i. fd_map (global_table s) i = None) \<and>
       fd_map (global_table s') = (fd_map (global_table s))(fd \<mapsto> e) \<and>
       cnt s' = (cnt s)(e_data e := 1) \<and> world s' = world s \<and> stdio_initialized s')
    (\<lambda>er s'. er = ENOMEM \<and> dt_inv r s' \<and> global_table s' = global_table s \<and> cnt s' = cnt s \<and>
       stdio_initialized s' \<and> world s' = vt_free env (e_vtable e) (e_data e) (world s))"
proof -
  let ?s = "s\<lparr>cnt := (cnt s)(e_data e := 1), live_descriptors := live_descriptors s + 1\<rparr>"
  have "dt_inv (r(e_data e := Suc (r (e_data e)))) ?s"
    using assms(1,2) live_ok_new [of "cnt s" "live_descriptors s" "e_data e" 1]
    by (auto simp: dt_inv_def refs_ok_def)
  from insert_entry_holds [OF this, of env] assms(2,3) show ?thesis
    unfolding insert_with_def by (auto elim!: holds_mono simp: fun_upd_idem_iff)
qed

section \<open>The standard descriptors\<close>

definition stdio_ptrs :: "'x dt_env \<Rightarrow> data_ptr set" where
  "stdio_ptrs env = {p. \<exists>i < 3. stdio_alloc env i = Some p}"

text \<open>
  What is relied on of \<open>calloc\<close>: the blocks it returns for the standard descriptors are new
  ones, so none of them is a live descriptor, and they differ from each other.
\<close>

definition stdio_fresh :: "'x dt_env \<Rightarrow> (data_ptr \<Rightarrow> nat) \<Rightarrow> bool" where
  "stdio_fresh env c \<longleftrightarrow> (\<forall>p \<in> stdio_ptrs env. c p = 0) \<and>
     (\<forall>i < 3. \<forall>j < 3. i \<noteq> j \<longrightarrow> stdio_alloc env i = None \<or> stdio_alloc env i \<noteq> stdio_alloc env j)"

definition stdio_entry :: "'x dt_env \<Rightarrow> nat \<Rightarrow> data_ptr \<Rightarrow> descriptor_table_entry" where
  "stdio_entry env i p = \<lparr>e_data = p, e_vtable = stdio_vtable_of (version env) i\<rparr>"

lemma stdio_add_holds:
  assumes "dt_inv r s" "stdio_initialized s" "\<And>p. stdio_alloc env i = Some p \<Longrightarrow> cnt s p = 0"
  shows "holds (stdio_add env i s)
    (\<lambda>fd s'. dt_inv r s' \<and> stdio_initialized s' \<and> world s' = world s \<and>
       (\<exists>p. stdio_alloc env i = Some p \<and> cnt s' = (cnt s)(p := 1) \<and>
         fd_map (global_table s') = (fd_map (global_table s))
           ((LEAST j. fd_map (global_table s) j = None) \<mapsto> stdio_entry env i p)))
    (\<lambda>er s'. er = ENOMEM \<and> dt_inv r s' \<and> stdio_initialized s' \<and> cnt s' = cnt s)"
proof (cases "stdio_alloc env i")
  case None
  with assms show ?thesis by (simp add: stdio_add_def)
next
  case (Some p)
  with assms insert_with_holds [of r s "stdio_entry env i p" "\<lambda>_. Trap" env] show ?thesis
    by (auto simp: stdio_add_def stdio_entry_def elim!: holds_mono)
qed

text \<open>The state after the first \<open>n\<close> standard descriptors have been added to \<open>s0\<close>.\<close>

definition stdio_map :: "'x dt_env \<Rightarrow> nat \<Rightarrow> nat \<Rightarrow> descriptor_table_entry option" where
  "stdio_map env n j = (if j < n then Some (stdio_entry env j (the (stdio_alloc env j))) else None)"

definition stdio_upto :: "'x dt_env \<Rightarrow> (data_ptr \<Rightarrow> nat) \<Rightarrow> 'x dt_state \<Rightarrow> nat \<Rightarrow> 'x dt_state \<Rightarrow> bool" where
  "stdio_upto env r s0 n s \<longleftrightarrow> dt_inv r s \<and> stdio_initialized s \<and> world s = world s0 \<and>
     (\<forall>p. p \<notin> stdio_ptrs env \<longrightarrow> cnt s p = cnt s0 p) \<and>
     (\<forall>i p. n \<le> i \<longrightarrow> i < 3 \<longrightarrow> stdio_alloc env i = Some p \<longrightarrow> cnt s p = 0) \<and>
     (fd_map (global_table s0) = Map.empty \<longrightarrow> fd_map (global_table s) = stdio_map env n)"

lemma Least_stdio_map: "(LEAST j. stdio_map env n j = None) = n"
  by (rule Least_equality) (auto simp: stdio_map_def not_less [symmetric])

lemma stdio_map_Suc:
  "stdio_alloc env n = Some p \<Longrightarrow> (stdio_map env n)(n \<mapsto> stdio_entry env n p) = stdio_map env (Suc n)"
  by (auto simp: stdio_map_def fun_eq_iff less_Suc_eq)

lemma stdio_upto_step:
  assumes "stdio_upto env r s0 n s" "n < 3" "stdio_fresh env (cnt s0)"
  shows "holds (stdio_add env n s)
    (\<lambda>_ s'. stdio_upto env r s0 (Suc n) s')
    (\<lambda>er s'. er = ENOMEM \<and> dt_inv r s' \<and> stdio_initialized s' \<and>
       (\<forall>p. p \<notin> stdio_ptrs env \<longrightarrow> cnt s' p = cnt s0 p))"
proof -
  from assms(1) have s: "dt_inv r s" "stdio_initialized s" "world s = world s0"
    and out: "\<And>p. p \<notin> stdio_ptrs env \<Longrightarrow> cnt s p = cnt s0 p"
    and zero: "\<And>i p. n \<le> i \<Longrightarrow> i < 3 \<Longrightarrow> stdio_alloc env i = Some p \<Longrightarrow> cnt s p = 0"
    and map: "fd_map (global_table s0) = Map.empty \<Longrightarrow> fd_map (global_table s) = stdio_map env n"
    by (auto simp: stdio_upto_def)
  have memb: "\<And>p. stdio_alloc env n = Some p \<Longrightarrow> p \<in> stdio_ptrs env"
    using assms(2) by (auto simp: stdio_ptrs_def)
  have dist: "\<And>i p. Suc n \<le> i \<Longrightarrow> i < 3 \<Longrightarrow> stdio_alloc env n = Some p \<Longrightarrow>
      stdio_alloc env i \<noteq> Some p"
    using assms(2,3) unfolding stdio_fresh_def
    by (metis Suc_n_not_le_n option.distinct(1) less_imp_le_nat)
  show ?thesis
  proof (rule holds_mono [OF stdio_add_holds [OF s(1,2)]])
    show "\<And>p. stdio_alloc env n = Some p \<Longrightarrow> cnt s p = 0" using zero assms(2) by blast
  next
    fix a s'
    assume "dt_inv r s' \<and> stdio_initialized s' \<and> world s' = world s \<and>
       (\<exists>p. stdio_alloc env n = Some p \<and> cnt s' = (cnt s)(p := 1) \<and>
         fd_map (global_table s') = (fd_map (global_table s))
           ((LEAST j. fd_map (global_table s) j = None) \<mapsto> stdio_entry env n p))"
    then obtain p where s': "dt_inv r s'" "stdio_initialized s'" "world s' = world s"
      "stdio_alloc env n = Some p" "cnt s' = (cnt s)(p := 1)"
      "fd_map (global_table s') = (fd_map (global_table s))
           ((LEAST j. fd_map (global_table s) j = None) \<mapsto> stdio_entry env n p)" by blast
    have "fd_map (global_table s') = stdio_map env (Suc n)"
      if "fd_map (global_table s0) = Map.empty"
      using s' map [OF that] by (simp add: Least_stdio_map stdio_map_Suc)
    moreover have "cnt s' q = cnt s0 q" if "q \<notin> stdio_ptrs env" for q
      using that s' out memb by auto
    moreover have "cnt s' q = 0" if "Suc n \<le> i" "i < 3" "stdio_alloc env i = Some q" for i q
      using that s' zero [of i q] dist [of i p] by auto
    ultimately show "stdio_upto env r s0 (Suc n) s'"
      using s' s unfolding stdio_upto_def by simp
  next
    fix er s'
    assume "er = ENOMEM \<and> dt_inv r s' \<and> stdio_initialized s' \<and> cnt s' = cnt s"
    then show "er = ENOMEM \<and> dt_inv r s' \<and> stdio_initialized s' \<and>
       (\<forall>p. p \<notin> stdio_ptrs env \<longrightarrow> cnt s' p = cnt s0 p)" using out by simp
  qed
qed

lemma init_stdio_holds:
  assumes "dt_inv r s" "stdio_fresh env (cnt s)"
  shows "holds (init_stdio env s)
    (\<lambda>_ s'. stdio_upto env r s 3 s')
    (\<lambda>er s'. er = ENOMEM \<and> dt_inv r s' \<and> stdio_initialized s' \<and>
       (\<forall>p. p \<notin> stdio_ptrs env \<longrightarrow> cnt s' p = cnt s p))"
proof -
  have start: "stdio_upto env r s 0 (s\<lparr>stdio_initialized := True\<rparr>)"
    using assms by (auto simp: stdio_upto_def dt_inv_def stdio_fresh_def stdio_ptrs_def stdio_map_def fun_eq_iff)
  note step = stdio_upto_step [OF _ _ assms(2)]
  show ?thesis unfolding init_stdio_def wasilibc_init_stdio_def numeral_3_eq_3 numeral_2_eq_2 One_nat_def
    by (rule holds_bind [OF step [OF start]], simp, rule holds_bind [OF step], assumption, simp,
        rule holds_bind [OF step], assumption) simp_all
qed

lemma ensure_stdio_holds:
  assumes "dt_inv r s" "stdio_initialized s \<or> stdio_fresh env (cnt s)"
  shows "holds (ensure_stdio env s)
    (\<lambda>_ s'. dt_inv r s' \<and> stdio_initialized s' \<and>
       (if stdio_initialized s then s' = s else stdio_upto env r s 3 s'))
    (\<lambda>er s'. er = ENOMEM \<and> dt_inv r s' \<and> stdio_initialized s' \<and> \<not> stdio_initialized s \<and>
       (\<forall>p. p \<notin> stdio_ptrs env \<longrightarrow> cnt s' p = cnt s p))"
proof (cases "stdio_initialized s")
  case True
  with assms show ?thesis by (simp add: ensure_stdio_def)
next
  case False
  with assms have "stdio_fresh env (cnt s)" by simp
  from init_stdio_holds [OF assms(1) this] False show ?thesis
    by (auto simp: ensure_stdio_def stdio_upto_def elim!: holds_mono)
qed

text \<open>Insertion in general: the new object keeps its only reference while the standard ones are added.\<close>

lemma dt_inv_new_ref:
  assumes "dt_inv r s" "cnt s p = 0"
  shows "dt_inv (r(p := Suc (r p))) (s\<lparr>cnt := (cnt s)(p := 1), live_descriptors := live_descriptors s + 1\<rparr>)"
  using assms live_ok_new [of "cnt s" "live_descriptors s" p 1]
  by (auto simp: dt_inv_def refs_ok_def)

lemma insert_holds:
  fixes s :: "'x dt_state"
  assumes "dt_inv r s" "cnt s (e_data e) = 0"
    "stdio_initialized s \<or> stdio_fresh env (cnt s) \<and> e_data e \<notin> stdio_ptrs env"
  shows "holds (descriptor_table_insert env e s)
    (\<lambda>fd s'. dt_inv r s' \<and> stdio_initialized s' \<and> fd_map (global_table s') fd = Some e \<and>
       cnt s' (e_data e) = 1 \<and> world s' = world s \<and>
       (stdio_initialized s \<longrightarrow> fd = (LEAST i. fd_map (global_table s) i = None) \<and>
          fd_map (global_table s') = (fd_map (global_table s))(fd \<mapsto> e) \<and>
          cnt s' = (cnt s)(e_data e := 1)) \<and>
       (\<not> stdio_initialized s \<and> fd_map (global_table s) = Map.empty \<longrightarrow>
          fd = 3 \<and> fd_map (global_table s') = (stdio_map env 3)(3 \<mapsto> e)))
    (\<lambda>er s'. er = ENOMEM \<and> dt_inv r s' \<and> stdio_initialized s' \<and> cnt s' (e_data e) = 0 \<and>
       (stdio_initialized s \<longrightarrow> global_table s' = global_table s \<and> cnt s' = cnt s \<and>
          world s' = vt_free env (e_vtable e) (e_data e) (world s)))"
proof (cases "stdio_initialized s")
  case True
  from insert_with_holds [OF assms(1,2) True, of "init_stdio env" env] True assms(2) show ?thesis
    unfolding descriptor_table_insert_def by (auto elim!: holds_mono)
next
  case False
  let ?p = "e_data e"
  let ?r = "r(?p := Suc (r ?p))"
  let ?s = "s\<lparr>cnt := (cnt s)(?p := 1), live_descriptors := live_descriptors s + 1\<rparr>"
  from False assms(3) have np: "?p \<notin> stdio_ptrs env" and fr: "stdio_fresh env (cnt ?s)"
    by (auto simp: stdio_fresh_def)
  have inv: "dt_inv ?r ?s" by (rule dt_inv_new_ref [OF assms(1,2)])
  have init: "holds (on_err (init_stdio env ?s)
        (\<lambda>er s. bindO (descriptor_table_entry_dec env e s) (\<lambda>_ s. Err er s)))
      (\<lambda>_ s'. stdio_upto env ?r ?s 3 s')
      (\<lambda>er s'. er = ENOMEM \<and> dt_inv r s' \<and> stdio_initialized s' \<and> cnt s' ?p = 0)"
  proof (rule holds_on_err [OF init_stdio_holds [OF inv fr]], assumption, elim conjE)
    fix er and s' :: "'x dt_state"
    assume "er = ENOMEM" "dt_inv ?r s'" "stdio_initialized s'"
      "\<forall>p. p \<notin> stdio_ptrs env \<longrightarrow> cnt s' p = cnt ?s p"
    with np show "holds (bindO (descriptor_table_entry_dec env e s') (\<lambda>_ s. Err er s))
       (\<lambda>_ s'. stdio_upto env ?r ?s 3 s')
       (\<lambda>er s'. er = ENOMEM \<and> dt_inv r s' \<and> stdio_initialized s' \<and> cnt s' ?p = 0)"
      by (intro holds_bind [OF dec_holds]) auto
  qed
  have "holds (bindO (on_err (init_stdio env ?s)
            (\<lambda>er s. bindO (descriptor_table_entry_dec env e s) (\<lambda>_ s. Err er s)))
         (\<lambda>_ s. descriptor_table_insert_entry env e s))
    (\<lambda>fd s'. dt_inv r s' \<and> stdio_initialized s' \<and> fd_map (global_table s') fd = Some e \<and>
       cnt s' (e_data e) = 1 \<and> world s' = world s \<and>
       (fd_map (global_table s) = Map.empty \<longrightarrow>
          fd = 3 \<and> fd_map (global_table s') = (stdio_map env 3)(3 \<mapsto> e)))
    (\<lambda>er s'. er = ENOMEM \<and> dt_inv r s' \<and> stdio_initialized s' \<and> cnt s' (e_data e) = 0)"
  proof (rule holds_bind [OF init])
    fix s'
    assume "stdio_upto env ?r ?s 3 s'"
    then have s': "dt_inv ?r s'" "stdio_initialized s'" "cnt s' ?p = 1" "world s' = world s"
      "fd_map (global_table s) = Map.empty \<longrightarrow> fd_map (global_table s') = stdio_map env 3"
      using np by (auto simp: stdio_upto_def)
    show "holds (descriptor_table_insert_entry env e s')
      (\<lambda>fd s'. dt_inv r s' \<and> stdio_initialized s' \<and> fd_map (global_table s') fd = Some e \<and>
         cnt s' (e_data e) = 1 \<and> world s' = world s \<and>
         (fd_map (global_table s) = Map.empty \<longrightarrow>
            fd = 3 \<and> fd_map (global_table s') = (stdio_map env 3)(3 \<mapsto> e)))
      (\<lambda>er s'. er = ENOMEM \<and> dt_inv r s' \<and> stdio_initialized s' \<and> cnt s' (e_data e) = 0)"
      by (rule holds_mono [OF insert_entry_holds [OF s'(1)]]) (use s' in \<open>auto simp: Least_stdio_map\<close>)
  qed auto
  with False assms(2) show ?thesis
    unfolding descriptor_table_insert_def insert_with_def by (auto elim!: holds_mono)
qed

section \<open>The operations on the whole state\<close>

text \<open>What each operation may assume of the allocator before the standard descriptors exist.\<close>

definition stdio_ready :: "'x dt_env \<Rightarrow> 'x dt_state \<Rightarrow> bool" where
  "stdio_ready env s \<longleftrightarrow> stdio_initialized s \<or> stdio_fresh env (cnt s)"

text \<open>The body of an operation after the standard descriptors have been set up.\<close>

lemma after_stdio:
  assumes "dt_inv r s" "stdio_ready env s"
    and "\<And>s'. dt_inv r s' \<Longrightarrow> stdio_initialized s' \<Longrightarrow> (stdio_initialized s \<Longrightarrow> s' = s) \<Longrightarrow>
      holds (k s') P (\<lambda>er s''. Q er s'' \<and> stdio_initialized s'')"
    and "\<And>s'. dt_inv r s' \<Longrightarrow> \<not> stdio_initialized s \<Longrightarrow> stdio_initialized s' \<Longrightarrow> Q ENOMEM s'"
  shows "holds (bindO (ensure_stdio env s) (\<lambda>_ s'. k s')) P (\<lambda>er s''. Q er s'' \<and> stdio_initialized s'')"
  by (rule holds_bind [OF ensure_stdio_holds])
    (use assms in \<open>auto simp: stdio_ready_def split: if_splits\<close>)

lemma slot_counted: "dt_inv r s \<Longrightarrow> fd_map (global_table s) i = Some e \<Longrightarrow> 0 < cnt s (e_data e)"
  using slots_pos [of "global_table s" "e_data e"] by (auto simp: dt_inv_def refs_ok_def)

lemma lookup_state_holds:
  assumes "dt_inv r s"
  shows "holds (on_table (table_lookup (global_table s) fd) s)
    (\<lambda>e s'. s' = s \<and> 0 \<le> fd \<and> fd_map (global_table s) (nat fd) = Some e \<and> 0 < cnt s (e_data e))
    (\<lambda>er s'. s' = s \<and> er = EBADF \<and> (fd < 0 \<or> fd_map (global_table s) (nat fd) = None))"
  using assms table_lookup_holds [of "global_table s" fd] slot_counted [OF assms, of "nat fd"]
  by (auto simp: holds_on_table dt_inv_def split: option.splits)

lemma get_holds:
  assumes "dt_inv r s" "stdio_ready env s"
  shows "holds (descriptor_table_get env fd s)
    (\<lambda>e s'. dt_inv (r(e_data e := Suc (r (e_data e)))) s' \<and> stdio_initialized s' \<and>
       0 \<le> fd \<and> fd_map (global_table s') (nat fd) = Some e \<and>
       (stdio_initialized s \<longrightarrow> global_table s' = global_table s \<and> world s' = world s))
    (\<lambda>er s'. (dt_inv r s' \<and> (if stdio_initialized s
        then er = EBADF \<and> s' = s \<and> (fd < 0 \<or> fd_map (global_table s) (nat fd) = None)
        else er \<in> {EBADF, ENOMEM})) \<and> stdio_initialized s')"
  unfolding descriptor_table_get_def
proof (rule after_stdio [OF assms], goal_cases)
  case (1 s')
  show ?case
    by (rule holds_bind [OF lookup_state_holds [OF 1(1)]], elim conjE, hypsubst,
        rule holds_bind [OF inc_holds [OF 1(1)]]) (use 1 in auto)
qed auto

text \<open>The contract of a call that borrows an entry, once the standard descriptors exist.\<close>

interpretation dtb: borrowing "descriptor_table_get env" "descriptor_table_entry_dec env"
  "\<lambda>r s. dt_inv r s \<and> stdio_initialized s" e_data "\<lambda>v. fd_map (fst v)" "\<lambda>s. (global_table s, world s)"
  for env :: "'x dt_env"
proof (unfold_locales, goal_cases)
  case (1 r s fd)
  then have "dt_inv r s" "stdio_ready env s" by (simp_all add: stdio_ready_def)
  from get_holds [OF this, of fd] 1 show ?case by (elim holds_mono) auto
next
  case (2 r e s i)
  then have inv: "dt_inv (r(e_data e := Suc (r (e_data e)))) s" and m: "fd_map (global_table s) i = Some e" by auto
  from m have "0 < slots (global_table s) (e_data e)" using slots_pos by blast
  with inv have "cnt s (e_data e) \<noteq> 1" by (auto simp: dt_inv_def refs_ok_def)
  with dec_holds [OF inv, of env] 2 show ?case by (auto elim!: holds_mono)
qed

lemma remove_holds:
  assumes "dt_inv r s" "stdio_ready env s"
  shows "holds (descriptor_table_remove env fd s)
    (\<lambda>_ s'. dt_inv r s' \<and> stdio_initialized s' \<and>
       (stdio_initialized s \<longrightarrow> (\<exists>e. 0 \<le> fd \<and> fd_map (global_table s) (nat fd) = Some e \<and>
          fd_map (global_table s') = (fd_map (global_table s))(nat fd := None) \<and>
          len (global_table s') = len (global_table s) \<and>
          cnt s' = (cnt s)(e_data e := cnt s (e_data e) - 1) \<and>
          world s' = (if cnt s (e_data e) = 1
            then vt_free env (e_vtable e) (e_data e) (world s) else world s))))
    (\<lambda>er s'. (dt_inv r s' \<and> (if stdio_initialized s
        then er = EBADF \<and> s' = s \<and> (fd < 0 \<or> fd_map (global_table s) (nat fd) = None)
        else er \<in> {EBADF, ENOMEM})) \<and> stdio_initialized s')"
  unfolding descriptor_table_remove_def
proof (rule after_stdio [OF assms], goal_cases)
  case (1 s')
  have "holds (on_table (table_remove (global_table s') fd) s')
     (\<lambda>e s''. dt_inv (r(e_data e := Suc (r (e_data e)))) s'' \<and> 0 \<le> fd \<and>
        fd_map (global_table s') (nat fd) = Some e \<and>
        fd_map (global_table s'') = (fd_map (global_table s'))(nat fd := None) \<and>
        len (global_table s'') = len (global_table s') \<and>
        cnt s'' = cnt s' \<and> world s'' = world s' \<and> stdio_initialized s'')
     (\<lambda>er s''. er = EBADF \<and> s'' = s' \<and> (fd < 0 \<or> fd_map (global_table s') (nat fd) = None))"
    unfolding holds_on_table
    by (rule holds_mono [OF table_remove_holds])
      (use 1 in \<open>auto simp: dt_inv_def intro: refs_ok_take\<close>)
  then show ?case
    by (rule holds_bind, elim conjE, intro holds_mono [OF dec_holds]) (use 1 in auto)
qed auto

lemma grow_state_holds:
  assumes "dt_inv r s"
  shows "holds (on_table (table_grow (realloc_ok env) (global_table s) n) s)
    (\<lambda>_ s'. dt_inv r s' \<and> fd_map (global_table s') = fd_map (global_table s) \<and>
       n \<le> len (global_table s') \<and> cnt s' = cnt s \<and> world s' = world s \<and>
       stdio_initialized s' = stdio_initialized s)
    (\<lambda>er s'. er = ENOMEM \<and> s' = s)"
  unfolding holds_on_table
  by (rule holds_mono [OF table_grow_holds])
    (use assms in \<open>auto simp: dt_inv_def refs_ok_def\<close>)

text \<open>Storing a held reference over a free slot, and over an occupied one.\<close>

lemma set_slot_state_holds:
  assumes "dt_inv (r(e_data e := Suc (r (e_data e)))) s" "fd < len (global_table s)"
  shows "holds (on_table (set_slot (global_table s) fd e) s)
    (\<lambda>_ s'. dt_inv (case fd_map (global_table s) fd of None \<Rightarrow> r
         | Some old \<Rightarrow> r(e_data old := Suc (r (e_data old)))) s' \<and>
       fd_map (global_table s') = (fd_map (global_table s))(fd \<mapsto> e) \<and>
       len (global_table s') = len (global_table s) \<and>
       cnt s' = cnt s \<and> world s' = world s \<and> stdio_initialized s' = stdio_initialized s)
    (\<lambda>_ _. False)"
proof -
  have inv: "table_inv (global_table s)"
    "refs_ok (cnt s) (global_table s) (r(e_data e := Suc (r (e_data e))))"
    "live_ok (cnt s) (live_descriptors s)" using assms(1) by (simp_all add: dt_inv_def)
  have "refs_ok (cnt s) t' (case fd_map (global_table s) fd of None \<Rightarrow> r
         | Some old \<Rightarrow> r(e_data old := Suc (r (e_data old))))"
    if "\<forall>p. slots t' p + (if map_option e_data (fd_map (global_table s) fd) = Some p then 1 else 0) =
           slots (global_table s) p + (if e_data e = p then 1 else 0)" for t'
    unfolding refs_ok_def
  proof
    fix p
    from that have "slots t' p + (if map_option e_data (fd_map (global_table s) fd) = Some p then 1 else 0) =
           slots (global_table s) p + (if e_data e = p then 1 else 0)" by blast
    moreover have "cnt s p = slots (global_table s) p + (r(e_data e := Suc (r (e_data e)))) p"
      using inv(2) by (simp add: refs_ok_def)
    ultimately show "cnt s p = slots t' p + (case fd_map (global_table s) fd of None \<Rightarrow> r
         | Some old \<Rightarrow> r(e_data old := Suc (r (e_data old)))) p"
      by (cases "fd_map (global_table s) fd") (auto split: if_splits)
  qed
  with inv assms(2) show ?thesis
    unfolding holds_on_table
    by (intro holds_mono [OF set_slot_holds]) (auto simp: dt_inv_def)
qed

lemma fd_map_slot: "table_inv t \<Longrightarrow> i < len t \<Longrightarrow>
    fd_map t i = (if occupied (entries t ! i) then Some (entry (entries t ! i)) else None)"
  by (simp add: fd_map_def table_inv_def)

lemma replace_slot_holds:
  assumes "dt_inv (r(e_data e := Suc (r (e_data e)))) s" "fd < len (global_table s)"
  shows "holds (let table_entry = entries (global_table s) ! fd in
         bindO (on_table (set_slot (global_table s) fd e) s)
           (\<lambda>_ s. if occupied table_entry
             then bindO (descriptor_table_entry_dec env (entry table_entry) s) (\<lambda>_ s. Ret n s)
             else Ret n s))
    (\<lambda>m s'. m = n \<and> dt_inv r s' \<and> fd_map (global_table s') = (fd_map (global_table s))(fd \<mapsto> e) \<and>
       stdio_initialized s' = stdio_initialized s \<and>
       world s' = (case fd_map (global_table s) fd of None \<Rightarrow> world s
         | Some old \<Rightarrow> if cnt s (e_data old) = 1
             then vt_free env (e_vtable old) (e_data old) (world s) else world s))
    (\<lambda>_ _. False)"
proof (cases "fd_map (global_table s) fd")
  case None
  with assms show ?thesis
    unfolding Let_def
    by (intro holds_bind [OF set_slot_state_holds [OF assms]])
      (auto simp: dt_inv_def fd_map_slot split: if_splits)
next
  case (Some old)
  with assms have "entries (global_table s) ! fd = \<lparr>occupied = True, entry = old\<rparr>"
    by (auto simp: dt_inv_def fd_map_slot split: if_splits)
  with Some show ?thesis
    unfolding Let_def
    by (intro holds_bind [OF set_slot_state_holds [OF assms]])
      (auto intro!: holds_bind [OF dec_holds])
qed

lemma dup_onto_holds:
  assumes "dt_inv r s" "0 < cnt s (e_data e)"
  shows "holds (dup_onto env fd e arg s)
    (\<lambda>n s'. n = arg \<and> fd \<noteq> arg \<and> 0 \<le> arg \<and> arg < MAX_DESCRIPTOR \<and> dt_inv r s' \<and>
       fd_map (global_table s') = (fd_map (global_table s))(nat arg \<mapsto> e) \<and>
       stdio_initialized s' = stdio_initialized s \<and>
       world s' = (case fd_map (global_table s) (nat arg) of None \<Rightarrow> world s
         | Some old \<Rightarrow> if cnt s (e_data old) = 1 \<and> e_data old \<noteq> e_data e
             then vt_free env (e_vtable old) (e_data old) (world s) else world s))
    (\<lambda>er s'. s' = s \<and> (er = EINVAL \<and> fd = arg \<or>
       er = EBADF \<and> fd \<noteq> arg \<and> (arg < 0 \<or> MAX_DESCRIPTOR \<le> arg) \<or> er = ENOMEM))"
proof (cases "fd = arg \<or> arg < 0 \<or> MAX_DESCRIPTOR \<le> arg")
  case True
  with assms show ?thesis by (auto simp: dup_onto_def)
next
  case False
  let ?p = "e_data e"
  show ?thesis
    unfolding dup_onto_def if_not_P [OF conjunct1 [OF False [unfolded de_Morgan_disj]]]
      if_not_P [OF conjunct2 [OF False [unfolded de_Morgan_disj], folded de_Morgan_disj]]
      Let_def [of "nat arg"]
  proof (rule holds_bind [OF grow_state_holds [OF assms(1)]], goal_cases)
    case (1 u s1)
    then have s1: "dt_inv r s1" "nat arg < len (global_table s1)" "cnt s1 = cnt s"
        "fd_map (global_table s1) = fd_map (global_table s)" "world s1 = world s"
        "stdio_initialized s1 = stdio_initialized s" by simp_all
    show ?case
    proof (rule holds_bind [OF inc_holds [OF s1(1)]], goal_cases)
      case 1
      with s1 assms show ?case by simp
    next
      case (2 u s2)
      then have s2: "dt_inv (r(?p := Suc (r ?p))) s2"
        "s2 = s1\<lparr>cnt := (cnt s1)(?p := Suc (cnt s1 ?p))\<rparr>" by blast+
      with s1 have len: "nat arg < len (global_table s2)" by simp
      have "nat arg < length (entries (global_table s2))"
        using s2(1) len by (simp add: dt_inv_def table_inv_def)
      then show ?case
        unfolding holds_assert
        by (intro conjI holds_mono [OF replace_slot_holds [OF s2(1) len]])
          (use s1 s2(2) False assms(2) in \<open>auto split: option.splits\<close>)
    qed auto
  qed auto
qed

lemma dup_above_holds:
  assumes "dt_inv r s" "0 < cnt s (e_data e)"
  shows "holds (dup_above env e arg s)
    (\<lambda>n s'. 0 \<le> arg \<and> arg < MAX_DESCRIPTOR \<and> dt_inv r s' \<and>
       n = int (LEAST i. nat arg \<le> i \<and> fd_map (global_table s) i = None) \<and>
       fd_map (global_table s') = (fd_map (global_table s))(nat n \<mapsto> e) \<and>
       stdio_initialized s' = stdio_initialized s \<and> world s' = world s)
    (\<lambda>er s'. s' = s \<and> (er = EINVAL \<and> (arg < 0 \<or> MAX_DESCRIPTOR \<le> arg) \<or> er = ENOMEM))"
proof (cases "arg < 0 \<or> MAX_DESCRIPTOR \<le> arg")
  case True
  then show ?thesis by (auto simp: dup_above_def)
next
  case False
  let ?p = "e_data e" and ?t = "global_table s"
  define m where "m = (LEAST i. nat arg \<le> i \<and> fd_map ?t i = None)"
  have inv: "table_inv ?t" using assms by (simp add: dt_inv_def)
  have m: "scan (entries ?t) (len ?t) (if nat arg < next_fd ?t then next_fd ?t else nat arg) = m"
    unfolding m_def using inv
    by (intro scan_least) (auto simp: table_inv_def split: if_splits)
  have "\<exists>i. nat arg \<le> i \<and> fd_map ?t i = None"
    by (rule exI [of _ "max (nat arg) (length (entries ?t))"]) (simp add: fd_map_None_iff)
  then have free: "fd_map ?t m = None" unfolding m_def by (rule LeastI2_ex) simp
  show ?thesis
    unfolding dup_above_def if_not_P [OF False] Let_def m
  proof (rule holds_bind [OF grow_state_holds [OF assms(1)]], goal_cases)
    case (1 u s1)
    then have s1: "dt_inv r s1" "m < len (global_table s1)" "cnt s1 = cnt s"
        "fd_map (global_table s1) = fd_map ?t" "world s1 = world s"
        "stdio_initialized s1 = stdio_initialized s" by simp_all
    show ?case
    proof (rule holds_bind [OF inc_holds [OF s1(1)]], goal_cases)
      case 1
      with s1 assms show ?case by simp
    next
      case (2 u s2)
      then have s2: "dt_inv (r(?p := Suc (r ?p))) s2" "s2 = s1\<lparr>cnt := (cnt s1)(?p := Suc (cnt s1 ?p))\<rparr>"
        by blast+
      with s1 have len: "m < len (global_table s2)" by simp
      show ?case
        by (rule holds_bind [OF set_slot_state_holds [OF s2(1) len]])
          (use s1 s2(2) False free in \<open>auto simp: m_def [symmetric]\<close>)
    qed auto
  qed auto
qed

text \<open>What the duplication of entry \<open>e\<close> of descriptor \<open>fd\<close> must return and do to the map.\<close>

definition dup_spec :: "dup_op \<Rightarrow> int \<Rightarrow> int \<Rightarrow> descriptor_table_entry \<Rightarrow>
    (nat \<Rightarrow> descriptor_table_entry option) \<Rightarrow> int \<Rightarrow> (nat \<Rightarrow> descriptor_table_entry option) \<Rightarrow> bool" where
  "dup_spec op fd arg e m n m' \<longleftrightarrow> 0 \<le> n \<and> m' = m(nat n \<mapsto> e) \<and>
     (case op of
        DUP_OP_DUP \<Rightarrow> n = int (LEAST i. m i = None)
      | DUP_OP_DUP2 \<Rightarrow> n = arg \<and> (fd = arg \<or> arg < MAX_DESCRIPTOR)
      | DUP_OP_DUP3 \<Rightarrow> n = arg \<and> fd \<noteq> arg \<and> arg < MAX_DESCRIPTOR
      | DUP_OP_DUPFD \<Rightarrow> n = int (LEAST i. nat arg \<le> i \<and> m i = None) \<and> 0 \<le> arg \<and> arg < MAX_DESCRIPTOR)"

definition dup_errors :: "dup_op \<Rightarrow> int \<Rightarrow> int \<Rightarrow> errno set" where
  "dup_errors op fd arg = {ENOMEM} \<union>
     (case op of
        DUP_OP_DUP \<Rightarrow> {}
      | DUP_OP_DUP2 \<Rightarrow> (if arg < 0 \<or> MAX_DESCRIPTOR \<le> arg then {EBADF} else {})
      | DUP_OP_DUP3 \<Rightarrow> (if fd = arg then {EINVAL} else if arg < 0 \<or> MAX_DESCRIPTOR \<le> arg then {EBADF} else {})
      | DUP_OP_DUPFD \<Rightarrow> (if arg < 0 \<or> MAX_DESCRIPTOR \<le> arg then {EINVAL} else {}))"

lemma dup_holds:
  assumes "dt_inv r s" "stdio_ready env s"
  shows "holds (descriptor_table_dup env fd op arg s)
    (\<lambda>n s'. dt_inv r s' \<and> stdio_initialized s' \<and>
       (stdio_initialized s \<longrightarrow> 0 \<le> fd \<and> (\<exists>e. fd_map (global_table s) (nat fd) = Some e \<and>
          dup_spec op fd arg e (fd_map (global_table s)) n (fd_map (global_table s')))))
    (\<lambda>er s'. (dt_inv r s' \<and> (stdio_initialized s \<longrightarrow>
        global_table s' = global_table s \<and> world s' = world s \<and>
        (if fd < 0 \<or> fd_map (global_table s) (nat fd) = None then er = EBADF
         else er \<in> dup_errors op fd arg))) \<and> stdio_initialized s')"
  unfolding descriptor_table_dup_def
proof (rule after_stdio [OF assms], goal_cases)
  case (1 s')
  note s' = this
  show ?case
  proof (rule holds_bind [OF lookup_state_holds [OF s'(1)]], goal_cases)
    case (1 e s1)
    then have e: "s1 = s'" "0 \<le> fd" "fd_map (global_table s') (nat fd) = Some e" "0 < cnt s' (e_data e)"
      by simp_all
    have same: "m(nat fd \<mapsto> e) = m" if "m (nat fd) = Some e" for m :: "nat \<Rightarrow> descriptor_table_entry option"
      using that by (simp add: fun_upd_idem)
    show ?case
    proof (cases op)
      case DUP_OP_DUP
      then show ?thesis unfolding e(1) dup_op.case
        by (auto intro!: holds_bind [OF inc_holds [OF s'(1) e(4)]] holds_bind [OF insert_entry_holds])
          (use s' e in \<open>auto simp: dup_spec_def dup_errors_def\<close>)
    next
      case DUP_OP_DUP2
      then show ?thesis unfolding e(1)
        using s' e same dup_onto_holds [OF s'(1) e(4), of env fd arg]
        by (auto simp: dup_spec_def dup_errors_def elim!: holds_mono)
    next
      case DUP_OP_DUP3
      then show ?thesis unfolding e(1)
        using s' e dup_onto_holds [OF s'(1) e(4), of env fd arg]
        by (auto simp: dup_spec_def dup_errors_def elim!: holds_mono)
    next
      case DUP_OP_DUPFD
      then show ?thesis unfolding e(1)
        using s' e dup_above_holds [OF s'(1) e(4), of env arg]
        by (auto simp: dup_spec_def dup_errors_def elim!: holds_mono)
    qed
  qed (use s' in auto)
qed auto

section \<open>Clearing the table and the exit-time check\<close>

lemma dec_live:
  assumes "live_ok (cnt s) (live_descriptors s)" "0 < cnt s (e_data e)"
  shows "holds (descriptor_table_entry_dec env e s)
    (\<lambda>_ s'. live_ok (cnt s') (live_descriptors s') \<and> global_table s' = global_table s \<and>
       cnt s' = (cnt s)(e_data e := cnt s (e_data e) - 1))
    (\<lambda>_ _. False)"
proof (cases "cnt s (e_data e) = 1")
  case True
  with live_ok_last [OF assms(1,2)] show ?thesis
    by (simp add: descriptor_table_entry_dec_def wasilibc_descriptor_deallocate_def)
next
  case False
  with assms(2) have "0 < cnt s (e_data e) - 1" by simp
  with live_ok_keep [OF assms(1,2) this] False show ?thesis
    by (simp add: descriptor_table_entry_dec_def)
qed

lemma clear_slots_holds:
  assumes "k \<le> n" "n = length (entries (global_table s))" "live_ok (cnt s) (live_descriptors s)"
    "\<And>p. cnt s p = count_list (map item_ref (drop k (entries (global_table s)))) (Some p) + r p"
  shows "holds (clear_slots env [k..<n] s)
    (\<lambda>_ s'. global_table s' = global_table s \<and> live_ok (cnt s') (live_descriptors s') \<and> cnt s' = r)
    (\<lambda>_ _. False)"
  using assms
proof (induction arbitrary: s rule: inc_induct)
  case base
  then have "cnt s = r" by (simp add: fun_eq_iff)
  with base show ?case by simp
next
  case (step k)
  let ?es = "entries (global_table s)"
  have drop: "drop k ?es = ?es ! k # drop (Suc k) ?es"
    using step.hyps step.prems by (simp add: Cons_nth_drop_Suc)
  have upt: "[k..<n] = k # [Suc k..<n]" using step.hyps by (simp add: upt_conv_Cons)
  show ?case
  proof (cases "occupied (?es ! k)")
    case True
    let ?e = "entry (?es ! k)"
    have cnt: "cnt s p = count_list (map item_ref (drop (Suc k) ?es)) (Some p) + r p +
        (if p = e_data ?e then 1 else 0)" for p
      using step.prems(3) [of p] True by (simp add: drop item_ref_def [of "?es ! k"])
    show ?thesis
      unfolding upt clear_slots.simps Let_def if_P [OF True]
    proof (rule holds_bind [OF dec_live [OF step.prems(2)]], goal_cases)
      case 1
      then show ?case using cnt [of "e_data ?e"] by simp
    next
      case (2 u s')
      then have s': "global_table s' = global_table s" "live_ok (cnt s') (live_descriptors s')"
        "cnt s' = (cnt s)(e_data ?e := cnt s (e_data ?e) - 1)" by blast+
      have "cnt s' p = count_list (map item_ref (drop (Suc k) (entries (global_table s')))) (Some p) + r p" for p
        using cnt [of p] s'(1,3) by (cases "p = e_data ?e") auto
      from step.IH [OF _ s'(2) this] s'(1) step.prems(1) show ?case by simp
    qed simp
  next
    case False
    have "cnt s p = count_list (map item_ref (drop (Suc k) ?es)) (Some p) + r p" for p
      using step.prems(3) [of p] False by (simp add: drop item_ref_def [of "?es ! k"])
    from step.IH [OF step.prems(1,2) this] False show ?thesis unfolding upt by simp
  qed
qed

lemma clear_holds:
  assumes "dt_inv r s"
  shows "holds (descriptor_table_clear env s)
    (\<lambda>_ s'. dt_inv r s' \<and> cnt s' = r \<and> fd_map (global_table s') = Map.empty \<and> \<not> stdio_initialized s')
    (\<lambda>_ _. False)"
proof -
  have len: "length (entries (global_table s)) = len (global_table s)"
    using assms by (simp add: dt_inv_def table_inv_def)
  have "holds (clear_slots env [0..<len (global_table s)] s)
    (\<lambda>_ s'. global_table s' = global_table s \<and> live_ok (cnt s') (live_descriptors s') \<and> cnt s' = r)
    (\<lambda>_ _. False)"
    by (rule clear_slots_holds) (use assms len in \<open>auto simp: dt_inv_def refs_ok_def slots_def\<close>)
  then have "holds (clear env s) (\<lambda>_ s'. global_table s' = \<lparr>entries = [], len = 0, next_fd = 0\<rparr> \<and>
      live_ok r (live_descriptors s') \<and> cnt s' = r) (\<lambda>_ _. False)"
    unfolding clear_def by (rule holds_bind) auto
  then show ?thesis
    unfolding descriptor_table_clear_def
    by (rule holds_bind) (auto simp: dt_inv_def table_inv_def refs_ok_def slots_def fd_map_def)
qed

definition stdio_open_in :: "(nat \<Rightarrow> descriptor_table_entry option) \<Rightarrow> nat list \<Rightarrow> nat" where
  "stdio_open_in m is = length (filter (\<lambda>i. i < 3 \<and> m i \<noteq> None) is)"

definition closed_in :: "(nat \<Rightarrow> descriptor_table_entry option) \<Rightarrow> nat list \<Rightarrow>
    nat \<Rightarrow> descriptor_table_entry option" where
  "closed_in m is i = (if 3 \<le> i \<and> i \<in> set is then None else m i)"

lemma stdio_open_in_Cons:
  "stdio_open_in m (i # is) = (if i < 3 \<and> m i \<noteq> None then 1 else 0) + stdio_open_in m is"
  by (simp add: stdio_open_in_def)

lemma stdio_open_in_upd: "3 \<le> i \<Longrightarrow> stdio_open_in (m(i := x)) is = stdio_open_in m is"
  unfolding stdio_open_in_def by (rule arg_cong [of _ _ length], rule filter_cong) auto

lemma closed_in_skip: "i < 3 \<or> m i = None \<Longrightarrow> closed_in m (i # is) = closed_in m is"
  by (auto simp: closed_in_def fun_eq_iff)

lemma closed_in_upd: "3 \<le> i \<Longrightarrow> closed_in (m(i := None)) is = closed_in m (i # is)"
  by (auto simp: closed_in_def fun_eq_iff)

lemma close_leaked_holds:
  assumes "set is \<subseteq> {..<len (global_table s)}" "dt_inv r s" "stdio_initialized s"
  shows "holds (close_leaked env is c s)
    (\<lambda>m s'. dt_inv r s' \<and> m = c + stdio_open_in (fd_map (global_table s)) is \<and>
       fd_map (global_table s') = closed_in (fd_map (global_table s)) is)
    (\<lambda>_ _. False)"
  using assms
proof (induction "is" arbitrary: s c)
  case Nil
  then show ?case by (simp add: stdio_open_in_def closed_in_def fun_eq_iff)
next
  case (Cons i "is")
  let ?m = "fd_map (global_table s)"
  have occ: "occupied (entries (global_table s) ! i) \<longleftrightarrow> ?m i \<noteq> None"
    using Cons.prems by (simp add: dt_inv_def fd_map_slot)
  show ?case
  proof (cases "?m i = None \<or> i < 3")
    case True
    from Cons.IH [OF _ Cons.prems(2,3), of c] Cons.IH [OF _ Cons.prems(2,3), of "c + 1"] Cons.prems(1) True
    show ?thesis
      by (auto simp: occ stdio_open_in_Cons closed_in_skip simp del: not_None_eq elim!: holds_mono)
  next
    case False
    have rm: "holds (on_err (descriptor_table_remove env (int i) s) (\<lambda>_ _. Trap))
      (\<lambda>_ s'. dt_inv r s' \<and> stdio_initialized s' \<and> len (global_table s') = len (global_table s) \<and>
         fd_map (global_table s') = ?m(i := None))
      (\<lambda>_ _. False)"
      by (rule holds_on_err [OF remove_holds [OF Cons.prems(2)]])
        (use False Cons.prems in \<open>auto simp: stdio_ready_def\<close>)
    have "holds (bindO (on_err (descriptor_table_remove env (int i) s) (\<lambda>_ _. Trap))
        (\<lambda>_ s. close_leaked env is c s))
      (\<lambda>m s'. dt_inv r s' \<and> m = c + stdio_open_in ?m (i # is) \<and>
         fd_map (global_table s') = closed_in ?m (i # is))
      (\<lambda>_ _. False)"
    proof (rule holds_bind [OF rm], goal_cases)
      case (1 u s')
      with Cons.prems(1) have "set is \<subseteq> {..<len (global_table s')}" "dt_inv r s'" "stdio_initialized s'"
        and m': "fd_map (global_table s') = ?m(i := None)"
        by simp_all
      from Cons.IH [OF this(1-3), of c] False show ?case
        unfolding m' by (simp add: stdio_open_in_Cons stdio_open_in_upd closed_in_upd del: fun_upd_apply)
    qed
    with False show ?thesis by (simp add: occ)
  qed
qed

text \<open>
  The exit-time check passes exactly when the open standard descriptors are different objects;
  whatever was left open above them has been closed.
\<close>

lemma counted_slots:
  assumes "dt_inv (\<lambda>_. 0) s"
  shows "{p. 0 < cnt s p} = (\<lambda>i. e_data (the (fd_map (global_table s) i))) ` dom (fd_map (global_table s))"
  using assms slots_pos [of "global_table s"] by (auto simp: dt_inv_def refs_ok_def image_iff dom_def) force+

lemma no_leaks_iff:
  assumes "dt_inv (\<lambda>_. 0) s" "stdio_initialized s"
  shows "(\<exists>s'. wasilibc_assert_no_descriptor_leaks env s = Ret () s') \<longleftrightarrow>
     inj_on (\<lambda>i. e_data (the (fd_map (global_table s) i))) {i. i < 3 \<and> fd_map (global_table s) i \<noteq> None}"
    "wasilibc_assert_no_descriptor_leaks env s \<noteq> Diverge"
    "wasilibc_assert_no_descriptor_leaks env s \<noteq> Err er s'"
    "wasilibc_assert_no_descriptor_leaks env s = Ret () s' \<Longrightarrow> dt_inv (\<lambda>_. 0) s' \<and>
       fd_map (global_table s') = fd_map (global_table s) |` {0, 1, 2}"
proof -
  let ?m = "fd_map (global_table s)"
  let ?S = "{i. i < 3 \<and> ?m i \<noteq> None}"
  have len: "length (entries (global_table s)) = len (global_table s)"
    using assms by (simp add: dt_inv_def table_inv_def)
  have "set (filter (\<lambda>i. i < 3 \<and> ?m i \<noteq> None) [0..<len (global_table s)]) = ?S"
    by (auto simp: fd_map_def len split: if_splits)
  moreover have "distinct (filter (\<lambda>i. i < 3 \<and> ?m i \<noteq> None) [0..<len (global_table s)])"
    by (intro distinct_filter distinct_upt)
  ultimately have S: "stdio_open_in ?m [0..<len (global_table s)] = card ?S"
    unfolding stdio_open_in_def using distinct_card by fastforce
  have m': "closed_in ?m [0..<len (global_table s)] = ?m |` {0, 1, 2}"
    by (auto simp: fun_eq_iff restrict_map_def fd_map_def len closed_in_def)
  have "set [0..<len (global_table s)] \<subseteq> {..<len (global_table s)}" by auto
  from close_leaked_holds [OF this assms, of env 0]
  obtain s1 where s1: "close_leaked env [0..<len (global_table s)] 0 s = Ret (card ?S) s1"
      "dt_inv (\<lambda>_. 0) s1" "fd_map (global_table s1) = ?m |` {0, 1, 2}"
    unfolding S m' holds_no_err by auto
  have dom: "dom (?m |` {0, 1, 2}) = ?S"
    unfolding dom_restrict by (auto simp: dom_def)
  have "live_descriptors s1 = card ((\<lambda>i. e_data (the ((?m |` {0, 1, 2}) i))) ` ?S)"
    using s1(2) counted_slots [OF s1(2), unfolded s1(3) dom] unfolding dt_inv_def live_ok_def by metis
  also have "(\<lambda>i. e_data (the ((?m |` {0, 1, 2}) i))) ` ?S = (\<lambda>i. e_data (the (?m i))) ` ?S"
    by (rule image_cong) (auto simp: restrict_map_def)
  finally have live: "live_descriptors s1 = card ?S \<longleftrightarrow> inj_on (\<lambda>i. e_data (the (?m i))) ?S"
    by (simp add: inj_on_iff_eq_card)
  note def = wasilibc_assert_no_descriptor_leaks_def
  show "(\<exists>s'. wasilibc_assert_no_descriptor_leaks env s = Ret () s') \<longleftrightarrow>
      inj_on (\<lambda>i. e_data (the (?m i))) ?S"
    using live assms(2) s1(1) by (simp add: def)
  show "wasilibc_assert_no_descriptor_leaks env s \<noteq> Diverge"
    "wasilibc_assert_no_descriptor_leaks env s \<noteq> Err er s'"
    using assms(2) s1(1) by (simp_all add: def)
  show "wasilibc_assert_no_descriptor_leaks env s = Ret () s' \<Longrightarrow> dt_inv (\<lambda>_. 0) s' \<and>
       fd_map (global_table s') = ?m |` {0, 1, 2}"
    using assms(2) s1 by (simp add: def split: if_splits)
qed

section \<open>The contract of the table\<close>

interpretation dt: fd_table "table_allocate realloc" table_lookup table_remove fd_map table_inv
  for realloc :: "nat \<Rightarrow> bool"
proof
  fix t e fd
  assume inv: "table_inv t"
  show "holds (table_allocate realloc t e)
      (\<lambda>fd t'. table_inv t' \<and> fd = (LEAST i. fd_map t i = None) \<and> fd_map t' = (fd_map t)(fd \<mapsto> e))
      (\<lambda>er t'. er = ENOMEM \<and> t' = t)"
    by (rule holds_mono [OF table_allocate_holds [OF inv]]) auto
  show "holds (table_lookup t fd)
      (\<lambda>e t'. t' = t \<and> 0 \<le> fd \<and> fd_map t (nat fd) = Some e)
      (\<lambda>er t'. t' = t \<and> er = EBADF \<and> (fd < 0 \<or> fd_map t (nat fd) = None))"
    unfolding table_lookup_holds [OF inv] by (auto split: option.splits)
  show "holds (table_remove t fd)
      (\<lambda>e t'. table_inv t' \<and> 0 \<le> fd \<and> fd_map t (nat fd) = Some e \<and> fd_map t' = (fd_map t)(nat fd := None))
      (\<lambda>er t'. t' = t \<and> er = EBADF \<and> (fd < 0 \<or> fd_map t (nat fd) = None))"
    by (rule holds_mono [OF table_remove_holds [OF inv]]) auto
  have "dom (fd_map t) \<subseteq> {..<length (entries t)}"
    by (auto simp: fd_map_def split: if_splits)
  then show "finite (dom (fd_map t))" by (rule finite_subset) simp
qed

section \<open>Reachable states\<close>

definition dt_init :: "'x \<Rightarrow> 'x dt_state" where
  "dt_init w = \<lparr>global_table = \<lparr>entries = [], len = 0, next_fd = 0\<rparr>, stdio_initialized = False,
     cnt = (\<lambda>_. 0), live_descriptors = 0, world = w\<rparr>"

text \<open>
  The state after an operation, whether it succeeds or fails. \<open>r\<close> is the number of references
  the rest of the library holds; a caller may drop only a reference it holds.
\<close>

fun after :: "('a, 's) outcome \<Rightarrow> 's \<Rightarrow> bool" where
  "after (Ret a s) s' \<longleftrightarrow> s' = s"
| "after (Err e s) s' \<longleftrightarrow> s' = s"
| "after Trap s' \<longleftrightarrow> False"
| "after Diverge s' \<longleftrightarrow> False"

definition insert_pre :: "'x dt_env \<Rightarrow> descriptor_table_entry \<Rightarrow> 'x dt_state \<Rightarrow> bool" where
  "insert_pre env e s \<longleftrightarrow> cnt s (e_data e) = 0 \<and>
     (stdio_initialized s \<or> stdio_fresh env (cnt s) \<and> e_data e \<notin> stdio_ptrs env)"

inductive dt_step :: "(data_ptr \<Rightarrow> nat) \<times> 'x dt_state \<Rightarrow> (data_ptr \<Rightarrow> nat) \<times> 'x dt_state \<Rightarrow> bool" where
  step_insert: "insert_pre env e s \<Longrightarrow> after (descriptor_table_insert env e s) s' \<Longrightarrow> dt_step (r, s) (r, s')"
| step_get: "stdio_ready env s \<Longrightarrow> descriptor_table_get env fd s = Ret e s' \<Longrightarrow>
    dt_step (r, s) (r(e_data e := r (e_data e) + 1), s')"
| step_get_err: "stdio_ready env s \<Longrightarrow> descriptor_table_get env fd s = Err er s' \<Longrightarrow> dt_step (r, s) (r, s')"
| step_put: "0 < r (e_data e) \<Longrightarrow> after (descriptor_table_entry_dec env e s) s' \<Longrightarrow>
    dt_step (r, s) (r(e_data e := r (e_data e) - 1), s')"
| step_remove: "stdio_ready env s \<Longrightarrow> after (descriptor_table_remove env fd s) s' \<Longrightarrow> dt_step (r, s) (r, s')"
| step_dup: "stdio_ready env s \<Longrightarrow> after (descriptor_table_dup env fd op arg s) s' \<Longrightarrow> dt_step (r, s) (r, s')"
| step_clear: "after (descriptor_table_clear env s) s' \<Longrightarrow> dt_step (r, s) (r, s')"

definition dt_reachable :: "(data_ptr \<Rightarrow> nat) \<Rightarrow> 'x dt_state \<Rightarrow> bool" where
  "dt_reachable r s \<longleftrightarrow> (\<exists>w. dt_step\<^sup>*\<^sup>* (\<lambda>_. 0, dt_init w) (r, s))"

lemma holds_after: "holds x (\<lambda>_. P) (\<lambda>_. P) \<Longrightarrow> after x s \<Longrightarrow> P s"
  by (cases x) auto

lemma dt_inv_init: "dt_inv (\<lambda>_. 0) (dt_init w)"
  by (simp add: dt_inv_def dt_init_def table_inv_def refs_ok_def slots_def live_ok_def)

lemma put_holds:
  assumes "dt_inv r s" "0 < r (e_data e)"
  shows "holds (descriptor_table_entry_dec env e s)
    (\<lambda>_ s'. dt_inv (r(e_data e := r (e_data e) - 1)) s') (\<lambda>_ _. False)"
proof -
  let ?r = "r(e_data e := r (e_data e) - 1)"
  have "r = ?r(e_data e := Suc (?r (e_data e)))" using assms(2) by (auto simp: fun_eq_iff)
  with assms(1) have "dt_inv (?r(e_data e := Suc (?r (e_data e)))) s" by simp
  from dec_holds [OF this] show ?thesis by (rule holds_mono) auto
qed

lemma dt_step_inv: "dt_step (r, s) (r', s') \<Longrightarrow> dt_inv r s \<Longrightarrow> dt_inv r' s'"
proof (induction "(r, s)" "(r', s')" rule: dt_step.induct)
  case (step_insert env e)
  from step_insert(1,3) have "holds (descriptor_table_insert env e s) (\<lambda>_. dt_inv r') (\<lambda>_. dt_inv r')"
    using step_insert by (intro holds_mono [OF insert_holds]) (auto simp: insert_pre_def)
  from holds_after [OF this] step_insert show ?case by blast
next
  case (step_get env fd e)
  then show ?case using holds_RetD [OF get_holds] by fastforce
next
  case (step_get_err env fd er)
  then show ?case using holds_ErrD [OF get_holds] by fastforce
next
  case (step_put e env)
  from holds_mono [OF put_holds [OF step_put(4) step_put(1)]]
  have "holds (descriptor_table_entry_dec env e s) (\<lambda>_. dt_inv r') (\<lambda>_. dt_inv r')"
    using step_put by (intro holds_mono [OF put_holds]) auto
  from holds_after [OF this] step_put show ?case by blast
next
  case (step_remove env fd)
  have "holds (descriptor_table_remove env fd s) (\<lambda>_. dt_inv r') (\<lambda>_. dt_inv r')"
    using step_remove by (intro holds_mono [OF remove_holds]) auto
  from holds_after [OF this] step_remove show ?case by blast
next
  case (step_dup env fd op arg)
  have "holds (descriptor_table_dup env fd op arg s) (\<lambda>_. dt_inv r') (\<lambda>_. dt_inv r')"
    using step_dup by (intro holds_mono [OF dup_holds]) auto
  from holds_after [OF this] step_dup show ?case by blast
next
  case (step_clear env)
  have "holds (descriptor_table_clear env s) (\<lambda>_. dt_inv r') (\<lambda>_. dt_inv r')"
    using step_clear by (intro holds_mono [OF clear_holds]) auto
  from holds_after [OF this] step_clear show ?case by blast
qed

lemma dt_reachable_inv:
  assumes "dt_reachable r s"
  shows "dt_inv r s"
proof -
  from assms obtain w where "dt_step\<^sup>*\<^sup>* (\<lambda>_. 0, dt_init w) (r, s)" by (auto simp: dt_reachable_def)
  then have "dt_inv (fst (r, s)) (snd (r, s))"
    by (induction rule: rtranclp_induct) (use dt_inv_init in \<open>auto dest: dt_step_inv\<close>)
  then show ?thesis by simp
qed

section \<open>Properties\<close>

text \<open>
  A concrete run for the witnesses: memory is never short, the standard descriptors live at
  addresses 101 to 103, destructors are logged, and one file (at 200) is opened and duplicated
  onto descriptor 1.
\<close>

definition demo_env :: "(vtable \<times> data_ptr) list dt_env" where
  "demo_env = \<lparr>version = P3, realloc_ok = (\<lambda>_. True), stdio_alloc = (\<lambda>i. Some (101 + i)),
     vt_free = (\<lambda>v p log. (v, p) # log)\<rparr>"

definition demo_entry :: descriptor_table_entry where
  "demo_entry = \<lparr>e_data = 200, e_vtable = File_vtable\<rparr>"

definition demo1 :: "(vtable \<times> data_ptr) list dt_state" where
  "demo1 = out_state (descriptor_table_insert demo_env demo_entry (dt_init []))"

definition demo2 :: "(vtable \<times> data_ptr) list dt_state" where
  "demo2 = out_state (descriptor_table_dup demo_env 3 DUP_OP_DUP2 1 demo1)"

definition demo_dup12 :: "(vtable \<times> data_ptr) list dt_state" where
  "demo_dup12 = out_state (descriptor_table_dup demo_env 1 DUP_OP_DUP2 2 (dt_init []))"

lemma demo_fresh: "stdio_fresh demo_env (\<lambda>_. 0)" "200 \<notin> stdio_ptrs demo_env"
  by (auto simp: stdio_fresh_def stdio_ptrs_def demo_env_def)

lemma demo1_eq:
  "descriptor_table_insert demo_env demo_entry (dt_init []) = Ret 3 demo1"
  "stdio_initialized demo1" "map (cnt demo1) [101, 102, 103, 200, 300] = [1, 1, 1, 1, 0]"
  "map (fd_map (global_table demo1)) [0, 1, 2, 3, 4] =
     [Some (stdio_entry demo_env 0 101), Some (stdio_entry demo_env 1 102),
      Some (stdio_entry demo_env 2 103), Some demo_entry, None]"
  unfolding demo1_def by (rule ret_val_Ret, code_simp) code_simp+

lemma demo2_eq:
  "descriptor_table_dup demo_env 3 DUP_OP_DUP2 1 demo1 = Ret 1 demo2"
  "stdio_initialized demo2" "map (cnt demo2) [101, 102, 103, 200] = [1, 0, 1, 2]"
  "world demo2 = [(Stdout3_vtable, 102)]"
  unfolding demo2_def by (rule ret_val_Ret, code_simp) code_simp+

lemma demo_reach: "dt_reachable (\<lambda>_. 0) demo1" "dt_reachable (\<lambda>_. 0) demo2"
proof -
  have "insert_pre demo_env demo_entry (dt_init [])"
    using demo_fresh by (simp add: insert_pre_def dt_init_def demo_entry_def)
  then have "dt_step (\<lambda>_. 0, dt_init []) (\<lambda>_. 0, demo1)"
    by (rule step_insert) (simp add: demo1_eq(1))
  moreover have "dt_step (\<lambda>_. 0, demo1) (\<lambda>_. 0, demo2)"
    by (rule step_dup [of demo_env _ 3 DUP_OP_DUP2 1]) (simp_all add: demo1_eq(2) demo2_eq(1) stdio_ready_def)
  ultimately show "dt_reachable (\<lambda>_. 0) demo1" "dt_reachable (\<lambda>_. 0) demo2"
    unfolding dt_reachable_def by (meson r_into_rtranclp rtranclp.rtrancl_into_rtrancl)+
qed

text \<open>C1: in every state that any sequence of table operations can reach (insertions, lookups,
  releases, removals, the four kinds of duplication and clearing, succeeding or failing, with any
  allocator answers) the table is well formed, the reference count of every object is exactly the
  number of descriptors that refer to it plus the number of references held by callers, and
  \<open>live_descriptors\<close> is the number of objects still counted.\<close>

theorem reachable_counts_exact:
  assumes "dt_reachable r s"
  shows "table_inv (global_table s) \<and> (\<forall>p. cnt s p = slots (global_table s) p + r p) \<and>
    live_descriptors s = card {p. 0 < cnt s p}"
  using dt_reachable_inv [OF assms] by (auto simp: dt_inv_def refs_ok_def live_ok_def)

theorem reachable_counts_exact_witness:
  "dt_reachable (\<lambda>_. 0) demo2 \<and> cnt demo2 200 = 2 \<and> slots (global_table demo2) 200 = 2"
proof -
  have "cnt demo2 200 = 2" using demo2_eq(3) by simp
  with reachable_counts_exact [OF demo_reach(2)] demo_reach(2) show ?thesis by simp
qed



text \<open>C6: the array-based table with its allocation hint and its doubling implements a finite
  map in which an allocation takes the lowest free number: every sequence of allocations, lookups
  and removals is served to the end with answers the map allows (or \<open>ENOMEM\<close>, leaving the map
  unchanged), whatever \<open>realloc\<close> answers.\<close>

theorem table_refines_map:
  assumes "table_inv t"
  shows "\<exists>as t'. serve (table_allocate realloc) table_lookup table_remove t qs = Some (as, t') \<and>
    table_inv t' \<and> map_run (fd_map t) qs as (fd_map t')"
  by (rule dt.serve_refines [OF assms])

theorem table_refines_map_witness:
  "table_inv (global_table demo2) \<and>
   (\<exists>as t'. serve (table_allocate (\<lambda>_. False)) table_lookup table_remove (global_table demo2)
       [Req_remove 0, Req_alloc demo_entry, Req_lookup 7] = Some (as, t') \<and> table_inv t' \<and>
     map_run (fd_map (global_table demo2)) [Req_remove 0, Req_alloc demo_entry, Req_lookup 7] as (fd_map t'))"
proof -
  have inv: "table_inv (global_table demo2)"
    using dt_reachable_inv [OF demo_reach(2)] by (simp add: dt_inv_def)
  show ?thesis by (intro conjI inv table_refines_map)
qed

text \<open>C28: inserting a fresh object into an initialised table returns the lowest free descriptor,
  changes the map at that descriptor only and gives the object one reference; when memory is
  short it returns \<open>ENOMEM\<close>, leaves the table and every count as they were and runs the destructor
  of the object once.\<close>

theorem insert_correct:
  assumes "dt_reachable r s" "stdio_initialized s" "cnt s (e_data e) = 0"
  shows "(\<exists>s'. descriptor_table_insert env e s = Ret (LEAST i. fd_map (global_table s) i = None) s' \<and>
      fd_map (global_table s') =
        (fd_map (global_table s))((LEAST i. fd_map (global_table s) i = None) \<mapsto> e) \<and>
      cnt s' = (cnt s)(e_data e := 1) \<and> world s' = world s) \<or>
    (\<exists>s'. descriptor_table_insert env e s = Err ENOMEM s' \<and> global_table s' = global_table s \<and>
      cnt s' = cnt s \<and> world s' = vt_free env (e_vtable e) (e_data e) (world s))"
  using insert_with_holds [OF dt_reachable_inv [OF assms(1)] assms(3,2), of "init_stdio env" env]
  unfolding descriptor_table_insert_def by (cases "insert_with (init_stdio env) env e s") auto

theorem insert_correct_witness:
  "dt_reachable (\<lambda>_. 0) demo1 \<and> stdio_initialized demo1 \<and> cnt demo1 300 = 0 \<and>
   ret_val (descriptor_table_insert demo_env \<lparr>e_data = 300, e_vtable = Pipe_vtable\<rparr> demo1) =
     Some (LEAST i. fd_map (global_table demo1) i = None)"
proof -
  let ?e = "\<lparr>e_data = 300, e_vtable = Pipe_vtable\<rparr>"
  have z: "cnt demo1 300 = 0" using demo1_eq(3) by simp
  have "err_val (descriptor_table_insert demo_env ?e demo1) = None" by code_simp
  with insert_correct [OF demo_reach(1) demo1_eq(2), of ?e demo_env] z demo_reach(1) demo1_eq(2)
  show ?thesis by auto
qed

text \<open>C29: closing a descriptor makes exactly that descriptor free and drops one reference of the
  object it referred to; the destructor of the object runs when that was its last reference of
  any kind and otherwise does not run. Closing a number that is not open is \<open>EBADF\<close> and changes
  nothing.\<close>

theorem remove_correct:
  assumes "dt_reachable r s" "stdio_initialized s"
  shows "case (if fd < 0 then None else fd_map (global_table s) (nat fd)) of
      None \<Rightarrow> descriptor_table_remove env fd s = Err EBADF s
    | Some e \<Rightarrow> \<exists>s'. descriptor_table_remove env fd s = Ret () s' \<and>
        fd_map (global_table s') = (fd_map (global_table s))(nat fd := None) \<and>
        cnt s' = (cnt s)(e_data e := cnt s (e_data e) - 1) \<and>
        world s' = (if slots (global_table s) (e_data e) = 1 \<and> r (e_data e) = 0
          then vt_free env (e_vtable e) (e_data e) (world s) else world s)"
proof -
  have inv: "dt_inv r s" by (rule dt_reachable_inv [OF assms(1)])
  have one: "cnt s (e_data e) = 1 \<longleftrightarrow> slots (global_table s) (e_data e) = 1 \<and> r (e_data e) = 0"
    if "fd_map (global_table s) i = Some e" for i e
    using inv that slots_pos [of "global_table s" "e_data e"] by (fastforce simp: dt_inv_def refs_ok_def)
  show ?thesis
    using remove_holds [OF inv, of env fd] assms(2) one [of "nat fd"]
    by (cases "descriptor_table_remove env fd s") (auto simp: stdio_ready_def split: option.splits)
qed

theorem remove_correct_witness:
  "dt_reachable (\<lambda>_. 0) demo2 \<and> stdio_initialized demo2 \<and>
   descriptor_table_remove demo_env 9 demo2 = Err EBADF demo2 \<and>
   (\<exists>s'. descriptor_table_remove demo_env 2 demo2 = Ret () s' \<and> world s' = [(Stdout3_vtable, 103), (Stdout3_vtable, 102)])"
proof -
  have m: "fd_map (global_table demo2) 9 = None"
    "fd_map (global_table demo2) 2 = Some (stdio_entry demo_env 2 103)"
    "slots (global_table demo2) 103 = 1" "vt_free demo_env Stdout3_vtable 103 [(Stdout3_vtable, 102)] =
      [(Stdout3_vtable, 103), (Stdout3_vtable, 102)]"
    "stdio_vtable_of (version demo_env) 2 = Stdout3_vtable" by code_simp+
  from remove_correct [OF demo_reach(2) demo2_eq(2), where fd = 9 and env = demo_env]
    remove_correct [OF demo_reach(2) demo2_eq(2), where fd = 2 and env = demo_env] demo_reach(2) demo2_eq(2,4) m
  show ?thesis by (auto simp: stdio_entry_def)
qed

text \<open>C30: the four kinds of duplication. On success the new descriptor is the lowest free one
  (\<open>dup\<close>), the requested one (\<open>dup2\<close>, \<open>dup3\<close>) or the lowest free one not below the bound
  (\<open>F_DUPFD\<close>), it refers to the same entry, and no other descriptor changes. An unopened source is
  \<open>EBADF\<close>; any other error is one of those listed for the operation, and then the table and the
  outside world are unchanged.\<close>

theorem dup_correct:
  assumes "dt_reachable r s" "stdio_initialized s"
  shows "case (if fd < 0 then None else fd_map (global_table s) (nat fd)) of
      None \<Rightarrow> err_val (descriptor_table_dup env fd op arg s) = Some EBADF
    | Some e \<Rightarrow>
        (\<exists>n s'. descriptor_table_dup env fd op arg s = Ret n s' \<and>
           dup_spec op fd arg e (fd_map (global_table s)) n (fd_map (global_table s'))) \<or>
        (\<exists>er s'. descriptor_table_dup env fd op arg s = Err er s' \<and> er \<in> dup_errors op fd arg \<and>
           global_table s' = global_table s \<and> world s' = world s)"
  using dup_holds [OF dt_reachable_inv [OF assms(1)], of env fd op arg] assms(2)
  by (cases "descriptor_table_dup env fd op arg s") (auto simp: stdio_ready_def split: option.splits)

theorem dup_correct_witness:
  "dt_reachable (\<lambda>_. 0) demo1 \<and> stdio_initialized demo1 \<and>
   dup_spec DUP_OP_DUP2 3 1 demo_entry (fd_map (global_table demo1)) 1 (fd_map (global_table demo2))"
  using dup_correct [OF demo_reach(1) demo1_eq(2), where fd = 3 and env = demo_env and op = DUP_OP_DUP2 and arg = 1] demo_reach(1)
    demo1_eq(2,4) demo2_eq(1) by simp

text \<open>C35: the first insertion into a table that nothing has used yet first makes descriptors 0, 1
  and 2 the standard ones, in that order, and then returns 3, unless memory runs out.\<close>

theorem first_insert_is_three:
  assumes "insert_pre env e (dt_init w)"
  shows "(\<exists>s'. descriptor_table_insert env e (dt_init w) = Ret 3 s' \<and>
      fd_map (global_table s') = (stdio_map env 3)(3 \<mapsto> e)) \<or>
    err_val (descriptor_table_insert env e (dt_init w)) = Some ENOMEM"
proof -
  have "fd_map (global_table (dt_init w)) = Map.empty" "\<not> stdio_initialized (dt_init w)"
    by (auto simp: dt_init_def fd_map_def)
  with assms insert_holds [OF dt_inv_init, of w e env] show ?thesis
    by (cases "descriptor_table_insert env e (dt_init w)") (auto simp: insert_pre_def)
qed

theorem first_insert_is_three_witness:
  "insert_pre demo_env demo_entry (dt_init []) \<and>
   fd_map (global_table demo1) = (stdio_map demo_env 3)(3 \<mapsto> demo_entry)"
proof -
  have "insert_pre demo_env demo_entry (dt_init [])"
    using demo_fresh by (simp add: insert_pre_def dt_init_def demo_entry_def)
  with first_insert_is_three [OF this] show ?thesis by (simp add: demo1_eq(1))
qed

text \<open>C36: the check at exit of a program that holds no references outside the table closes what
  is still open above descriptor 2 and then passes if and only if the open descriptors among 0, 1
  and 2 are different objects; otherwise it stops the program. So a program that only did
  \<open>dup2(1, 2)\<close> is reported as leaking.\<close>

theorem leak_check_iff:
  assumes "dt_reachable (\<lambda>_. 0) s" "stdio_initialized s"
  shows "if inj_on (\<lambda>i. e_data (the (fd_map (global_table s) i))) {i. i < 3 \<and> fd_map (global_table s) i \<noteq> None}
    then \<exists>s'. wasilibc_assert_no_descriptor_leaks env s = Ret () s' \<and>
      fd_map (global_table s') = fd_map (global_table s) |` {0, 1, 2}
    else wasilibc_assert_no_descriptor_leaks env s = Trap"
  using no_leaks_iff [OF dt_reachable_inv [OF assms(1)] assms(2), of env]
  by (cases "wasilibc_assert_no_descriptor_leaks env s") auto

theorem leak_check_iff_witness:
  "dt_reachable (\<lambda>_. 0) demo_dup12 \<and> stdio_initialized demo_dup12 \<and>
   wasilibc_assert_no_descriptor_leaks demo_env demo_dup12 = Trap \<and>
   (\<exists>s'. wasilibc_assert_no_descriptor_leaks demo_env demo1 = Ret () s')"
proof -
  have eq: "descriptor_table_dup demo_env 1 DUP_OP_DUP2 2 (dt_init []) = Ret 2 demo_dup12"
    unfolding demo_dup12_def by (rule ret_val_Ret) code_simp
  have "stdio_ready demo_env (dt_init [])"
    using demo_fresh by (simp add: stdio_ready_def dt_init_def)
  from step_dup [OF this, of 1 DUP_OP_DUP2 2 demo_dup12 "\<lambda>_. 0"] eq
  have reach: "dt_reachable (\<lambda>_. 0) demo_dup12" by (auto simp: dt_reachable_def)
  have m: "fd_map (global_table demo_dup12) 1 = Some (stdio_entry demo_env 1 102)"
    "fd_map (global_table demo_dup12) 2 = Some (stdio_entry demo_env 1 102)"
    and i: "stdio_initialized demo_dup12" by code_simp+
  then have "\<not> inj_on (\<lambda>i. e_data (the (fd_map (global_table demo_dup12) i)))
      {i. i < 3 \<and> fd_map (global_table demo_dup12) i \<noteq> None}"
    by (auto dest: inj_onD [where x = 1 and y = 2])
  moreover have "inj_on (\<lambda>i. e_data (the (fd_map (global_table demo1) i)))
      {i. i < 3 \<and> fd_map (global_table demo1) i \<noteq> None}"
    using demo1_eq(4) unfolding inj_on_def
    by (auto simp: numeral_3_eq_3 numeral_2_eq_2 less_Suc_eq stdio_entry_def)
  ultimately show ?thesis
    using leak_check_iff [OF reach i, of demo_env] reach i
      leak_check_iff [OF demo_reach(1) demo1_eq(2), of demo_env] by auto
qed

end
