(* ===== verification/Wasi_Errors.thy ===== *)
theory Wasi_Errors
  imports Prelude
begin

text \<open>
  The translation of the error codes of the WASI file system interface to \<open>errno\<close> values:
  \<^verbatim>\<open>cloudlibc/src/common/errors.h\<close>. The result \<open>None\<close> is the call of
  \<open>abort\<close> for a code the interface of that version does not have.
\<close>

datatype (plugins only: code) fs_error = FS_ACCESS | FS_WOULD_BLOCK | FS_ALREADY | FS_BAD_DESCRIPTOR
  | FS_BUSY | FS_DEADLOCK | FS_QUOTA | FS_EXIST | FS_FILE_TOO_LARGE | FS_ILLEGAL_BYTE_SEQUENCE |
  FS_IN_PROGRESS | FS_INTERRUPTED | FS_INVALID | FS_IO | FS_IS_DIRECTORY | FS_LOOP |
  FS_TOO_MANY_LINKS | FS_MESSAGE_SIZE | FS_NAME_TOO_LONG | FS_NO_DEVICE | FS_NO_ENTRY | FS_NO_LOCK |
  FS_INSUFFICIENT_MEMORY | FS_INSUFFICIENT_SPACE | FS_NOT_DIRECTORY | FS_NOT_EMPTY |
  FS_NOT_RECOVERABLE | FS_UNSUPPORTED | FS_NO_TTY | FS_NO_SUCH_DEVICE | FS_OVERFLOW |
  FS_NOT_PERMITTED | FS_PIPE | FS_READ_ONLY | FS_INVALID_SEEK | FS_TEXT_FILE_BUSY | FS_CROSS_DEVICE
  | FS_OTHER

definition translate_error :: "wasi_version \<Rightarrow> fs_error \<Rightarrow> errno option" where
  "translate_error v e =
     (case e of
        FS_ACCESS \<Rightarrow> Some EACCES
      | FS_WOULD_BLOCK \<Rightarrow> (case v of P2 \<Rightarrow> Some EAGAIN | P3 \<Rightarrow> None)
      | FS_ALREADY \<Rightarrow> Some EALREADY
      | FS_BAD_DESCRIPTOR \<Rightarrow> Some EBADF
      | FS_BUSY \<Rightarrow> Some EBUSY
      | FS_DEADLOCK \<Rightarrow> Some EDEADLK
      | FS_QUOTA \<Rightarrow> Some EDQUOT
      | FS_EXIST \<Rightarrow> Some EEXIST
      | FS_FILE_TOO_LARGE \<Rightarrow> Some EFBIG
      | FS_ILLEGAL_BYTE_SEQUENCE \<Rightarrow> Some EILSEQ
      | FS_IN_PROGRESS \<Rightarrow> Some EINPROGRESS
      | FS_INTERRUPTED \<Rightarrow> Some EINTR
      | FS_INVALID \<Rightarrow> Some EINVAL
      | FS_IO \<Rightarrow> Some EIO
      | FS_IS_DIRECTORY \<Rightarrow> Some EISDIR
      | FS_LOOP \<Rightarrow> Some ELOOP
      | FS_TOO_MANY_LINKS \<Rightarrow> Some EMLINK
      | FS_MESSAGE_SIZE \<Rightarrow> Some EMSGSIZE
      | FS_NAME_TOO_LONG \<Rightarrow> Some ENAMETOOLONG
      | FS_NO_DEVICE \<Rightarrow> Some ENODEV
      | FS_NO_ENTRY \<Rightarrow> Some ENOENT
      | FS_NO_LOCK \<Rightarrow> Some ENOLCK
      | FS_INSUFFICIENT_MEMORY \<Rightarrow> Some ENOMEM
      | FS_INSUFFICIENT_SPACE \<Rightarrow> Some ENOSPC
      | FS_NOT_DIRECTORY \<Rightarrow> Some ENOTDIR
      | FS_NOT_EMPTY \<Rightarrow> Some ENOTEMPTY
      | FS_NOT_RECOVERABLE \<Rightarrow> Some ENOTRECOVERABLE
      | FS_UNSUPPORTED \<Rightarrow> Some ENOTSUP
      | FS_NO_TTY \<Rightarrow> Some ENOTTY
      | FS_NO_SUCH_DEVICE \<Rightarrow> Some ENXIO
      | FS_OVERFLOW \<Rightarrow> Some EOVERFLOW
      | FS_NOT_PERMITTED \<Rightarrow> Some EPERM
      | FS_PIPE \<Rightarrow> Some EPIPE
      | FS_READ_ONLY \<Rightarrow> Some EROFS
      | FS_INVALID_SEEK \<Rightarrow> Some ESPIPE
      | FS_TEXT_FILE_BUSY \<Rightarrow> Some ETXTBSY
      | FS_CROSS_DEVICE \<Rightarrow> Some EXDEV
      | FS_OTHER \<Rightarrow> (case v of P2 \<Rightarrow> None | P3 \<Rightarrow> Some EIO))"

end
