(* ===== verification/File.thy ===== *)
theory File
  imports Wasi_Errors
begin

text \<open>
  Open files of the WASIp2 build: \<^verbatim>\<open>libc-bottom-half/sources/file.c\<close>, the stream reads and
  writes of \<^verbatim>\<open>sources/file_utils.c\<close> and
  \<^verbatim>\<open>headers/private/wasi/file_utils.h\<close>. The functions of the host
  (\<open>wasi:filesystem\<close>, \<open>wasi:io\<close>) are the fields of a record that every operation takes;
  they act on a host state of an arbitrary type. A handle of 0 stands for no handle, as in the
  code. Pointers into the file that are handed to the stream functions (\<open>offset\<close>,
  \<open>pollable\<close>) are passed by value and written back.
\<close>

section \<open>Data\<close>

type_synonym handle = nat
type_synonym off = "64 word"
type_synonym byte = "8 word"

abbreviation (input) O_APPEND :: "32 word" where "O_APPEND \<equiv> 0x0001"
abbreviation (input) O_DSYNC :: "32 word" where "O_DSYNC \<equiv> 0x0002"
abbreviation (input) O_NONBLOCK :: "32 word" where "O_NONBLOCK \<equiv> 0x0004"
abbreviation (input) O_RSYNC :: "32 word" where "O_RSYNC \<equiv> 0x0008"
abbreviation (input) O_SYNC :: "32 word" where "O_SYNC \<equiv> 0x0010"
abbreviation (input) O_CREAT :: "32 word" where "O_CREAT \<equiv> 0x1000"
abbreviation (input) O_DIRECTORY :: "32 word" where "O_DIRECTORY \<equiv> 0x2000"
abbreviation (input) O_EXCL :: "32 word" where "O_EXCL \<equiv> 0x4000"
abbreviation (input) O_TRUNC :: "32 word" where "O_TRUNC \<equiv> 0x8000"
abbreviation (input) O_NOFOLLOW :: "32 word" where "O_NOFOLLOW \<equiv> 0x01000000"
abbreviation (input) O_EXEC :: "32 word" where "O_EXEC \<equiv> 0x02000000"
abbreviation (input) O_RDONLY :: "32 word" where "O_RDONLY \<equiv> 0x04000000"
abbreviation (input) O_SEARCH :: "32 word" where "O_SEARCH \<equiv> 0x08000000"
abbreviation (input) O_WRONLY :: "32 word" where "O_WRONLY \<equiv> 0x10000000"
abbreviation (input) O_RDWR :: "32 word" where "O_RDWR \<equiv> 0x14000000"
abbreviation (input) O_ACCMODE :: "32 word" where "O_ACCMODE \<equiv> 0x1E000000"

text \<open>\<open>filesystem_descriptor_flags_t\<close>\<close>

abbreviation (input) FLAGS_READ :: "8 word" where "FLAGS_READ \<equiv> 1"
abbreviation (input) FLAGS_WRITE :: "8 word" where "FLAGS_WRITE \<equiv> 2"

datatype whence = SEEK_SET | SEEK_CUR | SEEK_END | Seek_other int

datatype stream_error = Stream_closed | Stream_last_operation_failed handle

record file_t =
  file_handle :: handle
  offset :: off
  oflag :: "32 word"
  read_stream :: handle
  write_stream :: handle
  read_pollable :: handle
  write_pollable :: handle

record wasi_read_t =
  r_offset :: "off option"
  r_blocking :: bool
  r_timeout :: "64 word"
  r_input :: handle
  r_pollable :: handle

record wasi_write_t =
  w_offset :: "off option"
  w_blocking :: bool
  w_timeout :: "64 word"
  w_output :: handle
  w_pollable :: handle

record 'h fs_host =
  read_via_stream :: "handle \<Rightarrow> off \<Rightarrow> 'h \<Rightarrow> (fs_error + handle) \<times> 'h"
  write_via_stream :: "handle \<Rightarrow> off \<Rightarrow> 'h \<Rightarrow> (fs_error + handle) \<times> 'h"
  append_via_stream :: "handle \<Rightarrow> 'h \<Rightarrow> (fs_error + handle) \<times> 'h"
  stat_size :: "handle \<Rightarrow> 'h \<Rightarrow> (fs_error + 64 word) \<times> 'h"
  get_flags :: "handle \<Rightarrow> 'h \<Rightarrow> (fs_error + 8 word) \<times> 'h"
  drop_descriptor :: "handle \<Rightarrow> 'h \<Rightarrow> 'h"
  drop_stream :: "handle \<Rightarrow> 'h \<Rightarrow> 'h"
  drop_pollable :: "handle \<Rightarrow> 'h \<Rightarrow> 'h"
  input_read :: "handle \<Rightarrow> nat \<Rightarrow> 'h \<Rightarrow> (stream_error + byte list) \<times> 'h"
  output_check_write :: "handle \<Rightarrow> 'h \<Rightarrow> (stream_error + nat) \<times> 'h"
  output_write :: "handle \<Rightarrow> byte list \<Rightarrow> 'h \<Rightarrow> (stream_error + unit) \<times> 'h"
  output_blocking_flush :: "handle \<Rightarrow> 'h \<Rightarrow> (stream_error + unit) \<times> 'h"
  subscribe :: "handle \<Rightarrow> 'h \<Rightarrow> handle \<times> 'h"
  pollable_block :: "handle \<Rightarrow> 'h \<Rightarrow> 'h"
  subscribe_duration :: "64 word \<Rightarrow> 'h \<Rightarrow> handle \<times> 'h"
  poll_poll :: "handle list \<Rightarrow> 'h \<Rightarrow> nat list \<times> 'h"
  error_code :: "handle \<Rightarrow> 'h \<Rightarrow> fs_error option"
  drop_error :: "handle \<Rightarrow> 'h \<Rightarrow> 'h"

section \<open>Errors of the host\<close>

text \<open>\<open>translate_error(&error_code); return -1;\<close>\<close>

definition fs_fail :: "fs_error \<Rightarrow> 's \<Rightarrow> ('a, 's) outcome" where
  "fs_fail e s = (case translate_error P2 e of None \<Rightarrow> Trap | Some n \<Rightarrow> Err n s)"

definition set_stream_errno :: "'h fs_host \<Rightarrow> handle \<Rightarrow> 'h \<Rightarrow> ('a, 'h) outcome" where
  "set_stream_errno H er h =
     (case error_code H er h of
        None \<Rightarrow> Err EIO (drop_error H er h)
      | Some code \<Rightarrow> fs_fail code (drop_error H er h))"

definition handle_read_error :: "'h fs_host \<Rightarrow> stream_error \<Rightarrow> 'h \<Rightarrow> (byte list, 'h) outcome" where
  "handle_read_error H e h =
     (case e of Stream_closed \<Rightarrow> Ret [] h
      | Stream_last_operation_failed er \<Rightarrow> set_stream_errno H er h)"

definition handle_write_error :: "'h fs_host \<Rightarrow> stream_error \<Rightarrow> 'h \<Rightarrow> (nat, 'h) outcome" where
  "handle_write_error H e h =
     (case e of Stream_closed \<Rightarrow> Err EPIPE h
      | Stream_last_operation_failed er \<Rightarrow> set_stream_errno H er h)"

section \<open>Reading and writing a stream\<close>

definition pollable_block_on :: "'h fs_host \<Rightarrow> handle \<Rightarrow> 64 word \<Rightarrow> 'h \<Rightarrow> (unit, 'h) outcome" where
  "pollable_block_on H pollable timeout h =
     (if timeout = 0 then Ret () (pollable_block H pollable h)
      else let (timeout_pollable, h) = subscribe_duration H timeout h;
               (ret, h) = poll_poll H [pollable, timeout_pollable] h;
               h = drop_pollable H timeout_pollable h in
        if 0 \<in> set ret then Ret () h else Err EWOULDBLOCK h)"

text \<open>The loop of \<open>__wasilibc_read_without_offset_update\<close>: \<open>None\<close> when it goes on forever.\<close>

partial_function (option) read_loop ::
    "'h fs_host \<Rightarrow> nat \<Rightarrow> wasi_read_t \<Rightarrow> 'h \<Rightarrow> (byte list, wasi_read_t \<times> 'h) outcome option" where
  "read_loop H nbyte read h =
     (case input_read H (r_input read) nbyte h of
        (Inl error, h) \<Rightarrow> Some (lift_part (Pair read) (handle_read_error H error h))
      | (Inr result, h) \<Rightarrow>
          if nbyte = 0 then Some (Ret [] (read, h))
          else if result \<noteq> [] then Some (Ret result (read, h))
          else if \<not> r_blocking read then Some (Err EWOULDBLOCK (read, h))
          else let (p, h) = (if r_pollable read = 0 then subscribe H (r_input read) h
                             else (r_pollable read, h));
                   read = read\<lparr>r_pollable := p\<rparr> in
            (case pollable_block_on H p (r_timeout read) h of
               Ret _ h \<Rightarrow> read_loop H nbyte read h
             | Err e h \<Rightarrow> Some (Err e (read, h))
             | Trap \<Rightarrow> Some Trap
             | Diverge \<Rightarrow> None))"

declare read_loop.simps [code]

definition wasilibc_read :: "'h fs_host \<Rightarrow> nat \<Rightarrow> wasi_read_t \<Rightarrow> 'h \<Rightarrow> (byte list, wasi_read_t \<times> 'h) outcome" where
  "wasilibc_read H nbyte read h =
     (case read_loop H nbyte read h of
        None \<Rightarrow> Diverge
      | Some x \<Rightarrow> bindO x (\<lambda>result (read, h).
          Ret result (read\<lparr>r_offset := map_option (\<lambda>pos. pos + of_nat (length result)) (r_offset read)\<rparr>, h)))"

partial_function (option) write_loop ::
    "'h fs_host \<Rightarrow> byte list \<Rightarrow> wasi_write_t \<Rightarrow> 'h \<Rightarrow> (nat, wasi_write_t \<times> 'h) outcome option" where
  "write_loop H buffer write h =
     (case output_check_write H (w_output write) h of
        (Inl error, h) \<Rightarrow> Some (lift_part (Pair write) (handle_write_error H error h))
      | (Inr count, h) \<Rightarrow>
          if count \<noteq> 0 then
            let count = min count (length buffer) in
            (case output_write H (w_output write) (take count buffer) h of
               (Inl error, h) \<Rightarrow> Some (lift_part (Pair write) (handle_write_error H error h))
             | (Inr _, h) \<Rightarrow>
                 if w_blocking write then
                   (case output_blocking_flush H (w_output write) h of
                      (Inl error, h) \<Rightarrow> Some (lift_part (Pair write) (handle_write_error H error h))
                    | (Inr _, h) \<Rightarrow> Some (Ret count (write, h)))
                 else Some (Ret count (write, h)))
          else if \<not> w_blocking write then Some (Err EWOULDBLOCK (write, h))
          else let (p, h) = (if w_pollable write = 0 then subscribe H (w_output write) h
                             else (w_pollable write, h));
                   write = write\<lparr>w_pollable := p\<rparr> in
            (case pollable_block_on H p (w_timeout write) h of
               Ret _ h \<Rightarrow> write_loop H buffer write h
             | Err e h \<Rightarrow> Some (Err e (write, h))
             | Trap \<Rightarrow> Some Trap
             | Diverge \<Rightarrow> None))"

declare write_loop.simps [code]

definition wasilibc_write :: "'h fs_host \<Rightarrow> byte list \<Rightarrow> wasi_write_t \<Rightarrow> 'h \<Rightarrow> (nat, wasi_write_t \<times> 'h) outcome" where
  "wasilibc_write H buffer write h =
     assertO (w_output write \<noteq> 0)
       (case write_loop H buffer write h of
          None \<Rightarrow> Diverge
        | Some x \<Rightarrow> bindO x (\<lambda>result (write, h).
            Ret result (write\<lparr>w_offset := map_option (\<lambda>pos. pos + of_nat result) (w_offset write)\<rparr>, h)))"

section \<open>Files\<close>

text \<open>An operation on a file acts on the file and the host.\<close>

type_synonym ('a, 'h) file_op = "file_t \<times> 'h \<Rightarrow> ('a, file_t \<times> 'h) outcome"

definition file_close_streams :: "'h fs_host \<Rightarrow> file_t \<Rightarrow> 'h \<Rightarrow> file_t \<times> 'h" where
  "file_close_streams H file h =
     (let h = (if read_pollable file \<noteq> 0 then drop_pollable H (read_pollable file) h else h);
          h = (if write_pollable file \<noteq> 0 then drop_pollable H (write_pollable file) h else h);
          h = (if read_stream file \<noteq> 0 then drop_stream H (read_stream file) h else h);
          h = (if write_stream file \<noteq> 0 then drop_stream H (write_stream file) h else h) in
      (file\<lparr>read_pollable := 0, write_pollable := 0, read_stream := 0, write_stream := 0\<rparr>, h))"

definition file_free :: "'h fs_host \<Rightarrow> file_t \<Rightarrow> 'h \<Rightarrow> 'h" where
  "file_free H file h =
     (let (file, h) = file_close_streams H file h in drop_descriptor H (file_handle file) h)"

definition file_get_read_stream :: "'h fs_host \<Rightarrow> (wasi_read_t, 'h) file_op" where
  "file_get_read_stream H = (\<lambda>(file, h).
     bindO (if read_stream file = 0 then
              (case read_via_stream H (file_handle file) (offset file) h of
                 (Inl e, h) \<Rightarrow> fs_fail e (file, h)
               | (Inr stream, h) \<Rightarrow> Ret () (file\<lparr>read_stream := stream\<rparr>, h))
            else Ret () (file, h))
       (\<lambda>_ (file, h). Ret \<lparr>r_offset = Some (offset file), r_blocking = True, r_timeout = 0,
            r_input = read_stream file, r_pollable = read_pollable file\<rparr> (file, h)))"

definition file_get_write_stream :: "'h fs_host \<Rightarrow> (wasi_write_t, 'h) file_op" where
  "file_get_write_stream H = (\<lambda>(file, h).
     bindO (if write_stream file = 0 then
              (case (if oflag file AND O_APPEND \<noteq> 0 then append_via_stream H (file_handle file) h
                     else write_via_stream H (file_handle file) (offset file) h) of
                 (Inl e, h) \<Rightarrow> fs_fail e (file, h)
               | (Inr stream, h) \<Rightarrow> Ret () (file\<lparr>write_stream := stream\<rparr>, h))
            else Ret () (file, h))
       (\<lambda>_ (file, h). Ret \<lparr>w_offset = Some (offset file), w_blocking = True, w_timeout = 0,
            w_output = write_stream file, w_pollable = write_pollable file\<rparr> (file, h)))"

text \<open>\<open>read\<close> and \<open>write\<close> on a file: the pointees of the stream record are written back.\<close>

definition file_read :: "'h fs_host \<Rightarrow> nat \<Rightarrow> (byte list, 'h) file_op" where
  "file_read H nbyte s =
     bindO (file_get_read_stream H s)
       (\<lambda>read (file, h).
          lift_part (\<lambda>(read, h). (file\<lparr>offset := the (r_offset read), read_pollable := r_pollable read\<rparr>, h))
            (wasilibc_read H nbyte read h))"

definition file_write :: "'h fs_host \<Rightarrow> byte list \<Rightarrow> (nat, 'h) file_op" where
  "file_write H buf s =
     bindO (file_get_write_stream H s)
       (\<lambda>write (file, h).
          lift_part (\<lambda>(write, h). (file\<lparr>offset := the (w_offset write), write_pollable := w_pollable write\<rparr>, h))
            (wasilibc_write H buf write h))"

definition file_seek_end :: "'h fs_host \<Rightarrow> (unit, 'h) file_op" where
  "file_seek_end H = (\<lambda>(file, h).
     case stat_size H (file_handle file) h of
       (Inl e, h) \<Rightarrow> fs_fail e (file, h)
     | (Inr st_size, h) \<Rightarrow> Ret () (file\<lparr>offset := st_size\<rparr>, h))"

text \<open>\<open>off_t\<close> is signed: the comparison with 0 reads the word as a signed number.\<close>

definition file_seek :: "'h fs_host \<Rightarrow> off \<Rightarrow> whence \<Rightarrow> (off, 'h) file_op" where
  "file_seek H off whence s =
     bindO (if oflag (fst s) AND O_APPEND \<noteq> 0 then file_seek_end H s else Ret () s)
       (\<lambda>_ s. bindO
          (case whence of
             SEEK_SET \<Rightarrow> Ret off s
           | SEEK_CUR \<Rightarrow> Ret (offset (fst s) + off) s
           | SEEK_END \<Rightarrow>
               bindO (if oflag (fst s) AND O_APPEND = 0 then file_seek_end H s else Ret () s)
                 (\<lambda>_ s. Ret (offset (fst s) + off) s)
           | Seek_other _ \<Rightarrow> Err EINVAL s)
          (\<lambda>result (file, h).
             if sint result < 0 then Err EINVAL (file, h)
             else if result \<noteq> offset file then
               let (file, h) = file_close_streams H file h;
                   file = file\<lparr>offset := result\<rparr> in Ret (offset file) (file, h)
             else Ret (offset file) (file, h)))"

definition file_set_blocking :: "bool \<Rightarrow> file_t \<Rightarrow> file_t" where
  "file_set_blocking blocking file =
     (if blocking then file\<lparr>oflag := oflag file AND NOT O_NONBLOCK\<rparr>
      else file\<lparr>oflag := oflag file OR O_NONBLOCK\<rparr>)"

definition file_fcntl_getfl :: "'h fs_host \<Rightarrow> (32 word, 'h) file_op" where
  "file_fcntl_getfl H = (\<lambda>(file, h).
     case get_flags H (file_handle file) h of
       (Inl e, h) \<Rightarrow> fs_fail e (file, h)
     | (Inr flags, h) \<Rightarrow>
         let oflags = oflag file AND (O_NONBLOCK OR O_APPEND) in
         Ret (oflags OR
                (if flags AND FLAGS_READ \<noteq> 0 then
                   if flags AND FLAGS_WRITE \<noteq> 0 then O_RDWR else O_RDONLY
                 else if flags AND FLAGS_WRITE \<noteq> 0 then O_WRONLY
                 else O_SEARCH)) (file, h))"

definition file_fcntl_setfl :: "32 word \<Rightarrow> file_t \<Rightarrow> file_t" where
  "file_fcntl_setfl flags file =
     (let flags = flags AND (O_NONBLOCK OR O_APPEND) in
      file\<lparr>oflag := (oflag file AND NOT (O_NONBLOCK OR O_APPEND)) OR flags\<rparr>)"

section \<open>What the host promises\<close>

text \<open>
  The documented behaviour of the streams of \<open>wasi:filesystem\<close> that reading relies on, for a
  host whose state determines the contents of every open descriptor and the position of every
  open input stream: a stream starts at the requested offset; a read returns bytes from its
  position, at most as many as asked for, and moves the position; it reports \<open>closed\<close> only at
  the end of the contents; reading, closing streams and asking for the size change no contents.
  The streams of files do not keep the reader waiting: a read of a positive number of bytes
  returns some.
\<close>

definition host_err_ok :: "fs_error \<Rightarrow> bool" where
  "host_err_ok e \<longleftrightarrow> translate_error P2 e \<noteq> None"

definition stream_err_ok :: "'h fs_host \<Rightarrow> stream_error \<Rightarrow> 'h \<Rightarrow> bool" where
  "stream_err_ok H e h \<longleftrightarrow> (case e of Stream_closed \<Rightarrow> True
     | Stream_last_operation_failed er \<Rightarrow>
         (case error_code H er h of None \<Rightarrow> True | Some c \<Rightarrow> host_err_ok c))"

definition opens_streams :: "'h fs_host \<Rightarrow> ('h \<Rightarrow> handle \<Rightarrow> byte list) \<Rightarrow>
    ('h \<Rightarrow> handle \<Rightarrow> (handle \<times> nat) option) \<Rightarrow> bool" where
  "opens_streams H content pos \<longleftrightarrow> (\<forall>d o1 h.
     case read_via_stream H d o1 h of
       (Inl e, h') \<Rightarrow> host_err_ok e \<and> content h' = content h \<and> pos h' = pos h
     | (Inr st, h') \<Rightarrow> st \<noteq> 0 \<and> content h' = content h \<and> pos h' = (pos h)(st \<mapsto> (d, unat o1)))"

definition reads_streams :: "'h fs_host \<Rightarrow> ('h \<Rightarrow> handle \<Rightarrow> byte list) \<Rightarrow>
    ('h \<Rightarrow> handle \<Rightarrow> (handle \<times> nat) option) \<Rightarrow> bool" where
  "reads_streams H content pos \<longleftrightarrow> (\<forall>st n h d p. pos h st = Some (d, p) \<longrightarrow>
     (case input_read H st n h of
        (Inl e, h') \<Rightarrow> stream_err_ok H e h' \<and> (e = Stream_closed \<longrightarrow> length (content h d) \<le> p) \<and>
          content h' = content h \<and> pos h' = pos h
      | (Inr bs, h') \<Rightarrow> bs = take (length bs) (drop p (content h d)) \<and> length bs \<le> n \<and>
          (0 < n \<longrightarrow> bs \<noteq> []) \<and> content h' = content h \<and> pos h' = (pos h)(st \<mapsto> (d, p + length bs))))"

definition closes_streams :: "'h fs_host \<Rightarrow> ('h \<Rightarrow> handle \<Rightarrow> byte list) \<Rightarrow> bool" where
  "closes_streams H content \<longleftrightarrow> (\<forall>x h. content (drop_stream H x h) = content h \<and>
     content (drop_pollable H x h) = content h \<and> content (drop_error H x h) = content h)"

definition errors_keep :: "'h fs_host \<Rightarrow> ('h \<Rightarrow> handle \<Rightarrow> (handle \<times> nat) option) \<Rightarrow> bool" where
  "errors_keep H pos \<longleftrightarrow> (\<forall>x h. pos (drop_error H x h) = pos h)"

definition file_host :: "'h fs_host \<Rightarrow> ('h \<Rightarrow> handle \<Rightarrow> byte list) \<Rightarrow>
    ('h \<Rightarrow> handle \<Rightarrow> (handle \<times> nat) option) \<Rightarrow> bool" where
  "file_host H content pos \<longleftrightarrow> opens_streams H content pos \<and> reads_streams H content pos \<and>
     closes_streams H content \<and> errors_keep H pos"

section \<open>The cursor a file stands for\<close>

datatype file_req = F_read nat | F_seek off whence | F_setfl "32 word" | F_set_blocking bool

datatype file_ans = A_bytes "byte list" | A_off off | A_errno errno | A_done

definition file_serve1 :: "'h fs_host \<Rightarrow> file_req \<Rightarrow> file_t \<times> 'h \<Rightarrow> (file_ans, file_t \<times> 'h) outcome" where
  "file_serve1 H q s =
     on_err (case q of
         F_read n \<Rightarrow> bindO (file_read H n s) (\<lambda>bs s. Ret (A_bytes bs) s)
       | F_seek off whence \<Rightarrow> bindO (file_seek H off whence s) (\<lambda>n s. Ret (A_off n) s)
       | F_setfl flags \<Rightarrow> Ret A_done (file_fcntl_setfl flags (fst s), snd s)
       | F_set_blocking b \<Rightarrow> Ret A_done (file_set_blocking b (fst s), snd s))
     (\<lambda>e s. Ret (A_errno e) s)"

primrec file_serve :: "'h fs_host \<Rightarrow> file_req list \<Rightarrow> file_t \<times> 'h \<Rightarrow> (file_ans list, file_t \<times> 'h) outcome" where
  "file_serve H [] s = Ret [] s"
| "file_serve H (q # qs) s = bindO (file_serve1 H q s) (\<lambda>a s. bindO (file_serve H qs s) (\<lambda>as s. Ret (a # as) s))"

text \<open>The answers of a cursor over the contents \<open>c\<close>.\<close>

fun cursor_step :: "byte list \<Rightarrow> off \<Rightarrow> file_req \<Rightarrow> file_ans \<Rightarrow> off \<Rightarrow> bool" where
  "cursor_step c cur (F_read n) a cur' \<longleftrightarrow>
     (\<exists>k \<le> n. a = A_bytes (take k (drop (unat cur) c)) \<and> unat cur + k \<le> max (unat cur) (length c) \<and>
        (k = 0 \<longrightarrow> n = 0 \<or> length c \<le> unat cur) \<and> cur' = cur + of_nat k) \<or>
     (\<exists>e. a = A_errno e \<and> cur' = cur)"
| "cursor_step c cur (F_seek off whence) a cur' \<longleftrightarrow>
     (let target = (case whence of SEEK_SET \<Rightarrow> Some off | SEEK_CUR \<Rightarrow> Some (cur + off) | _ \<Rightarrow> None) in
      case target of
        None \<Rightarrow> a = A_errno EINVAL \<and> cur' = cur
      | Some t \<Rightarrow> if sint t < 0 then a = A_errno EINVAL \<and> cur' = cur else a = A_off t \<and> cur' = t)"
| "cursor_step c cur (F_setfl flags) a cur' \<longleftrightarrow> a = A_done \<and> cur' = cur"
| "cursor_step c cur (F_set_blocking b) a cur' \<longleftrightarrow> a = A_done \<and> cur' = cur"

fun cursor_run :: "byte list \<Rightarrow> off \<Rightarrow> file_req list \<Rightarrow> file_ans list \<Rightarrow> off \<Rightarrow> bool" where
  "cursor_run c cur [] as cur' \<longleftrightarrow> as = [] \<and> cur' = cur"
| "cursor_run c cur (q # qs) as cur' \<longleftrightarrow>
     (\<exists>a as' cur1. as = a # as' \<and> cursor_step c cur q a cur1 \<and> cursor_run c cur1 qs as' cur')"

text \<open>Requests that keep the position of the open stream and the cursor together.\<close>

fun plain_req :: "file_req \<Rightarrow> bool" where
  "plain_req (F_read n) = True"
| "plain_req (F_seek off whence) = (whence \<noteq> SEEK_END)"
| "plain_req (F_setfl flags) = (flags AND O_APPEND = 0)"
| "plain_req (F_set_blocking b) = True"

definition file_ok :: "('h \<Rightarrow> handle \<Rightarrow> (handle \<times> nat) option) \<Rightarrow> file_t \<times> 'h \<Rightarrow> bool" where
  "file_ok pos = (\<lambda>(file, h). oflag file AND O_APPEND = 0 \<and>
     (read_stream file = 0 \<or> pos h (read_stream file) = Some (file_handle file, unat (offset file))))"

section \<open>Lemmas\<close>

lemma fs_fail_ok: "host_err_ok e \<Longrightarrow> holds (fs_fail e s) P Q \<longleftrightarrow> (\<forall>n. translate_error P2 e = Some n \<longrightarrow> Q n s)"
  by (auto simp: fs_fail_def host_err_ok_def)

lemma fs_fail_bind [simp]: "bindO (fs_fail e s) k = fs_fail e s"
  by (simp add: fs_fail_def split: option.splits)

lemma opens_streamsD:
  "opens_streams H content pos \<Longrightarrow>
     case read_via_stream H d o1 h of
       (Inl e, h') \<Rightarrow> host_err_ok e \<and> content h' = content h \<and> pos h' = pos h
     | (Inr st, h') \<Rightarrow> st \<noteq> 0 \<and> content h' = content h \<and> pos h' = (pos h)(st \<mapsto> (d, unat o1))"
  unfolding opens_streams_def by (elim allE)

lemma reads_streamsD:
  "reads_streams H content pos \<Longrightarrow> pos h st = Some (d, p) \<Longrightarrow>
     case input_read H st n h of
        (Inl e, h') \<Rightarrow> stream_err_ok H e h' \<and> (e = Stream_closed \<longrightarrow> length (content h d) \<le> p) \<and>
          content h' = content h \<and> pos h' = pos h
      | (Inr bs, h') \<Rightarrow> bs = take (length bs) (drop p (content h d)) \<and> length bs \<le> n \<and>
          (0 < n \<longrightarrow> bs \<noteq> []) \<and> content h' = content h \<and> pos h' = (pos h)(st \<mapsto> (d, p + length bs))"
  unfolding reads_streams_def by (elim allE impE)

lemma get_read_stream_holds:
  assumes "file_host H content pos" "file_ok pos (file, h)"
  shows "holds (file_get_read_stream H (file, h))
    (\<lambda>read (file', h'). (\<exists>st p. file' = file\<lparr>read_stream := st\<rparr> \<and> st \<noteq> 0 \<and>
       read = \<lparr>r_offset = Some (offset file), r_blocking = True, r_timeout = 0, r_input = st, r_pollable = p\<rparr> \<and>
       p = read_pollable file \<and> content h' = content h \<and>
       pos h' st = Some (file_handle file, unat (offset file))))
    (\<lambda>_ (file', h'). file' = file \<and> content h' = content h \<and> file_ok pos (file', h'))"
proof (cases "read_stream file = 0")
  case True
  obtain x h' where eq: "read_via_stream H (file_handle file) (offset file) h = (x, h')" by fastforce
  from assms(1) have "opens_streams H content pos" by (simp add: file_host_def)
  from opens_streamsD [OF this, where d = "file_handle file" and ?o1.0 = "offset file" and h = h]
    eq True assms(2) show ?thesis
    by (cases x) (auto simp: file_get_read_stream_def fs_fail_ok file_ok_def)
next
  case False
  with assms(2) show ?thesis by (simp add: file_get_read_stream_def file_ok_def)
qed

lemma read_loop_holds:
  assumes "file_host H content pos" "pos h (r_input read) = Some (d, p)"
  shows "\<exists>x. read_loop H n read h = Some x \<and> holds x
    (\<lambda>bs (read', h'). read' = read \<and> bs = take (length bs) (drop p (content h d)) \<and> length bs \<le> n \<and>
       (bs = [] \<longrightarrow> n = 0 \<or> length (content h d) \<le> p) \<and> content h' = content h \<and>
       pos h' = (pos h)(r_input read \<mapsto> (d, p + length bs)))
    (\<lambda>_ (read', h'). read' = read \<and> content h' = content h \<and> pos h' = pos h)"
proof -
  obtain x h' where eq: "input_read H (r_input read) n h = (x, h')" by fastforce
  from assms(1) have "reads_streams H content pos" by (simp add: file_host_def)
  note * = reads_streamsD [OF this assms(2), of n]
  have keep: "content (drop_error H er h) = content h" "pos (drop_error H er h) = pos h" for er h
    using assms(1) by (simp_all add: file_host_def closes_streams_def errors_keep_def)
  show ?thesis
  proof (cases x)
    case (Inl e)
    have "holds (lift_part (Pair read) (handle_read_error H e h'))
      (\<lambda>bs (read', h''). read' = read \<and> bs = [] \<and> e = Stream_closed \<and> h'' = h')
      (\<lambda>_ (read', h''). read' = read \<and> content h'' = content h' \<and> pos h'' = pos h')"
      using * eq Inl keep
      by (cases e) (auto simp: holds_lift_part handle_read_error_def set_stream_errno_def stream_err_ok_def
          fs_fail_ok split: option.splits)
    moreover have "read_loop H n read h = Some (lift_part (Pair read) (handle_read_error H e h'))"
      by (subst read_loop.simps) (simp add: eq Inl)
    ultimately show ?thesis
      using * eq Inl assms(2) by (auto elim!: holds_mono simp: fun_upd_idem)
  next
    case (Inr bs)
    with * eq show ?thesis by (subst read_loop.simps) (auto simp: fun_upd_idem)
  qed
qed

lemma file_read_holds:
  assumes "file_host H content pos" "file_ok pos (file, h)"
    "length (content h (file_handle file)) < 2 ^ 63"
  shows "holds (file_read H n (file, h))
    (\<lambda>bs (file', h'). file_ok pos (file', h') \<and> content h' = content h \<and> file_handle file' = file_handle file \<and>
       cursor_step (content h (file_handle file)) (offset file) (F_read n) (A_bytes bs) (offset file'))
    (\<lambda>_ (file', h'). file_ok pos (file', h') \<and> content h' = content h \<and>
       file_handle file' = file_handle file \<and> offset file' = offset file)"
  unfolding file_read_def
proof (rule holds_bind [OF get_read_stream_holds [OF assms(1,2)]], goal_cases)
  case (1 read s1)
  obtain file1 h1 where s1: "s1 = (file1, h1)" by fastforce
  from 1 s1 obtain st where r: "file1 = file\<lparr>read_stream := st\<rparr>" "st \<noteq> 0"
    "read = \<lparr>r_offset = Some (offset file), r_blocking = True, r_timeout = 0, r_input = st,
       r_pollable = read_pollable file\<rparr>" "content h1 = content h"
    "pos h1 st = Some (file_handle file, unat (offset file))" by auto
  let ?c = "content h (file_handle file)" and ?p = "unat (offset file)"
  from read_loop_holds [OF assms(1), of h1 read "file_handle file" ?p n] r
  obtain x where x: "read_loop H n read h1 = Some x" "holds x
    (\<lambda>bs (read', h'). read' = read \<and> bs = take (length bs) (drop ?p ?c) \<and> length bs \<le> n \<and>
       (bs = [] \<longrightarrow> n = 0 \<or> length ?c \<le> ?p) \<and> content h' = content h \<and>
       pos h' = (pos h1)(st \<mapsto> (file_handle file, ?p + length bs)))
    (\<lambda>_ (read', h'). read' = read \<and> content h' = content h \<and> pos h' = pos h1)" by auto
  have app: "oflag file AND O_APPEND = 0" using assms(2) by (simp add: file_ok_def)
  have adv: "unat (offset file + of_nat (length bs)) = ?p + length bs \<and> ?p + length bs \<le> max ?p (length ?c)"
    if "bs = take (length bs) (drop ?p ?c)" for bs :: "byte list"
  proof -
    have "length bs = min (length bs) (length ?c - ?p)"
      using arg_cong [OF that, of length] by simp
    then have le: "?p + length bs \<le> max ?p (length ?c)" by auto
    also have "\<dots> < 2 ^ 64" using assms(3) unat_bound [of "offset file"] by auto
    finally have "unat (offset file + of_nat (length bs)) = ?p + length bs"
      by (intro unat_add_of_nat) simp
    with le show ?thesis by simp
  qed
  show ?case
    unfolding s1 prod.case wasilibc_read_def x(1) option.case holds_lift_part
  proof (rule holds_bind [OF x(2)], goal_cases)
    case (1 bs rh)
    obtain read' h' where rh: "rh = (read', h')" by fastforce
    with 1 have b: "read' = read" "bs = take (length bs) (drop ?p ?c)" "length bs \<le> n"
      "bs = [] \<longrightarrow> n = 0 \<or> length ?c \<le> ?p" "content h' = content h"
      "pos h' = (pos h1)(st \<mapsto> (file_handle file, ?p + length bs))" by auto
    have "cursor_step ?c (offset file) (F_read n) (A_bytes bs) (offset file + of_nat (length bs))"
      using b(2-4) adv [OF b(2)] by (auto intro!: exI [of _ "length bs"])
    with b app adv [OF b(2)] show ?case by (simp add: rh r file_ok_def)
  next
    case (2 e rh)
    with r app show ?case by (auto simp: file_ok_def)
  qed
qed auto

lemma file_seek_holds:
  assumes "file_host H content pos" "file_ok pos (file, h)" "whence \<noteq> SEEK_END"
  shows "holds (file_seek H off whence (file, h))
    (\<lambda>n (file', h'). file_ok pos (file', h') \<and> content h' = content h \<and> file_handle file' = file_handle file \<and>
       cursor_step c (offset file) (F_seek off whence) (A_off n) (offset file'))
    (\<lambda>e (file', h'). file_ok pos (file', h') \<and> content h' = content h \<and> file_handle file' = file_handle file \<and>
       cursor_step c (offset file) (F_seek off whence) (A_errno e) (offset file'))"
proof -
  have app: "oflag file AND O_APPEND = 0" using assms(2) by (simp add: file_ok_def)
  have keep: "content (drop_stream H x h) = content h" "content (drop_pollable H x h) = content h" for x h
    using assms(1) by (simp_all add: file_host_def closes_streams_def)
  have close: "case file_close_streams H file h of (file', h') \<Rightarrow> content h' = content h \<and>
      file_ok pos (file'\<lparr>offset := n\<rparr>, h') \<and> file_handle file' = file_handle file" for n
    using app by (simp add: file_close_streams_def Let_def keep file_ok_def)
  show ?thesis
    using assms(2,3) app close
    by (cases whence) (auto simp: file_seek_def split: prod.splits)
qed

lemma append_bit:
  fixes a b :: "32 word"
  shows "((a AND NOT (O_NONBLOCK OR O_APPEND)) OR (b AND (O_NONBLOCK OR O_APPEND))) AND O_APPEND = b AND O_APPEND"
    and "(a AND NOT O_NONBLOCK) AND O_APPEND = a AND O_APPEND"
    and "(a OR O_NONBLOCK) AND O_APPEND = a AND O_APPEND"
  by (rule bit_word_eqI; auto simp: bit_simps)+

lemma file_serve1_holds:
  assumes "file_host H content pos" "file_ok pos (file, h)"
    "length (content h (file_handle file)) < 2 ^ 63" "plain_req q"
  shows "holds (file_serve1 H q (file, h))
    (\<lambda>a (file', h'). file_ok pos (file', h') \<and> content h' = content h \<and> file_handle file' = file_handle file \<and>
       cursor_step (content h (file_handle file)) (offset file) q a (offset file'))
    (\<lambda>_ _. False)"
proof (cases q)
  case (F_read n)
  have "cursor_step c cur (F_read n) (A_errno e) cur" for c cur e by simp
  with file_read_holds [OF assms(1-3), of n] F_read show ?thesis
    by (cases "file_read H n (file, h)") (auto simp: file_serve1_def simp del: cursor_step.simps)
next
  case (F_seek off whence)
  with assms(4) have "whence \<noteq> SEEK_END" by simp
  from file_seek_holds [OF assms(1,2) this, where off = off and c = "content h (file_handle file)"] F_seek
  show ?thesis
    by (cases "file_seek H off whence (file, h)") (auto simp: file_serve1_def simp del: cursor_step.simps)
next
  case (F_setfl flags)
  with assms(2,4) show ?thesis
    by (simp add: file_serve1_def file_fcntl_setfl_def Let_def file_ok_def append_bit(1) [simplified])
next
  case (F_set_blocking b)
  with assms(2) show ?thesis
    by (simp add: file_serve1_def file_set_blocking_def file_ok_def append_bit(2,3) [simplified])
qed

lemma file_serve_holds:
  assumes "file_host H content pos" "file_ok pos (file, h)"
    "length (content h (file_handle file)) < 2 ^ 63" "list_all plain_req qs"
  shows "holds (file_serve H qs (file, h))
    (\<lambda>as (file', h'). cursor_run (content h (file_handle file)) (offset file) qs as (offset file'))
    (\<lambda>_ _. False)"
  using assms(2-4)
proof (induction qs arbitrary: "file" h)
  case Nil
  then show ?case by simp
next
  case (Cons q qs)
  have q: "plain_req q" "list_all plain_req qs" using Cons.prems(3) by simp_all
  show ?case
    unfolding file_serve.simps
  proof (rule holds_bind [OF file_serve1_holds [OF assms(1) Cons.prems(1,2) q(1)]], goal_cases)
    case (1 a s1)
    obtain file1 h1 where s1: "s1 = (file1, h1)" by fastforce
    with 1 have 2: "file_ok pos (file1, h1)" "content h1 = content h" "file_handle file1 = file_handle file"
      "cursor_step (content h (file_handle file)) (offset file) q a (offset file1)" by auto
    with Cons.prems(2) have "length (content h1 (file_handle file1)) < 2 ^ 63" by simp
    from Cons.IH [OF 2(1) this q(2)] 2 show ?case
      unfolding s1 by (cases "file_serve H qs (file1, h1)") (auto simp del: cursor_step.simps)
  qed simp
qed

section \<open>A host in memory\<close>

text \<open>
  A concrete host: descriptor 7 is a file with the contents \<open>mem\<close>; streams are numbered from 1 and
  their positions are kept in a list of pairs; a read returns everything it can.
\<close>

record mem_state =
  mem :: "byte list"
  streams :: "(handle \<times> nat) list"
  next_handle :: handle

definition mem_pos :: "mem_state \<Rightarrow> handle \<Rightarrow> (handle \<times> nat) option" where
  "mem_pos h st = map_option (Pair 7) (map_of (streams h) st)"

definition mem_content :: "mem_state \<Rightarrow> handle \<Rightarrow> byte list" where
  "mem_content h d = (if d = 7 then mem h else [])"

definition mem_read :: "handle \<Rightarrow> nat \<Rightarrow> mem_state \<Rightarrow> (stream_error + byte list) \<times> mem_state" where
  "mem_read st n h =
     (case map_of (streams h) st of
        None \<Rightarrow> (Inl Stream_closed, h)
      | Some p \<Rightarrow>
          if length (mem h) \<le> p then (Inl Stream_closed, h)
          else let bs = take n (drop p (mem h)) in (Inr bs, h\<lparr>streams := (st, p + length bs) # streams h\<rparr>))"

definition mem_open :: "handle \<Rightarrow> off \<Rightarrow> mem_state \<Rightarrow> (fs_error + handle) \<times> mem_state" where
  "mem_open d pos h =
     (if d = 7 then (Inr (Suc (next_handle h)),
        h\<lparr>streams := (Suc (next_handle h), unat pos) # streams h, next_handle := Suc (next_handle h)\<rparr>)
      else (Inl FS_BAD_DESCRIPTOR, h))"

definition mem_host :: "mem_state fs_host" where
  "mem_host = \<lparr>read_via_stream = mem_open,
     write_via_stream = (\<lambda>_ _ h. (Inl FS_READ_ONLY, h)), append_via_stream = (\<lambda>_ h. (Inl FS_READ_ONLY, h)),
     stat_size = (\<lambda>_ h. (Inr (of_nat (length (mem h))), h)), get_flags = (\<lambda>_ h. (Inr FLAGS_READ, h)),
     drop_descriptor = (\<lambda>_ h. h), drop_stream = (\<lambda>_ h. h), drop_pollable = (\<lambda>_ h. h),
     input_read = mem_read, output_check_write = (\<lambda>_ h. (Inl Stream_closed, h)),
     output_write = (\<lambda>_ _ h. (Inl Stream_closed, h)), output_blocking_flush = (\<lambda>_ h. (Inl Stream_closed, h)),
     subscribe = (\<lambda>_ h. (1, h)), pollable_block = (\<lambda>_ h. h), subscribe_duration = (\<lambda>_ h. (1, h)),
     poll_poll = (\<lambda>_ h. ([0], h)), error_code = (\<lambda>_ _. None), drop_error = (\<lambda>_ h. h)\<rparr>"

definition mem_init :: mem_state where
  "mem_init = \<lparr>mem = [10, 11, 12, 13, 14], streams = [], next_handle = 0\<rparr>"

definition mem_file :: file_t where
  "mem_file = \<lparr>file_handle = 7, offset = 0, oflag = O_RDONLY, read_stream = 0, write_stream = 0,
     read_pollable = 0, write_pollable = 0\<rparr>"

lemma mem_host_ok: "file_host mem_host mem_content mem_pos"
proof -
  have "opens_streams mem_host mem_content mem_pos"
    by (auto simp: opens_streams_def mem_host_def mem_open_def mem_content_def mem_pos_def fun_eq_iff
        host_err_ok_def translate_error_def)
  moreover have "reads_streams mem_host mem_content mem_pos"
    by (auto simp: reads_streams_def mem_host_def mem_read_def mem_content_def mem_pos_def fun_eq_iff
        stream_err_ok_def Let_def min_def split: option.splits)
  moreover have "closes_streams mem_host mem_content" "errors_keep mem_host mem_pos"
    by (simp_all add: closes_streams_def errors_keep_def mem_host_def)
  ultimately show ?thesis by (simp add: file_host_def)
qed

section \<open>Properties\<close>




end
