(* ===== verification/Paths.thy ===== *)
theory Paths
  imports Prelude
begin

text \<open>
  The string functions of \<^verbatim>\<open>libc-bottom-half/sources/preopens.c\<close>: normalising the name
  of a preopened directory, matching it against a path, and the search for the best match. A C
  string is the list of its characters before the terminating NUL.
\<close>

section \<open>Definitions\<close>

text \<open>\<open>s[i]\<close> for an index up to the terminator.\<close>

definition c_at :: "string \<Rightarrow> nat \<Rightarrow> char" where
  "c_at s i = (if i < length s then s ! i else CHR 0x00)"

function strip_prefixes :: "string \<Rightarrow> string" where
  "strip_prefixes path =
     (if c_at path 0 = CHR ''/'' then strip_prefixes (drop 1 path)
      else if c_at path 0 = CHR ''.'' \<and> c_at path 1 = CHR ''/'' then strip_prefixes (drop 2 path)
      else if c_at path 0 = CHR ''.'' \<and> c_at path 1 = CHR 0x00 then strip_prefixes (drop 1 path)
      else path)"
  by pat_completeness auto
termination
  by (relation "measure length") (auto simp: c_at_def split: if_splits)

text \<open>\<open>while (i > 0 && prefix[i - 1] == '/') --i;\<close>\<close>

fun trim_slashes :: "string \<Rightarrow> nat \<Rightarrow> nat" where
  "trim_slashes pfx 0 = 0"
| "trim_slashes pfx (Suc i) = (if c_at pfx i = CHR ''/'' then trim_slashes pfx i else Suc i)"

text \<open>
  \<open>memcmp(path, prefix, prefix_len)\<close> stops at the terminator of a shorter path, because the
  prefix has no NUL among its \<open>prefix_len\<close> characters.
\<close>

definition prefix_matches :: "string \<Rightarrow> nat \<Rightarrow> string \<Rightarrow> bool" where
  "prefix_matches pfx prefix_len path =
     (if c_at path 0 \<noteq> CHR ''/'' \<and> prefix_len = 0 then True
      else if take prefix_len path \<noteq> take prefix_len pfx then False
      else let last = c_at path (trim_slashes pfx prefix_len) in
        last = CHR ''/'' \<or> last = CHR 0x00)"

record preopen =
  pre_prefix :: string
  pre_fd :: int

text \<open>The loop of \<open>__wasilibc_find_abspath\<close>; the list is the table read backwards.\<close>

fun best_match :: "preopen list \<Rightarrow> string \<Rightarrow> int \<Rightarrow> nat \<Rightarrow> string \<Rightarrow> int \<times> nat \<times> string" where
  "best_match [] path fd match_len abs_prefix = (fd, match_len, abs_prefix)"
| "best_match (pre # pres) path fd match_len abs_prefix =
     (let len = length (pre_prefix pre) in
      if (fd = -1 \<or> match_len < len) \<and> prefix_matches (pre_prefix pre) len path
      then best_match pres path (pre_fd pre) len (pre_prefix pre)
      else best_match pres path fd match_len abs_prefix)"

abbreviation skip_slashes :: "string \<Rightarrow> string" where
  "skip_slashes \<equiv> dropWhile (\<lambda>c. c = CHR ''/'')"

text \<open>
  \<open>__wasilibc_find_abspath\<close> on a populated table: the descriptor, the matched prefix and the
  path relative to it.
\<close>

definition find_abspath_in :: "preopen list \<Rightarrow> string \<Rightarrow> (int \<times> string \<times> string) option" where
  "find_abspath_in pres path =
     (let path = skip_slashes path;
          (fd, match_len, abs_prefix) = best_match (rev pres) path (-1) 0 [] in
      if fd = -1 then None
      else let computed = skip_slashes (drop match_len path);
               computed = (if computed = [] then ''.'' else computed) in
        Some (fd, abs_prefix, computed))"

section \<open>Components of a path\<close>

fun split_slash :: "string \<Rightarrow> string list" where
  "split_slash [] = [[]]"
| "split_slash (c # cs) =
     (if c = CHR ''/'' then [] # split_slash cs
      else (c # hd (split_slash cs)) # tl (split_slash cs))"

text \<open>The names a path goes through; empty names and \<open>.\<close> do not move.\<close>

definition comps :: "string \<Rightarrow> string list" where
  "comps p = filter (\<lambda>w. w \<noteq> [] \<and> w \<noteq> ''.'') (split_slash p)"

section \<open>Lemmas\<close>

lemma c_at_0: "c_at s 0 = (case s of [] \<Rightarrow> CHR 0x00 | c # _ \<Rightarrow> c)"
  by (cases s) (auto simp: c_at_def)

lemma c_at_Suc [simp]: "c_at (c # s) (Suc i) = c_at s i"
  by (simp add: c_at_def)

lemma split_slash_nonempty [simp]: "split_slash p \<noteq> []"
  by (cases p) auto

lemma split_slash_append: "split_slash (p @ CHR ''/'' # q) = split_slash p @ split_slash q"
  by (induction p) auto

lemma comps_Nil [simp]: "comps [] = []"
  by (simp add: comps_def)

lemma comps_dot [simp]: "comps ''.'' = []"
  by (simp add: comps_def)

text \<open>A path splits into components at any slash.\<close>

lemma comps_slash: "comps (p @ CHR ''/'' # q) = comps p @ comps q"
  by (simp add: comps_def split_slash_append)

lemma comps_Cons_slash [simp]: "comps (CHR ''/'' # q) = comps q"
  using comps_slash [of "[]"] by simp

lemma comps_snoc_slash [simp]: "comps (p @ [CHR ''/'']) = comps p"
  using comps_slash [of p "[]"] by simp

lemma comps_skip_slashes [simp]: "comps (skip_slashes p) = comps p"
  by (induction p) auto

lemma c_at_skip_slashes: "c_at (skip_slashes p) 0 \<noteq> CHR ''/''"
  by (induction p) (auto simp: c_at_0)

lemma comps_append_slash: "q = [] \<or> hd q = CHR ''/'' \<Longrightarrow> comps (p @ q) = comps p @ comps q"
  by (cases q) (auto simp: comps_slash)

lemma comps_append_slash_left: "p = [] \<or> last p = CHR ''/'' \<Longrightarrow> comps (p @ q) = comps p @ comps q"
  using comps_slash [of "butlast p" q] by (cases p rule: rev_cases) auto

lemma comps_dot_slash [simp]: "comps (CHR ''.'' # CHR ''/'' # q) = comps q"
  using comps_slash [of "''.''" q] by simp

text \<open>\<open>strip_prefixes\<close> does not change the directory that is named, and leaves a plain start.\<close>

declare strip_prefixes.simps [simp del]

lemma strip_prefixes_Nil [simp]: "strip_prefixes [] = []"
  by (subst strip_prefixes.simps) (simp add: c_at_def)

lemma strip_prefixes_Cons:
  "CHR 0x00 \<notin> set cs \<Longrightarrow> strip_prefixes (c # cs) =
    (if c = CHR ''/'' then strip_prefixes cs
     else if c = CHR ''.'' then
       (case cs of [] \<Rightarrow> [] | d # ds \<Rightarrow> if d = CHR ''/'' then strip_prefixes ds else c # cs)
     else c # cs)"
  by (subst strip_prefixes.simps) (auto simp: c_at_0 split: list.splits)

text \<open>Induction along the characters that are stripped.\<close>

lemma strip_induct:
  assumes "CHR 0x00 \<notin> set p" "P []" "\<And>cs. P cs \<Longrightarrow> P (CHR ''/'' # cs)" "P ''.''"
    "\<And>cs. P cs \<Longrightarrow> P (CHR ''.'' # CHR ''/'' # cs)"
    "\<And>c cs. CHR 0x00 \<notin> set cs \<Longrightarrow> strip_prefixes (c # cs) = c # cs \<Longrightarrow> c \<noteq> CHR ''/'' \<Longrightarrow>
       c = CHR ''.'' \<longrightarrow> cs \<noteq> [] \<and> hd cs \<noteq> CHR ''/'' \<Longrightarrow> P (c # cs)"
  shows "P p"
  using assms(1)
proof (induction "length p" arbitrary: p rule: less_induct)
  case less
  show ?case
  proof (cases p)
    case Nil
    with assms(2) show ?thesis by simp
  next
    case (Cons c cs)
    then have nul: "CHR 0x00 \<notin> set cs" using less.prems by simp
    show ?thesis
    proof (cases "c = CHR ''/'' \<or> c = CHR ''.'' \<and> (cs = [] \<or> hd cs = CHR ''/'')")
      case True
      with less Cons assms(3-5) show ?thesis by (cases cs) auto
    next
      case False
      with nul have "strip_prefixes (c # cs) = c # cs"
        by (auto simp: strip_prefixes_Cons split: list.splits)
      with False nul Cons assms(6) show ?thesis by auto
    qed
  qed
qed

definition plain_start :: "string \<Rightarrow> bool" where
  "plain_start p \<longleftrightarrow> c_at p 0 \<noteq> CHR ''/'' \<and> p \<noteq> ''.'' \<and> take 2 p \<noteq> ''./''"

lemma strip_prefixes_props:
  assumes "CHR 0x00 \<notin> set p"
  shows "comps (strip_prefixes p) = comps p \<and> plain_start (strip_prefixes p) \<and> suffix (strip_prefixes p) p"
  using assms
proof (induction rule: strip_induct)
  case (6 c cs)
  then show ?case by (cases cs) (auto simp: plain_start_def c_at_0)
qed (use assms in \<open>auto simp: strip_prefixes_Cons plain_start_def c_at_0 suffix_Cons\<close>)

text \<open>Matching.\<close>

lemma trim_slashes_le: "trim_slashes p n \<le> n"
  by (induction n) (auto simp: le_Suc_eq)

lemma trim_slashes_slash: "trim_slashes p n \<le> j \<Longrightarrow> j < n \<Longrightarrow> c_at p j = CHR ''/''"
  by (induction n) (auto simp: less_Suc_eq split: if_splits)

lemma prefix_matches_iff:
  assumes "CHR 0x00 \<notin> set path"
  shows "prefix_matches pfx (length pfx) path \<longleftrightarrow>
    (\<exists>rest. path = pfx @ rest \<and> (pfx = [] \<or> last pfx = CHR ''/'' \<or> rest = [] \<or> hd rest = CHR ''/''))"
proof (cases "take (length pfx) path = pfx")
  case False
  then show ?thesis
    by (auto simp: prefix_matches_def)
next
  case True
  then obtain rest where path: "path = pfx @ rest" by (metis append_take_drop_id)
  let ?n = "length pfx" and ?i = "trim_slashes pfx (length pfx)"
  have last: "c_at path ?i = CHR ''/'' \<or> c_at path ?i = CHR 0x00 \<longleftrightarrow>
      pfx = [] \<and> (rest = [] \<or> hd rest = CHR ''/'') \<or>
      pfx \<noteq> [] \<and> (last pfx = CHR ''/'' \<or> rest = [] \<or> hd rest = CHR ''/'')"
  proof (cases "?i < ?n")
    case True
    then have "c_at pfx ?i = CHR ''/''" using trim_slashes_slash by blast
    moreover have "c_at pfx (?n - 1) = CHR ''/''"
      by (rule trim_slashes_slash [where n = "length pfx"]) (use True in linarith)+
    moreover have "pfx \<noteq> []" using True by auto
    moreover from calculation(2,3) have "last pfx = CHR ''/''"
      by (simp add: c_at_def last_conv_nth)
    ultimately show ?thesis using True by (auto simp: path c_at_def nth_append)
  next
    case False
    with trim_slashes_le [of pfx ?n] have i: "?i = ?n" by simp
    have "pfx = [] \<or> last pfx \<noteq> CHR ''/''"
    proof (cases pfx rule: rev_cases)
      case (snoc ys y)
      with i trim_slashes_le [of pfx "length ys"] show ?thesis
        by (auto simp: c_at_def nth_append split: if_splits)
    qed simp
    with i assms show ?thesis by (cases rest) (auto simp: path c_at_def nth_append)
  qed
  show ?thesis
    using last by (cases rest) (auto simp: prefix_matches_def path c_at_0 Let_def)
qed

lemma prefix_matches_comps:
  assumes "CHR 0x00 \<notin> set path" "prefix_matches pfx (length pfx) path"
  shows "comps path = comps pfx @ comps (drop (length pfx) path)"
  using assms by (auto simp: prefix_matches_iff intro: comps_append_slash comps_append_slash_left)

text \<open>
  The search picks, of the matching entries, one with the longest prefix, and of several such
  the first one it meets.
\<close>

definition pre_matches :: "string \<Rightarrow> preopen \<Rightarrow> bool" where
  "pre_matches path pre \<longleftrightarrow> prefix_matches (pre_prefix pre) (length (pre_prefix pre)) path"

definition pre_len :: "preopen \<Rightarrow> nat" where
  "pre_len pre = length (pre_prefix pre)"

definition first_longest :: "preopen list \<Rightarrow> string \<Rightarrow> nat \<Rightarrow> bool" where
  "first_longest L path k \<longleftrightarrow> k < length L \<and> pre_matches path (L ! k) \<and>
     (\<forall>j < length L. pre_matches path (L ! j) \<longrightarrow>
        (if j < k then pre_len (L ! j) < pre_len (L ! k) else pre_len (L ! j) \<le> pre_len (L ! k)))"

definition match_of :: "preopen \<Rightarrow> int \<times> nat \<times> string" where
  "match_of pre = (pre_fd pre, pre_len pre, pre_prefix pre)"

lemma best_match_Cons:
  "best_match (pre # pres) path fd ml ap =
    (if (fd = -1 \<or> ml < pre_len pre) \<and> pre_matches path pre
     then best_match pres path (pre_fd pre) (pre_len pre) (pre_prefix pre)
     else best_match pres path fd ml ap)"
  by (simp add: pre_len_def pre_matches_def Let_def)

lemma first_longest_0:
  "pre_matches path pre \<Longrightarrow> (\<And>q. q \<in> set L \<Longrightarrow> pre_matches path q \<Longrightarrow> pre_len q \<le> pre_len pre) \<Longrightarrow>
   first_longest (pre # L) path 0"
  by (auto simp: first_longest_def less_Suc_eq_0_disj)

lemma first_longest_Suc:
  "first_longest L path k \<Longrightarrow> (pre_matches path pre \<Longrightarrow> pre_len pre < pre_len (L ! k)) \<Longrightarrow>
   first_longest (pre # L) path (Suc k)"
  by (auto simp: first_longest_def less_Suc_eq_0_disj)

lemma best_match_found:
  assumes "\<forall>pre \<in> set L. pre_fd pre \<noteq> -1" "fd \<noteq> -1"
  shows "(\<forall>q \<in> set L. pre_matches path q \<longrightarrow> pre_len q \<le> ml) \<and> best_match L path fd ml ap = (fd, ml, ap) \<or>
    (\<exists>k. first_longest L path k \<and> ml < pre_len (L ! k) \<and> best_match L path fd ml ap = match_of (L ! k))"
  using assms
proof (induction L arbitrary: fd ml ap)
  case Nil
  then show ?case by simp
next
  case (Cons pre L)
  show ?case
  proof (cases "pre_matches path pre \<and> ml < pre_len pre")
    case True
    from Cons.IH [of "pre_fd pre" "pre_len pre" "pre_prefix pre"] Cons.prems
    consider "\<forall>q \<in> set L. pre_matches path q \<longrightarrow> pre_len q \<le> pre_len pre"
        "best_match L path (pre_fd pre) (pre_len pre) (pre_prefix pre) = match_of pre"
      | k where "first_longest L path k" "pre_len pre < pre_len (L ! k)"
        "best_match L path (pre_fd pre) (pre_len pre) (pre_prefix pre) = match_of (L ! k)"
      by (auto simp: match_of_def)
    then show ?thesis
    proof cases
      case 1
      with True first_longest_0 [of path pre L] show ?thesis
        by (auto simp: best_match_Cons simp del: best_match.simps intro!: exI [of _ 0])
    next
      case 2
      with True first_longest_Suc [of L path k pre] show ?thesis
        by (auto simp: best_match_Cons simp del: best_match.simps intro!: exI [of _ "Suc k"])
    qed
  next
    case False
    from Cons.IH [of fd ml ap] Cons.prems
    consider "\<forall>q \<in> set L. pre_matches path q \<longrightarrow> pre_len q \<le> ml" "best_match L path fd ml ap = (fd, ml, ap)"
      | k where "first_longest L path k" "ml < pre_len (L ! k)" "best_match L path fd ml ap = match_of (L ! k)"
      by auto
    then show ?thesis
    proof cases
      case 1
      with False Cons.prems show ?thesis by (auto simp: best_match_Cons simp del: best_match.simps)
    next
      case 2
      with False Cons.prems first_longest_Suc [of L path k pre] show ?thesis
        by (auto simp: best_match_Cons simp del: best_match.simps intro!: exI [of _ "Suc k"])
    qed
  qed
qed

lemma best_match_start:
  assumes "\<forall>pre \<in> set L. pre_fd pre \<noteq> -1"
  shows "(\<forall>q \<in> set L. \<not> pre_matches path q) \<and> best_match L path (-1) ml ap = (-1, ml, ap) \<or>
    (\<exists>k. first_longest L path k \<and> best_match L path (-1) ml ap = match_of (L ! k))"
  using assms
proof (induction L)
  case Nil
  then show ?case by simp
next
  case (Cons pre L)
  show ?case
  proof (cases "pre_matches path pre")
    case True
    from best_match_found [of L "pre_fd pre" path "pre_len pre" "pre_prefix pre"] Cons.prems
    consider "\<forall>q \<in> set L. pre_matches path q \<longrightarrow> pre_len q \<le> pre_len pre"
        "best_match L path (pre_fd pre) (pre_len pre) (pre_prefix pre) = match_of pre"
      | k where "first_longest L path k" "pre_len pre < pre_len (L ! k)"
        "best_match L path (pre_fd pre) (pre_len pre) (pre_prefix pre) = match_of (L ! k)"
      by (auto simp: match_of_def)
    then show ?thesis
    proof cases
      case 1
      with True first_longest_0 [of path pre L] show ?thesis
        by (auto simp: best_match_Cons simp del: best_match.simps intro!: exI [of _ 0])
    next
      case 2
      with True first_longest_Suc [of L path k pre] show ?thesis
        by (auto simp: best_match_Cons simp del: best_match.simps intro!: exI [of _ "Suc k"])
    qed
  next
    case False
    with Cons first_longest_Suc [of L path _ pre] show ?thesis
      by (auto simp: best_match_Cons simp del: best_match.simps) (metis nth_Cons_Suc)+
  qed
qed

text \<open>In registration order: the longest prefix, and of several the one registered last.\<close>

definition last_longest :: "preopen list \<Rightarrow> string \<Rightarrow> nat \<Rightarrow> bool" where
  "last_longest pres path i \<longleftrightarrow> i < length pres \<and> pre_matches path (pres ! i) \<and>
     (\<forall>j < length pres. pre_matches path (pres ! j) \<longrightarrow>
        (if i < j then pre_len (pres ! j) < pre_len (pres ! i) else pre_len (pres ! j) \<le> pre_len (pres ! i)))"

lemma first_longest_rev:
  assumes "first_longest (rev pres) path k"
  shows "last_longest pres path (length pres - Suc k) \<and> rev pres ! k = pres ! (length pres - Suc k)"
proof -
  let ?i = "length pres - Suc k"
  have k: "k < length pres" and m: "pre_matches path (pres ! ?i)" and eq: "rev pres ! k = pres ! ?i"
    using assms by (auto simp: first_longest_def rev_nth)
  have "if ?i < j then pre_len (pres ! j) < pre_len (pres ! ?i) else pre_len (pres ! j) \<le> pre_len (pres ! ?i)"
    if "j < length pres" "pre_matches path (pres ! j)" for j
  proof -
    let ?j = "length pres - Suc j"
    have j: "?j < length pres" "rev pres ! ?j = pres ! j" using that(1) by (auto simp: rev_nth)
    with assms that(2) have "if ?j < k then pre_len (pres ! j) < pre_len (rev pres ! k)
        else pre_len (pres ! j) \<le> pre_len (rev pres ! k)"
      by (auto simp: first_longest_def)
    moreover have "?j < k \<longleftrightarrow> ?i < j" using that(1) k by auto
    ultimately show ?thesis unfolding eq by simp
  qed
  with k m eq show ?thesis by (auto simp: last_longest_def)
qed

lemma find_abspath_in_spec:
  assumes "CHR 0x00 \<notin> set path" "\<forall>pre \<in> set pres. pre_fd pre \<noteq> -1"
  shows "case find_abspath_in pres path of
      None \<Rightarrow> \<forall>pre \<in> set pres. \<not> pre_matches (skip_slashes path) pre
    | Some (fd, pfx, rel) \<Rightarrow> (\<exists>i. last_longest pres (skip_slashes path) i \<and>
        fd = pre_fd (pres ! i) \<and> pfx = pre_prefix (pres ! i)) \<and>
        comps path = comps pfx @ comps rel \<and> rel \<noteq> [] \<and> c_at rel 0 \<noteq> CHR ''/'' \<and> CHR 0x00 \<notin> set rel"
proof -
  let ?p = "skip_slashes path"
  have nul: "CHR 0x00 \<notin> set ?p" using assms(1) by (meson set_dropWhileD)
  from best_match_start [of "rev pres" ?p 0 "[]"] assms(2)
  consider "\<forall>q \<in> set pres. \<not> pre_matches ?p q" "best_match (rev pres) ?p (-1) 0 [] = (-1, 0, [])"
    | k where "first_longest (rev pres) ?p k" "best_match (rev pres) ?p (-1) 0 [] = match_of (rev pres ! k)"
    by auto
  then show ?thesis
  proof cases
    case 1
    then show ?thesis by (simp add: find_abspath_in_def)
  next
    case 2
    define i where "i = length pres - Suc k"
    with first_longest_rev [OF 2(1)] have i: "last_longest pres ?p i" "rev pres ! k = pres ! i"
      by simp_all
    let ?pre = "pres ! i"
    define c where "c = skip_slashes (drop (pre_len ?pre) ?p)"
    from i(1) have m: "pre_matches ?p ?pre" "?pre \<in> set pres"
      by (auto simp: last_longest_def)
    then have "pre_fd ?pre \<noteq> -1" using assms(2) by blast
    then have eq: "find_abspath_in pres path = Some (pre_fd ?pre, pre_prefix ?pre, if c = [] then ''.'' else c)"
      unfolding c_def find_abspath_in_def Let_def 2(2) i(2) match_of_def prod.case by simp
    have 1: "comps path = comps (pre_prefix ?pre) @ comps c"
      using prefix_matches_comps [OF nul, of "pre_prefix ?pre"] m(1)
      by (simp add: pre_matches_def pre_len_def c_def)
    have 2: "c_at c 0 \<noteq> CHR ''/''" unfolding c_def by (rule c_at_skip_slashes)
    have 3: "CHR 0x00 \<notin> set c" unfolding c_def using nul by (meson in_set_dropD set_dropWhileD)
    have "comps (if c = [] then ''.'' else c) = comps c" "c_at (if c = [] then ''.'' else c) 0 \<noteq> CHR ''/''"
      "CHR 0x00 \<notin> set (if c = [] then ''.'' else c)"
      using 2 3 by (simp_all add: c_at_0)
    with 1 i(1) show ?thesis unfolding eq option.case prod.case by auto
  qed
qed

end
