(* ===== verification/Preopens.thy ===== *)
theory Preopens
  imports Descriptor_Table File Paths
begin

text \<open>
  The table of preopened directories, \<^verbatim>\<open>libc-bottom-half/sources/preopens.c\<close>: a growable
  array of name and descriptor pairs, filled on first use from what the host passes in, and
  searched by \<open>__wasilibc_find_abspath\<close>. The part of the state the table does not own (the
  descriptor table and the host) is of an arbitrary type; for WASIp2 and WASIp3 it is the
  descriptor table with its files, for WASIp1 the descriptors are the host's own. In
  \<open>__wasilibc_populate_preopens\<close> an error stands for \<open>_Exit\<close> with that status.
\<close>

section \<open>Adding a file to the descriptor table\<close>

text \<open>The files behind the descriptors, and the destructor of a file.\<close>

record 'h file_world =
  fw_files :: "data_ptr \<Rightarrow> file_t"
  fw_host :: 'h

definition file_vt_free :: "'h fs_host \<Rightarrow> (vtable \<Rightarrow> data_ptr \<Rightarrow> 'h file_world \<Rightarrow> 'h file_world) \<Rightarrow>
    vtable \<Rightarrow> data_ptr \<Rightarrow> 'h file_world \<Rightarrow> 'h file_world" where
  "file_vt_free H other v p w =
     (if v = File_vtable then w\<lparr>fw_host := file_free H (fw_files w p) (fw_host w)\<rparr> else other v p w)"

definition wasilibc_add_file :: "'h fs_host \<Rightarrow> 'h file_world dt_env \<Rightarrow> data_ptr option \<Rightarrow> handle \<Rightarrow> 32 word \<Rightarrow>
    'h file_world dt_state \<Rightarrow> (nat, 'h file_world dt_state) outcome" where
  "wasilibc_add_file H env calloc fh flags s =
     (case calloc of
        None \<Rightarrow> Err ENOMEM (s\<lparr>world := (world s)\<lparr>fw_host := drop_descriptor H fh (fw_host (world s))\<rparr>\<rparr>)
      | Some p \<Rightarrow> assertO (fh \<noteq> 0)
          (let new_file = \<lparr>file_handle = fh, offset = 0, oflag = flags, read_stream = 0, write_stream = 0,
                   read_pollable = 0, write_pollable = 0\<rparr>;
               s = s\<lparr>world := (world s)\<lparr>fw_files := (fw_files (world s))(p := new_file)\<rparr>\<rparr> in
           descriptor_table_insert env \<lparr>e_data = p, e_vtable = File_vtable\<rparr> s))"

section \<open>The table\<close>

text \<open>A slot of the array; the prefix of a slot that was never filled is the null pointer.\<close>

record preopen_slot =
  sl_prefix :: "string option"
  sl_fd :: int

record 'w po_state =
  preopens_populated :: bool
  preopens :: "preopen_slot list"
  num_preopens :: nat
  preopen_capacity :: nat
  rest :: 'w

text \<open>The answers of the allocator, by the number of slots and by the string.\<close>

record po_alloc =
  calloc_ok :: "nat \<Rightarrow> bool"
  strdup_ok :: "string \<Rightarrow> bool"

definition sizeof_preopen :: nat where "sizeof_preopen = 8"

definition assert_invariants :: "'w po_state \<Rightarrow> bool" where
  "assert_invariants s \<longleftrightarrow> num_preopens s \<le> preopen_capacity s \<and>
     (preopen_capacity s = 0 \<or> preopens s \<noteq> []) \<and>
     (preopen_capacity s = 0 \<or> preopen_capacity s < preopen_capacity s * sizeof_preopen) \<and>
     list_all (\<lambda>pre. sl_prefix pre \<noteq> None \<and> sl_fd pre \<noteq> -1) (take (num_preopens s) (preopens s))"

definition zero_slot :: preopen_slot where
  "zero_slot = \<lparr>sl_prefix = None, sl_fd = 0\<rparr>"

definition resize :: "po_alloc \<Rightarrow> 'w po_state \<Rightarrow> (unit, 'w po_state) outcome" where
  "resize A s =
     (let new_capacity = (if preopen_capacity s = 0 then 4 else preopen_capacity s * 2) in
      if \<not> calloc_ok A new_capacity then Err ENOMEM s
      else let s = s\<lparr>preopens := take (num_preopens s) (preopens s) @
                       replicate (new_capacity - num_preopens s) zero_slot,
                     preopen_capacity := new_capacity\<rparr> in
        assertO (assert_invariants s) (Ret () s))"

text \<open>
  \<open>internal_register_preopened_fd_unlocked\<close>; \<open>valid\<close> is \<open>assert_preopen_valid\<close> and
  \<open>init\<close> is \<open>preopen_state_initialize\<close>, which gives the descriptor to record.
\<close>

definition register_unlocked :: "po_alloc \<Rightarrow> ('f \<Rightarrow> bool) \<Rightarrow> ('f \<Rightarrow> 'w \<Rightarrow> (int, 'w) outcome) \<Rightarrow> 'f \<Rightarrow> string \<Rightarrow>
    'w po_state \<Rightarrow> (unit, 'w po_state) outcome" where
  "register_unlocked A valid init fd relprefix s =
     assertO (assert_invariants s) (assertO (valid fd)
       (bindO (if num_preopens s = preopen_capacity s then resize A s else Ret () s)
         (\<lambda>_ s. let new_prefix = strip_prefixes relprefix in
            if \<not> strdup_ok A new_prefix then Err ENOMEM s
            else assertO (num_preopens s < length (preopens s))
              (let i = num_preopens s;
                   s = s\<lparr>preopens := (preopens s)[i := (preopens s ! i)\<lparr>sl_prefix := Some new_prefix\<rparr>]\<rparr> in
               bindO (lift_part (\<lambda>w. s\<lparr>rest := w\<rparr>) (init fd (rest s)))
                 (\<lambda>n s. let s = s\<lparr>preopens := (preopens s)[i := (preopens s ! i)\<lparr>sl_fd := n\<rparr>],
                                 num_preopens := i + 1\<rparr> in
                    assertO (assert_invariants s) (Ret () s))))))"

subsection \<open>WASIp1\<close>

definition assert_preopen_valid_p1 :: "32 word \<Rightarrow> bool" where
  "assert_preopen_valid_p1 fd \<longleftrightarrow> fd \<noteq> -2 \<and> fd \<noteq> -1"

definition preopen_state_initialize_p1 :: "32 word \<Rightarrow> 'w \<Rightarrow> (int, 'w) outcome" where
  "preopen_state_initialize_p1 fd w = Ret (sint fd) w"

text \<open>What \<open>fd_prestat_get\<close> and \<open>fd_prestat_dir_name\<close> answer for a descriptor.\<close>

datatype prestat = Prestat_badf | Prestat_error | Prestat_dir nat "string option" | Prestat_other

abbreviation (input) EX_SOFTWARE :: int where "EX_SOFTWARE \<equiv> 70"
abbreviation (input) EX_OSERR :: int where "EX_OSERR \<equiv> 71"

function populate_p1 :: "po_alloc \<Rightarrow> (nat \<Rightarrow> bool) \<Rightarrow> (32 word \<Rightarrow> prestat) \<Rightarrow> 32 word \<Rightarrow>
    'w po_state \<Rightarrow> (unit, 'w po_state) outcome" where
  "populate_p1 A malloc_ok prestat_get fd s =
     (if fd = 0 then Ret () s
      else case prestat_get fd of
          Prestat_badf \<Rightarrow> Ret () s
        | Prestat_error \<Rightarrow> Err EX_OSERR s
        | Prestat_dir name_len name \<Rightarrow>
            if \<not> malloc_ok (name_len + 1) then Err EX_SOFTWARE s
            else (case name of
                None \<Rightarrow> Err EX_OSERR s
              | Some n \<Rightarrow>
                  (case register_unlocked A assert_preopen_valid_p1 preopen_state_initialize_p1 fd
                          (takeWhile (\<lambda>c. c \<noteq> CHR 0x00) n) s of
                     Ret _ s \<Rightarrow> populate_p1 A malloc_ok prestat_get (fd + 1) s
                   | Err _ s \<Rightarrow> Err EX_SOFTWARE s
                   | Trap \<Rightarrow> Trap
                   | Diverge \<Rightarrow> Diverge))
        | Prestat_other \<Rightarrow> populate_p1 A malloc_ok prestat_get (fd + 1) s)"
  by pat_completeness auto

lemma word_succ_measure:
  fixes fd :: "32 word"
  assumes "fd \<noteq> 0"
  shows "(if fd + 1 = 0 then 0 else 2 ^ 32 - unat (fd + 1)) < 2 ^ 32 - unat fd"
proof (cases "fd + 1 = 0")
  case False
  have "unat (fd + 1) = (unat fd + 1) mod 2 ^ 32" by (simp add: unat_word_ariths)
  moreover have "unat (fd + 1) \<noteq> 0" using False by (simp add: unsigned_eq_0_iff)
  ultimately have "unat fd \<noteq> 2 ^ 32 - 1" by auto
  with False unat_bound [of fd] unat_add_of_nat [of fd 1] show ?thesis by auto
qed (use unat_bound [of fd] in simp)

termination populate_p1
  by (relation "measure (\<lambda>(A, m, p, fd, s). if fd = 0 then 0 else 2 ^ 32 - unat fd)")
    (use word_succ_measure in auto)

subsection \<open>WASIp2 and WASIp3\<close>

definition assert_preopen_valid :: "handle \<Rightarrow> bool" where
  "assert_preopen_valid fd \<longleftrightarrow> fd \<noteq> 0"

text \<open>\<open>falloc\<close> is what \<open>calloc\<close> returns for the file structure.\<close>

definition preopen_state_initialize :: "'h fs_host \<Rightarrow> 'h file_world dt_env \<Rightarrow>
    ('h file_world dt_state \<Rightarrow> data_ptr option) \<Rightarrow> handle \<Rightarrow> 'h file_world dt_state \<Rightarrow>
    (int, 'h file_world dt_state) outcome" where
  "preopen_state_initialize H env falloc fd s =
     on_err (bindO (wasilibc_add_file H env (falloc s) fd O_RDWR s) (\<lambda>n s. Ret (int n) s))
       (\<lambda>e s. Err e (s\<lparr>world := (world s)\<lparr>fw_host := drop_descriptor H fd (fw_host (world s))\<rparr>\<rparr>))"

text \<open>The loop over the directories the host passes in: pairs of a handle and a name.\<close>

primrec populate_list :: "po_alloc \<Rightarrow> (string \<Rightarrow> bool) \<Rightarrow> 'h fs_host \<Rightarrow> 'h file_world dt_env \<Rightarrow>
    ('h file_world dt_state \<Rightarrow> data_ptr option) \<Rightarrow> (handle \<times> string) list \<Rightarrow>
    'h file_world dt_state po_state \<Rightarrow> (unit, 'h file_world dt_state po_state) outcome" where
  "populate_list A strndup_ok H env falloc [] s = Ret () s"
| "populate_list A strndup_ok H env falloc (d # ds) s =
     (let (fd, name) = d; new_prefix = takeWhile (\<lambda>c. c \<noteq> CHR 0x00) name in
      if \<not> strndup_ok new_prefix then
        Err EX_SOFTWARE (s\<lparr>rest := (rest s)\<lparr>world := (world (rest s))
          \<lparr>fw_host := drop_descriptor H fd (fw_host (world (rest s)))\<rparr>\<rparr>\<rparr>)
      else bindO
        (on_err (register_unlocked A assert_preopen_valid (preopen_state_initialize H env falloc) fd new_prefix s)
          (\<lambda>_ s. Err EX_SOFTWARE s))
        (\<lambda>_ s. populate_list A strndup_ok H env falloc ds s))"

text \<open>\<open>__wasilibc_populate_preopens\<close>, around the loop of either version.\<close>

definition populate_preopens ::
    "('w po_state \<Rightarrow> (unit, 'w po_state) outcome) \<Rightarrow> 'w po_state \<Rightarrow> (unit, 'w po_state) outcome" where
  "populate_preopens loop s =
     (if preopens_populated s then Ret () s
      else bindO (loop s) (\<lambda>_ s. Ret () (s\<lparr>preopens_populated := True\<rparr>)))"

subsection \<open>Lookup, close and reset\<close>

definition registered :: "'w po_state \<Rightarrow> preopen list" where
  "registered s = map (\<lambda>pre. \<lparr>pre_prefix = the (sl_prefix pre), pre_fd = sl_fd pre\<rparr>)
     (take (num_preopens s) (preopens s))"

definition wasilibc_find_abspath :: "('w po_state \<Rightarrow> (unit, 'w po_state) outcome) \<Rightarrow> string \<Rightarrow>
    'w po_state \<Rightarrow> (int \<times> string \<times> string, 'w po_state) outcome" where
  "wasilibc_find_abspath populate path s =
     bindO (populate s) (\<lambda>_ s.
       case find_abspath_in (registered s) path of None \<Rightarrow> Err ENOENT s | Some r \<Rightarrow> Ret r s)"

definition register_preopened_fd :: "po_alloc \<Rightarrow> ('w po_state \<Rightarrow> (unit, 'w po_state) outcome) \<Rightarrow> 32 word \<Rightarrow>
    string \<Rightarrow> 'w po_state \<Rightarrow> (unit, 'w po_state) outcome" where
  "register_preopened_fd A populate fd name s =
     bindO (populate s) (\<lambda>_ s.
       register_unlocked A assert_preopen_valid_p1 preopen_state_initialize_p1 fd name s)"

definition close_p2 :: "'x dt_env \<Rightarrow> ('x dt_state po_state \<Rightarrow> (unit, 'x dt_state po_state) outcome) \<Rightarrow> int \<Rightarrow>
    'x dt_state po_state \<Rightarrow> (unit, 'x dt_state po_state) outcome" where
  "close_p2 env populate fd s =
     bindO (populate s) (\<lambda>_ s. lift_part (\<lambda>w. s\<lparr>rest := w\<rparr>) (descriptor_table_remove env fd (rest s)))"

primrec reset_loop :: "'x dt_env \<Rightarrow> ('x dt_state po_state \<Rightarrow> (unit, 'x dt_state po_state) outcome) \<Rightarrow>
    nat list \<Rightarrow> 'x dt_state po_state \<Rightarrow> (unit, 'x dt_state po_state) outcome" where
  "reset_loop env populate [] s = Ret () s"
| "reset_loop env populate (i # is) s =
     bindO (on_err (close_p2 env populate (sl_fd (preopens s ! i)) s) (\<lambda>_ s. Ret () s))
       (\<lambda>_ s. reset_loop env populate is s)"

definition reset_preopens :: "'x dt_env \<Rightarrow> ('x dt_state po_state \<Rightarrow> (unit, 'x dt_state po_state) outcome) \<Rightarrow>
    'x dt_state po_state \<Rightarrow> (unit, 'x dt_state po_state) outcome" where
  "reset_preopens env populate s =
     bindO (reset_loop env populate [0..<num_preopens s] s)
       (\<lambda>_ s. let s = s\<lparr>preopens_populated := False, preopens := [], num_preopens := 0, preopen_capacity := 0\<rparr> in
          assertO (assert_invariants s)
            (lift_part (\<lambda>w. s\<lparr>rest := w\<rparr>) (descriptor_table_clear env (rest s))))"

section \<open>The invariant\<close>

definition slot_ok :: "preopen_slot \<Rightarrow> bool" where
  "slot_ok pre \<longleftrightarrow> sl_prefix pre \<noteq> None \<and> sl_fd pre \<noteq> -1 \<and> plain_start (the (sl_prefix pre)) \<and>
     CHR 0x00 \<notin> set (the (sl_prefix pre))"

definition po_inv :: "'w po_state \<Rightarrow> bool" where
  "po_inv s \<longleftrightarrow> length (preopens s) = preopen_capacity s \<and> num_preopens s \<le> preopen_capacity s \<and>
     list_all slot_ok (take (num_preopens s) (preopens s))"

lemma po_inv_assert: "po_inv s \<Longrightarrow> assert_invariants s"
  by (auto simp: po_inv_def assert_invariants_def sizeof_preopen_def slot_ok_def list_all_iff)

lemma po_inv_rest [simp]: "po_inv (s\<lparr>rest := w\<rparr>) = po_inv s" "registered (s\<lparr>rest := w\<rparr>) = registered s"
  "po_inv (s\<lparr>preopens_populated := b\<rparr>) = po_inv s" "registered (s\<lparr>preopens_populated := b\<rparr>) = registered s"
  by (simp_all add: po_inv_def registered_def)

lemma resize_holds:
  assumes "po_inv s"
  shows "holds (resize A s)
    (\<lambda>_ s'. po_inv s' \<and> num_preopens s' < preopen_capacity s' \<and> registered s' = registered s \<and>
       rest s' = rest s \<and> preopens_populated s' = preopens_populated s)
    (\<lambda>e s'. e = ENOMEM \<and> s' = s)"
proof -
  let ?c = "if preopen_capacity s = 0 then 4 else preopen_capacity s * 2"
  let ?s = "s\<lparr>preopens := take (num_preopens s) (preopens s) @ replicate (?c - num_preopens s) zero_slot,
      preopen_capacity := ?c\<rparr>"
  have "num_preopens s < ?c" using assms by (auto simp: po_inv_def)
  then have "po_inv ?s \<and> num_preopens ?s < preopen_capacity ?s \<and> registered ?s = registered s"
    using assms by (auto simp: po_inv_def registered_def)
  then show ?thesis by (auto simp: resize_def Let_def holds_assert po_inv_assert)
qed

lemma strip_nul: "CHR 0x00 \<notin> set p \<Longrightarrow> CHR 0x00 \<notin> set (strip_prefixes p)"
  using strip_prefixes_props [of p] set_mono_suffix by blast

lemma slot_full: "pre\<lparr>sl_prefix := a, sl_fd := n\<rparr> = \<lparr>sl_prefix = a, sl_fd = n\<rparr>"
  by (cases pre) simp

lemma register_holds:
  assumes "po_inv s" "valid fd" "CHR 0x00 \<notin> set relprefix"
    and init: "holds (init fd (rest s)) (\<lambda>n w. n \<noteq> -1 \<and> P n w) (\<lambda>_. Q)"
    and same: "Q (rest s)"
  shows "holds (register_unlocked A valid init fd relprefix s)
    (\<lambda>_ s'. po_inv s' \<and> preopens_populated s' = preopens_populated s \<and>
       (\<exists>n. P n (rest s') \<and> registered s' = registered s @ [\<lparr>pre_prefix = strip_prefixes relprefix, pre_fd = n\<rparr>]))
    (\<lambda>_ s'. po_inv s' \<and> registered s' = registered s \<and> Q (rest s'))"
proof -
  have grow: "holds (if num_preopens s = preopen_capacity s then resize A s else Ret () s)
    (\<lambda>_ s'. po_inv s' \<and> num_preopens s' < preopen_capacity s' \<and> registered s' = registered s \<and>
       rest s' = rest s \<and> preopens_populated s' = preopens_populated s)
    (\<lambda>e s'. e = ENOMEM \<and> s' = s)"
    using resize_holds [OF assms(1), of A] assms(1) by (auto simp: po_inv_def)
  let ?p = "strip_prefixes relprefix"
  have p: "plain_start ?p" "CHR 0x00 \<notin> set ?p"
    using strip_prefixes_props [OF assms(3)] strip_nul [OF assms(3)] by auto
  have store: "po_inv s'" "registered s' = registered t @ [\<lparr>pre_prefix = ?p, pre_fd = n\<rparr>]"
    if "po_inv t" "num_preopens t < preopen_capacity t" "n \<noteq> -1"
      "preopens s' = (preopens t)[num_preopens t := \<lparr>sl_prefix = Some ?p, sl_fd = n\<rparr>]"
      "num_preopens s' = num_preopens t + 1" "preopen_capacity s' = preopen_capacity t"
    for s' t :: "'a po_state" and n
    using that p
    by (auto simp: po_inv_def registered_def take_Suc_conv_app_nth slot_ok_def)
  show ?thesis
    unfolding register_unlocked_def holds_assert
  proof (intro conjI holds_bind [OF grow], goal_cases)
    case 1
    show ?case by (rule po_inv_assert [OF assms(1)])
  next
    case 2
    show ?case by (rule assms(2))
  next
    case (3 u t)
    then have t: "po_inv t" "num_preopens t < preopen_capacity t" "registered t = registered s"
      "rest t = rest s" "preopens_populated t = preopens_populated s" by simp_all
    have len: "num_preopens t < length (preopens t)" using t(1,2) by (simp add: po_inv_def)
    show ?case
    proof (cases "strdup_ok A ?p")
      case False
      with t same show ?thesis by simp
    next
      case True
      let ?i = "num_preopens t"
      let ?t = "t\<lparr>preopens := (preopens t)[?i := (preopens t ! ?i)\<lparr>sl_prefix := Some ?p\<rparr>]\<rparr>"
      have same_reg: "po_inv ?t" "registered ?t = registered t"
        using t(1,2) by (auto simp: po_inv_def registered_def)
      have init': "holds (lift_part (\<lambda>w. ?t\<lparr>rest := w\<rparr>) (init fd (rest ?t)))
          (\<lambda>n s'. n \<noteq> -1 \<and> P n (rest s') \<and> s' = ?t\<lparr>rest := rest s'\<rparr>)
          (\<lambda>_ s'. Q (rest s') \<and> s' = ?t\<lparr>rest := rest s'\<rparr>)"
        using holds_mono [OF init] by (simp add: holds_lift_part t(4))
      show ?thesis
      proof (simp only: Let_def True len not_True_eq_False if_False assertO_True, intro holds_bind [OF init'],
          goal_cases)
        case (1 n s')
        let ?s' = "s'\<lparr>preopens := (preopens s')[?i := (preopens s' ! ?i)\<lparr>sl_fd := n\<rparr>], num_preopens := ?i + 1\<rparr>"
        from 1 have s': "n \<noteq> -1" "P n (rest s')" "s' = ?t\<lparr>rest := rest s'\<rparr>" by simp_all
        have f: "preopens ?s' = (preopens t)[?i := \<lparr>sl_prefix = Some ?p, sl_fd = n\<rparr>]"
          "num_preopens ?s' = ?i + 1" "preopen_capacity ?s' = preopen_capacity t" "rest ?s' = rest s'"
          "preopens_populated ?s' = preopens_populated s"
          using len t(5) by (subst s'(3), simp add: slot_full)+
        from store [OF t(1,2) s'(1) f(1-3)] s'(2) f(4,5) t(3) show ?case
          by (auto simp: holds_assert po_inv_assert)
      next
        case (2 e s')
        then have "s' = ?t\<lparr>rest := rest s'\<rparr>" "Q (rest s')" by simp_all
        then show ?case using same_reg t(3) by (metis po_inv_rest(1,2))
      qed
    qed
  qed (use assms(1) same in simp_all)
qed

section \<open>Populating the table\<close>

text \<open>The host handle of the file behind a descriptor.\<close>

definition handle_of :: "'h file_world dt_state \<Rightarrow> nat \<Rightarrow> handle option" where
  "handle_of w fd =
     (case fd_map (global_table w) fd of
        None \<Rightarrow> None
      | Some e \<Rightarrow> if e_vtable e = File_vtable then Some (file_handle (fw_files (world w) (e_data e))) else None)"

text \<open>After the first directories with handles \<open>hs\<close>: descriptors 0 to 2 and then one for each.\<close>

definition populated_with :: "handle list \<Rightarrow> 'h file_world dt_state \<Rightarrow> bool" where
  "populated_with hs w \<longleftrightarrow> dt_inv (\<lambda>_. 0) w \<and>
     (if hs = [] then \<not> stdio_initialized w \<and> fd_map (global_table w) = Map.empty
      else stdio_initialized w \<and> dom (fd_map (global_table w)) = {..<3 + length hs}) \<and>
     (\<forall>i < length hs. handle_of w (3 + i) = Some (hs ! i))"

text \<open>\<open>calloc\<close> returns memory that is not in use.\<close>

definition fresh_alloc :: "'h file_world dt_env \<Rightarrow> ('h file_world dt_state \<Rightarrow> data_ptr option) \<Rightarrow> bool" where
  "fresh_alloc env falloc \<longleftrightarrow>
     (\<forall>w p. falloc w = Some p \<longrightarrow> insert_pre env \<lparr>e_data = p, e_vtable = File_vtable\<rparr> w)"

lemma dom_stdio_map [simp]: "dom (stdio_map env n) = {..<n}"
  by (auto simp: stdio_map_def split: if_splits)

lemma handle_of_new:
  assumes "dt_inv r w" "cnt w p = 0"
  shows "handle_of (w\<lparr>world := (world w)\<lparr>fw_files := (fw_files (world w))(p := f)\<rparr>\<rparr>) i = handle_of w i"
  using assms slot_counted [OF assms(1), of i]
  by (fastforce simp: handle_of_def split: option.splits)

lemma state_initialize_holds:
  assumes "populated_with hs w" "fresh_alloc env falloc" "fh \<noteq> 0"
  shows "holds (preopen_state_initialize H env falloc fh w)
    (\<lambda>n w'. n \<noteq> -1 \<and> n = int (3 + length hs) \<and> populated_with (hs @ [fh]) w') (\<lambda>_ _. True)"
proof (cases "falloc w")
  case None
  then show ?thesis by (simp add: preopen_state_initialize_def wasilibc_add_file_def)
next
  case (Some p)
  let ?f = "\<lparr>file_handle = fh, offset = 0, oflag = O_RDWR, read_stream = 0, write_stream = 0,
      read_pollable = 0, write_pollable = 0\<rparr>"
  let ?w = "w\<lparr>world := (world w)\<lparr>fw_files := (fw_files (world w))(p := ?f)\<rparr>\<rparr>"
  let ?e = "\<lparr>e_data = p, e_vtable = File_vtable\<rparr>"
  have pre: "insert_pre env ?e w" using assms(2) Some by (auto simp: fresh_alloc_def)
  then have zero: "cnt w p = 0" by (simp add: insert_pre_def)
  have inv: "dt_inv (\<lambda>_. 0) w" using assms(1) by (simp add: populated_with_def)
  have ins: "holds (descriptor_table_insert env ?e ?w)
    (\<lambda>fd w'. fd = 3 + length hs \<and> populated_with (hs @ [fh]) w') (\<lambda>_ _. True)"
  proof (rule holds_mono [OF insert_holds [of "\<lambda>_. 0"]], goal_cases)
    case (4 fd w')
    then have w': "dt_inv (\<lambda>_. 0) w'" "stdio_initialized w'" "fd_map (global_table w') fd = Some ?e"
      "world w' = world ?w"
      and old: "stdio_initialized w \<Longrightarrow> fd = (LEAST i. fd_map (global_table w) i = None) \<and>
        fd_map (global_table w') = (fd_map (global_table w))(fd \<mapsto> ?e)"
      and new: "\<not> stdio_initialized w \<and> fd_map (global_table w) = Map.empty \<Longrightarrow>
        fd = 3 \<and> fd_map (global_table w') = (stdio_map env 3)(3 \<mapsto> ?e)" by simp_all
    have fd: "fd = 3 + length hs \<and> dom (fd_map (global_table w')) = {..<3 + length (hs @ [fh])} \<and>
        (\<forall>i < length hs. fd_map (global_table w') (3 + i) = fd_map (global_table w) (3 + i))"
    proof (cases "hs = []")
      case True
      then have "\<not> stdio_initialized w \<and> fd_map (global_table w) = Map.empty"
        using assms(1) by (simp add: populated_with_def)
      from new [OF this] True show ?thesis by auto
    next
      case False
      then have d: "stdio_initialized w" "dom (fd_map (global_table w)) = {..<3 + length hs}"
        using assms(1) by (simp_all add: populated_with_def)
      then have "fd_map (global_table w) i = None \<longleftrightarrow> 3 + length hs \<le> i" for i
        by (metis domIff lessThan_iff not_less)
      then have "(LEAST i. fd_map (global_table w) i = None) = 3 + length hs"
        by (simp add: Least_equality)
      with old [OF d(1)] d(2) show ?thesis by (auto simp: less_Suc_eq)
    qed
    moreover have "handle_of w' (3 + i) = Some ((hs @ [fh]) ! i)" if "i < length (hs @ [fh])" for i
    proof (cases "i = length hs")
      case True
      with fd w'(3,4) show ?thesis by (simp add: handle_of_def)
    next
      case False
      with that have i: "i < length hs" by simp
      with fd w'(4) have "handle_of w' (3 + i) = handle_of ?w (3 + i)"
        by (auto simp: handle_of_def split: option.splits)
      also have "\<dots> = Some (hs ! i)"
        using handle_of_new [OF inv zero] assms(1) i by (simp add: populated_with_def)
      finally show ?thesis using i by (simp add: nth_append)
    qed
    ultimately show ?case using w'(1,2) by (simp add: populated_with_def)
  qed (use inv zero pre in \<open>auto simp: dt_inv_def insert_pre_def\<close>)
  with Some assms(3) show ?thesis
    by (cases "descriptor_table_insert env ?e ?w")
      (auto simp: preopen_state_initialize_def wasilibc_add_file_def)
qed

definition preopen_names :: "nat \<Rightarrow> (handle \<times> string) list \<Rightarrow> preopen list" where
  "preopen_names n ds = map (\<lambda>(i, d). \<lparr>pre_prefix = strip_prefixes (takeWhile (\<lambda>c. c \<noteq> CHR 0x00) (snd d)),
     pre_fd = int i\<rparr>) (enumerate n ds)"

lemma populate_list_holds:
  assumes "fresh_alloc env falloc" "list_all (\<lambda>d. fst d \<noteq> 0) ds" "po_inv s" "populated_with hs (rest s)"
    "\<not> preopens_populated s"
  shows "holds (populate_list A strndup_ok H env falloc ds s)
    (\<lambda>_ s'. po_inv s' \<and> populated_with (hs @ map fst ds) (rest s') \<and>
       registered s' = registered s @ preopen_names (3 + length hs) ds \<and> \<not> preopens_populated s')
    (\<lambda>e _. e = EX_SOFTWARE)"
  using assms(2-5)
proof (induction ds arbitrary: s hs)
  case Nil
  then show ?case by (simp add: preopen_names_def)
next
  case (Cons d ds)
  obtain fh name where d: "d = (fh, name)" by fastforce
  let ?p = "takeWhile (\<lambda>c. c \<noteq> CHR 0x00) name"
  have nul: "CHR 0x00 \<notin> set ?p" by (auto dest: set_takeWhileD)
  have fh: "fh \<noteq> 0" using Cons.prems(1) d by simp
  have init: "holds (preopen_state_initialize H env falloc fh (rest s))
     (\<lambda>n w. n \<noteq> -1 \<and> (n = int (3 + length hs) \<and> populated_with (hs @ [fh]) w)) (\<lambda>_ _. True)"
    using state_initialize_holds [OF Cons.prems(3) assms(1) fh, of H] by (rule holds_mono) auto
  have reg: "holds (on_err (register_unlocked A assert_preopen_valid (preopen_state_initialize H env falloc) fh ?p s)
        (\<lambda>_ s. Err EX_SOFTWARE s))
    (\<lambda>_ s'. po_inv s' \<and> \<not> preopens_populated s' \<and> populated_with (hs @ [fh]) (rest s') \<and>
       registered s' = registered s @ [\<lparr>pre_prefix = strip_prefixes ?p, pre_fd = int (3 + length hs)\<rparr>])
    (\<lambda>e _. e = EX_SOFTWARE)"
    by (rule holds_on_err [OF register_holds [where init = "preopen_state_initialize H env falloc" and
            P = "\<lambda>n w. n = int (3 + length hs) \<and> populated_with (hs @ [fh]) w" and Q = "\<lambda>_. True",
            OF Cons.prems(2) _ nul init]])
      (use fh Cons.prems(4) in \<open>auto simp: assert_preopen_valid_def\<close>)
  show ?case
  proof (cases "strndup_ok ?p")
    case True
    have "holds (bindO (on_err (register_unlocked A assert_preopen_valid
           (preopen_state_initialize H env falloc) fh ?p s) (\<lambda>_ s. Err EX_SOFTWARE s))
         (\<lambda>_ s. populate_list A strndup_ok H env falloc ds s))
      (\<lambda>_ s'. po_inv s' \<and> populated_with (hs @ map fst (d # ds)) (rest s') \<and>
         registered s' = registered s @ preopen_names (3 + length hs) (d # ds) \<and> \<not> preopens_populated s')
      (\<lambda>e _. e = EX_SOFTWARE)"
    proof (rule holds_bind [OF reg], goal_cases)
      case (1 u s1)
      then have s1: "po_inv s1" "populated_with (hs @ [fh]) (rest s1)" "\<not> preopens_populated s1"
        "registered s1 = registered s @ [\<lparr>pre_prefix = strip_prefixes ?p, pre_fd = int (3 + length hs)\<rparr>]"
        by simp_all
      from Cons.prems(1) have "list_all (\<lambda>d. fst d \<noteq> 0) ds" by simp
      from Cons.IH [OF this s1(1,2,3)] show ?case
        by (rule holds_mono) (use s1(4) d in \<open>auto simp: preopen_names_def\<close>)
    qed
    with True d show ?thesis by (simp add: Let_def)
  next
    case False
    with d show ?thesis by (simp add: Let_def)
  qed
qed

section \<open>Properties\<close>

definition po_init :: "'w \<Rightarrow> 'w po_state" where
  "po_init w = \<lparr>preopens_populated = False, preopens = [], num_preopens = 0, preopen_capacity = 0, rest = w\<rparr>"

text \<open>The environment of the witnesses: addresses 101 to 103 for the standard descriptors, files above 200.\<close>

definition demo_world :: "mem_state file_world" where
  "demo_world = \<lparr>fw_files = (\<lambda>_. mem_file), fw_host = mem_init\<rparr>"

definition demo_fenv :: "mem_state file_world dt_env" where
  "demo_fenv = \<lparr>version = P2, realloc_ok = (\<lambda>_. True), stdio_alloc = (\<lambda>i. Some (101 + i)),
     vt_free = file_vt_free mem_host (\<lambda>_ _ w. w)\<rparr>"

definition demo_falloc :: "mem_state file_world dt_state \<Rightarrow> data_ptr option" where
  "demo_falloc w =
     (let p = 200 + live_descriptors w in
      if cnt w p = 0 \<and> (stdio_initialized w \<or> cnt w 101 = 0 \<and> cnt w 102 = 0 \<and> cnt w 103 = 0) then Some p else None)"

definition demo_dirs :: "(handle \<times> string) list" where
  "demo_dirs = [(5, ''/''), (6, ''/usr/lib''), (8, ''./usr'')]"

definition demo_alloc :: po_alloc where
  "demo_alloc = \<lparr>calloc_ok = (\<lambda>_. True), strdup_ok = (\<lambda>_. True)\<rparr>"

definition demo_populate :: "mem_state file_world dt_state po_state \<Rightarrow>
    (unit, mem_state file_world dt_state po_state) outcome" where
  "demo_populate = populate_preopens (populate_list demo_alloc (\<lambda>_. True) mem_host demo_fenv demo_falloc demo_dirs)"

definition demo_po :: "mem_state file_world dt_state po_state" where
  "demo_po = out_state (demo_populate (po_init (dt_init demo_world)))"

definition full_env :: "mem_state file_world dt_env" where
  "full_env = demo_fenv\<lparr>realloc_ok := (\<lambda>_. False),
     vt_free := file_vt_free (mem_host\<lparr>drop_descriptor := (\<lambda>d h. h\<lparr>next_handle := next_handle h + d\<rparr>)\<rparr>) (\<lambda>_ _ w. w)\<rparr>"

lemma demo_falloc_fresh: "fresh_alloc demo_fenv demo_falloc"
proof -
  have al: "stdio_alloc demo_fenv = (\<lambda>i. Some (101 + i))" by (simp add: demo_fenv_def)
  have ptrs: "p = 101 \<or> p = 102 \<or> p = 103" if "p \<in> stdio_ptrs demo_fenv" for p
  proof -
    from that have "101 \<le> p \<and> p < 104" by (auto simp: stdio_ptrs_def al)
    then show ?thesis by arith
  qed
  then have fresh: "stdio_fresh demo_fenv c" if "c 101 = 0" "c 102 = 0" "c 103 = 0" for c
    using that by (auto simp: stdio_fresh_def al)
  show ?thesis
    unfolding fresh_alloc_def insert_pre_def demo_falloc_def Let_def
    using fresh ptrs by (fastforce split: if_splits)
qed

lemma demo_po_eq:
  "demo_populate (po_init (dt_init demo_world)) = Ret () demo_po" "preopens_populated demo_po"
  "registered demo_po = [\<lparr>pre_prefix = [], pre_fd = 3\<rparr>, \<lparr>pre_prefix = ''usr/lib'', pre_fd = 4\<rparr>,
     \<lparr>pre_prefix = ''usr'', pre_fd = 5\<rparr>]"
  unfolding demo_po_def by (rule ret_val_Ret, code_simp) code_simp+

lemma po_inv_init: "po_inv (po_init w)" "populated_with [] (dt_init w')"
  using dt_inv_init [of w'] by (simp_all add: po_inv_def po_init_def populated_with_def dt_init_def fd_map_def fun_eq_iff)

text \<open>C16: populating the table of a fresh program either exits with \<open>EX_SOFTWARE\<close> (memory ran out)
  or records the directories of the host in order, with normalised names, under descriptors 3, 4,
  5 and so on, each of which is a file with the handle the host gave for that directory; populating
  again changes nothing.\<close>

theorem populate_correct:
  assumes "fresh_alloc env falloc" "list_all (\<lambda>d. fst d \<noteq> 0) ds"
    "populate = populate_preopens (populate_list A strndup_ok H env falloc ds)"
  shows "(\<exists>s. populate (po_init (dt_init w)) = Ret () s \<and> registered s = preopen_names 3 ds \<and>
      (\<forall>i < length ds. handle_of (rest s) (3 + i) = Some (fst (ds ! i))) \<and> populate s = Ret () s) \<or>
    err_val (populate (po_init (dt_init w))) = Some EX_SOFTWARE"
proof -
  let ?s = "po_init (dt_init w)"
  have "registered ?s = []" "\<not> preopens_populated ?s" "rest ?s = dt_init w"
    by (simp_all add: po_init_def registered_def)
  with populate_list_holds [OF assms(1,2), of ?s "[]" A strndup_ok H] po_inv_init(1) [of "dt_init w"]
    po_inv_init(2) [of w]
  show ?thesis
    by (cases "populate_list A strndup_ok H env falloc ds ?s")
      (auto simp: populate_preopens_def assms(3) populated_with_def)
qed

theorem populate_correct_witness:
  "fresh_alloc demo_fenv demo_falloc \<and> registered demo_po = preopen_names 3 demo_dirs \<and>
   handle_of (rest demo_po) 4 = Some 6"
proof -
  have "list_all (\<lambda>d. fst d \<noteq> 0) demo_dirs" by (simp add: demo_dirs_def)
  from populate_correct [OF demo_falloc_fresh this demo_populate_def, of demo_world] demo_po_eq(1)
  have "registered demo_po = preopen_names 3 demo_dirs"
    "\<forall>i < length demo_dirs. handle_of (rest demo_po) (3 + i) = Some (fst (demo_dirs ! i))" by auto
  then show ?thesis using demo_falloc_fresh by (auto simp: demo_dirs_def dest: spec [of _ 1])
qed



text \<open>C37: when the descriptor of a preopened directory cannot be inserted into the table, its host
  handle is dropped twice: once by the destructor of the file, which the failed insertion runs, and
  once more by \<open>preopen_state_initialize\<close>.\<close>

theorem failed_preopen_drops_twice:
  assumes "dt_inv r w" "stdio_initialized w" "falloc w = Some p" "cnt w p = 0" "fh \<noteq> 0"
    "vt_free env = file_vt_free H other"
    "preopen_state_initialize H env falloc fh w = Err e w'"
  shows "fw_host (world w') = drop_descriptor H fh (drop_descriptor H fh (fw_host (world w)))"
proof -
  let ?f = "\<lparr>file_handle = fh, offset = 0, oflag = O_RDWR, read_stream = 0, write_stream = 0,
      read_pollable = 0, write_pollable = 0\<rparr>"
  let ?w = "w\<lparr>world := (world w)\<lparr>fw_files := (fw_files (world w))(p := ?f)\<rparr>\<rparr>"
  let ?e = "\<lparr>e_data = p, e_vtable = File_vtable\<rparr>"
  have "dt_inv r ?w" using assms(1) by (simp add: dt_inv_def)
  from insert_holds [OF this, of ?e env] assms(2,4)
  have "holds (descriptor_table_insert env ?e ?w) (\<lambda>_ _. True)
    (\<lambda>er s'. world s' = vt_free env File_vtable p (world ?w))"
    by (auto elim!: holds_mono)
  with assms(3,5,6,7) show ?thesis
    by (cases "descriptor_table_insert env ?e ?w")
      (auto simp: preopen_state_initialize_def wasilibc_add_file_def file_vt_free_def file_free_def
        file_close_streams_def Let_def)
qed

theorem failed_preopen_drops_twice_witness:
  "\<exists>w'. preopen_state_initialize (mem_host\<lparr>drop_descriptor := (\<lambda>d h. h\<lparr>next_handle := next_handle h + d\<rparr>)\<rparr>)
       full_env demo_falloc 5 ((dt_init demo_world)\<lparr>stdio_initialized := True\<rparr>) = Err ENOMEM w' \<and>
     next_handle (fw_host (world w')) = 10"
proof -
  let ?H = "mem_host\<lparr>drop_descriptor := (\<lambda>d h. h\<lparr>next_handle := next_handle h + d\<rparr>)\<rparr>"
  let ?w = "(dt_init demo_world)\<lparr>stdio_initialized := True\<rparr>"
  let ?x = "preopen_state_initialize ?H full_env demo_falloc 5 ?w"
  have err: "?x = Err ENOMEM (out_state ?x)" by (rule err_val_Err) code_simp
  have inv: "dt_inv (\<lambda>_. 0) ?w" using dt_inv_init [of demo_world] by (simp add: dt_inv_def)
  have "demo_falloc ?w = Some 200" "cnt ?w 200 = 0" "next_handle (fw_host (world ?w)) = 0"
    by (simp_all add: demo_falloc_def dt_init_def demo_world_def mem_init_def)
  with failed_preopen_drops_twice [OF inv _ _ _ _ _ err, of 200 "\<lambda>_ _ w. w"]
  show ?thesis by (subst err) (simp add: full_env_def)
qed

text \<open>C33: \<open>__wasilibc_reset_preopens\<close> always returns and leaves an empty, unpopulated table and an
  empty descriptor table in which only references held elsewhere are counted.\<close>

theorem reset_correct:
  assumes "po_inv s" "preopens_populated s" "dt_inv r (rest s)" "stdio_ready env (rest s)"
  shows "\<exists>s'. reset_preopens env (populate_preopens loop) s = Ret () s' \<and> registered s' = [] \<and>
    \<not> preopens_populated s' \<and> po_inv s' \<and> fd_map (global_table (rest s')) = Map.empty \<and>
    \<not> stdio_initialized (rest s') \<and> cnt (rest s') = r"
proof -
  have loop: "holds (reset_loop env (populate_preopens loop) is s)
      (\<lambda>_ s'. dt_inv r (rest s')) (\<lambda>_ _. False)" for "is"
    using assms(2-4)
  proof (induction "is" arbitrary: s)
    case Nil
    then show ?case by simp
  next
    case (Cons i "is")
    have rm: "holds (descriptor_table_remove env (sl_fd (preopens s ! i)) (rest s))
        (\<lambda>_ w. dt_inv r w \<and> stdio_ready env w) (\<lambda>_ w. dt_inv r w \<and> stdio_ready env w)"
      by (rule holds_mono [OF remove_holds [OF Cons.prems(2,3)]]) (auto simp: stdio_ready_def)
    have "holds (on_err (close_p2 env (populate_preopens loop) (sl_fd (preopens s ! i)) s) (\<lambda>_ s. Ret () s))
        (\<lambda>_ s'. preopens_populated s' \<and> dt_inv r (rest s') \<and> stdio_ready env (rest s')) (\<lambda>_ _. False)"
      using rm Cons.prems(1)
      by (cases "descriptor_table_remove env (sl_fd (preopens s ! i)) (rest s)")
        (auto simp: close_p2_def populate_preopens_def)
    then show ?case
      unfolding reset_loop.simps by (rule holds_bind) (use Cons.IH in auto)
  qed
  show ?thesis
    using loop [of "[0..<num_preopens s]"] clear_holds [of r _ env]
    by (force simp: reset_preopens_def holds_no_err assert_invariants_def Let_def registered_def po_inv_def)
qed

theorem reset_correct_witness:
  "stdio_ready demo_fenv (rest demo_po) \<and> registered demo_po \<noteq> [] \<and>
   (\<exists>s'. reset_preopens demo_fenv demo_populate demo_po = Ret () s' \<and> registered s' = [] \<and>
      fd_map (global_table (rest s')) = Map.empty)"
proof -
  have inv: "po_inv demo_po" and ready: "stdio_ready demo_fenv (rest demo_po)"
    by (code_simp, unfold stdio_ready_def, rule disjI1, code_simp)
  let ?x = "populate_list demo_alloc (\<lambda>_. True) mem_host demo_fenv demo_falloc demo_dirs (po_init (dt_init demo_world))"
  obtain s1 where s1: "?x = Ret () s1" "demo_po = s1\<lparr>preopens_populated := True\<rparr>"
    using demo_po_eq(1) by (cases ?x) (auto simp: demo_populate_def populate_preopens_def po_init_def)
  have "list_all (\<lambda>d. fst d \<noteq> 0) demo_dirs" by (simp add: demo_dirs_def)
  from populate_list_holds [OF demo_falloc_fresh this po_inv_init(1) [of "dt_init demo_world"], of "[]"
        demo_alloc "\<lambda>_. True" mem_host] po_inv_init(2) [of demo_world] s1(1)
  have "dt_inv (\<lambda>_. 0) (rest s1)" by (simp add: po_init_def populated_with_def)
  then have "dt_inv (\<lambda>_. 0) (rest demo_po)" by (simp add: s1(2))
  from reset_correct [OF inv demo_po_eq(2) this ready,
      where loop = "populate_list demo_alloc (\<lambda>_. True) mem_host demo_fenv demo_falloc demo_dirs",
      folded demo_populate_def] ready demo_po_eq(3)
  show ?thesis by auto
qed

end
