(* ===== verification/Utf8.thy ===== *)
theory Utf8
  imports File
begin

text \<open>
  Strings handed to the host: \<open>validate_utf8\<close> and \<open>wasi_string_from_c\<close> of
  \<^verbatim>\<open>libc-bottom-half/sources/file_utils.c\<close>. A C string is read from a memory, the list of
  the bytes from its first byte on; a read behind that memory is \<open>None\<close>.
\<close>

section \<open>Definitions\<close>

definition rd :: "byte list \<Rightarrow> nat \<Rightarrow> byte option" where
  "rd ptr i = (if i < length ptr then Some (ptr ! i) else None)"

text \<open>
  The tests on the leading byte \<open>c\<close> at \<open>i\<close>: the size of the code point, or \<open>Some None\<close> for
  \<open>return -1\<close>.
\<close>

definition lead_size :: "byte list \<Rightarrow> nat \<Rightarrow> byte \<Rightarrow> nat option option" where
  "lead_size ptr i c =
     (if c AND 0xE0 = 0xC0 then
        if c \<le> 0xC1 then Some None else Some (Some 2)
      else if c AND 0xF0 = 0xE0 then
        if c = 0xE0 then
          map_option (\<lambda>b. if b AND 0x20 = 0 then None else Some 3) (rd ptr (i + 1))
        else if c = 0xED then
          map_option (\<lambda>b. if b \<ge> 0xA0 then None else Some 3) (rd ptr (i + 1))
        else Some (Some 3)
      else if c AND 0xF8 = 0xF0 then
        if c = 0xF0 then
          map_option (\<lambda>b. if b AND 0x30 = 0 then None else Some 4) (rd ptr (i + 1))
        else if c = 0xF4 then
          map_option (\<lambda>b. if b \<ge> 0x90 then None else Some 4) (rd ptr (i + 1))
        else if c > 0xF4 then Some None
        else Some (Some 4)
      else Some None)"

text \<open>The loop over the continuation bytes: \<open>n\<close> of them left, the next one at \<open>k\<close>.\<close>

primrec continuation :: "byte list \<Rightarrow> nat \<Rightarrow> nat \<Rightarrow> bool option" where
  "continuation ptr k 0 = Some True"
| "continuation ptr k (Suc n) =
     (case rd ptr k of
        None \<Rightarrow> None
      | Some b \<Rightarrow> if b AND 0xC0 \<noteq> 0x80 then Some False else continuation ptr (Suc k) n)"

text \<open>One round of the main loop on a byte above \<open>0x7F\<close>.\<close>

definition codepoint :: "byte list \<Rightarrow> nat \<Rightarrow> byte \<Rightarrow> nat option option" where
  "codepoint ptr i c =
     (case lead_size ptr i c of
        Some (Some codepoint_size) \<Rightarrow>
          map_option (\<lambda>ok. if ok then Some codepoint_size else None)
            (continuation ptr (i + 1) (codepoint_size - 1))
      | r \<Rightarrow> r)"

lemma lead_size_bounds: "lead_size ptr i c = Some (Some n) \<Longrightarrow> 2 \<le> n \<and> n \<le> 4"
  by (auto simp: lead_size_def split: if_splits)

lemma codepoint_bounds: "codepoint ptr i c = Some (Some n) \<Longrightarrow> 2 \<le> n \<and> n \<le> 4"
  by (auto simp: codepoint_def dest: lead_size_bounds split: option.splits if_splits)

text \<open>The loop; \<open>None\<close> is a read outside the memory. The result is a \<open>size_t\<close> returned as an \<open>int\<close>.\<close>

function validate_from :: "byte list \<Rightarrow> nat \<Rightarrow> int option" where
  "validate_from ptr i =
     (case rd ptr i of
        None \<Rightarrow> None
      | Some c \<Rightarrow>
          if c = 0 then Some (sint (word_of_nat i :: 32 word))
          else if c \<le> 0x7F then validate_from ptr (i + 1)
          else (case codepoint ptr i c of
                  None \<Rightarrow> None
                | Some None \<Rightarrow> Some (- 1)
                | Some (Some codepoint_size) \<Rightarrow> validate_from ptr (i + codepoint_size)))"
  by pat_completeness auto
termination
  by (relation "measure (\<lambda>(ptr, i). length ptr - i)")
    (auto simp: rd_def split: if_splits dest!: codepoint_bounds)

declare validate_from.simps [simp del]

definition validate_utf8 :: "byte list \<Rightarrow> int option" where
  "validate_utf8 ptr = validate_from ptr 0"

text \<open>The string handed out is the pointer itself with a length.\<close>

definition wasi_string_from_c :: "byte list \<Rightarrow> 'h \<Rightarrow> (byte list \<times> nat, 'h) outcome" where
  "wasi_string_from_c s h =
     (case validate_utf8 s of
        None \<Rightarrow> Trap
      | Some len \<Rightarrow> if len < 0 then Err EILSEQ h else Ret (s, nat len) h)"

section \<open>The encoding\<close>

text \<open>Unicode scalar values and their encoding form UTF-8.\<close>

definition scalar :: "nat \<Rightarrow> bool" where
  "scalar u \<longleftrightarrow> u < 0xD800 \<or> 0xE000 \<le> u \<and> u \<le> 0x10FFFF"

definition utf8_char :: "nat \<Rightarrow> nat list" where
  "utf8_char u =
     (if u < 0x80 then [u]
      else if u < 0x800 then [0xC0 + u div 64, 0x80 + u mod 64]
      else if u < 0x10000 then [0xE0 + u div 4096, 0x80 + u div 64 mod 64, 0x80 + u mod 64]
      else [0xF0 + u div 262144, 0x80 + u div 4096 mod 64, 0x80 + u div 64 mod 64, 0x80 + u mod 64])"

definition encode_utf8 :: "nat list \<Rightarrow> byte list" where
  "encode_utf8 us = map word_of_nat (concat (map utf8_char us))"

section \<open>Lemmas\<close>

lemma rd_drop: "rd ptr (i + k) = rd (drop i ptr) k"
  by (auto simp: rd_def)

lemma lead_size_drop: "lead_size ptr i c = lead_size (drop i ptr) 0 c"
  unfolding lead_size_def rd_drop by simp

lemma continuation_drop: "continuation ptr (i + k) n = continuation (drop i ptr) k n"
proof (induction n arbitrary: k)
  case (Suc n)
  from Suc.IH [of "Suc k"] show ?case by (simp add: rd_drop split: option.splits)
qed simp

lemma codepoint_drop: "codepoint ptr i c = codepoint (drop i ptr) 0 c"
  unfolding codepoint_def lead_size_drop [of ptr i] continuation_drop [of ptr i 1] add_0 ..

text \<open>The masks as ranges of bytes.\<close>

lemma unat_clear_low:
  fixes w :: "8 word"
  assumes "k \<le> 8"
  shows "unat (w AND NOT (mask k)) = unat w div 2 ^ k * 2 ^ k"
proof -
  have "w AND NOT (mask k) = push_bit k (drop_bit k w)"
    by (rule bit_word_eqI) (auto simp: bit_simps)
  then have "unat (w AND NOT (mask k)) = unat (push_bit k (drop_bit k w))" by simp
  also have "\<dots> = take_bit 8 (push_bit k (drop_bit k (unat w)))"
    using unat_bound [of w]
    by (simp add: unsigned_push_bit_eq unsigned_drop_bit_eq take_bit_push_bit take_bit_nat_eq_self)
  also have "\<dots> = unat w div 2 ^ k * 2 ^ k"
  proof -
    have "unat w < 2 ^ 8" using unat_bound [of w] by simp
    then have "unat w div 2 ^ k * 2 ^ k < 2 ^ 8" by (rule le_less_trans [OF div_times_less_eq_dividend])
    then show ?thesis unfolding take_bit_eq_mod push_bit_eq_mult drop_bit_eq_div by (rule mod_less)
  qed
  finally show ?thesis .
qed

lemma byte_masks:
  fixes c :: byte
  shows "c AND 0xE0 = 0xC0 \<longleftrightarrow> unat c div 32 = 6"
    and "c AND 0xF0 = 0xE0 \<longleftrightarrow> unat c div 16 = 14"
    and "c AND 0xF8 = 0xF0 \<longleftrightarrow> unat c div 8 = 30"
    and "c AND 0xC0 = 0x80 \<longleftrightarrow> unat c div 64 = 2"
proof -
  have m: "(0xE0 :: byte) = NOT (mask 5)" "(0xF0 :: byte) = NOT (mask 4)" "(0xF8 :: byte) = NOT (mask 3)"
    "(0xC0 :: byte) = NOT (mask 6)" by (simp_all add: mask_numeral)
  have "c AND 0xE0 = 0xC0 \<longleftrightarrow> unat c div 32 * 32 = 0xC0" "c AND 0xF0 = 0xE0 \<longleftrightarrow> unat c div 16 * 16 = 0xE0"
    "c AND 0xF8 = 0xF0 \<longleftrightarrow> unat c div 8 * 8 = 0xF0" "c AND 0xC0 = 0x80 \<longleftrightarrow> unat c div 64 * 64 = 0x80"
    using unat_clear_low [of 5 c] unat_clear_low [of 4 c] unat_clear_low [of 3 c] unat_clear_low [of 6 c]
    unfolding word_unat_eq_iff m(1) [symmetric] m(2) [symmetric] m(3) [symmetric] m(4) [symmetric] by simp_all
  then show "c AND 0xE0 = 0xC0 \<longleftrightarrow> unat c div 32 = 6" "c AND 0xF0 = 0xE0 \<longleftrightarrow> unat c div 16 = 14"
    "c AND 0xF8 = 0xF0 \<longleftrightarrow> unat c div 8 = 30" "c AND 0xC0 = 0x80 \<longleftrightarrow> unat c div 64 = 2" by simp_all
qed

lemma byte_bit: "(c :: byte) AND 2 ^ k = 0 \<longleftrightarrow> even (unat c div 2 ^ k)"
proof -
  have "bit (unat c) k \<longleftrightarrow> bit c k" by (simp add: bit_unsigned_iff)
  then show ?thesis unfolding and_exp_eq_0_iff_not_bit bit_iff_odd [of "unat c"] by auto
qed

lemma byte_bits:
  fixes c :: byte
  assumes "unat c div 64 = 2"
  shows "c AND 0x20 = 0 \<longleftrightarrow> unat c < 0xA0" and "c AND 0x30 = 0 \<longleftrightarrow> unat c < 0x90"
proof -
  have b5: "c AND 0x20 = 0 \<longleftrightarrow> even (unat c div 32)" using byte_bit [of c 5] by simp
  have b4: "c AND 0x10 = 0 \<longleftrightarrow> even (unat c div 16)" using byte_bit [of c 4] by simp
  have e5: "even (unat c div 32) \<longleftrightarrow> unat c < 0xA0"
  proof (cases "unat c < 0xA0")
    case True
    with assms have "unat c div 32 = 4" by linarith
    with True show ?thesis by simp
  next
    case False
    with assms have "unat c div 32 = 5" by linarith
    with False show ?thesis by simp
  qed
  then show "c AND 0x20 = 0 \<longleftrightarrow> unat c < 0xA0" unfolding b5 .
  have "(0x30 :: byte) = 0x20 OR 0x10" by simp
  then have "c AND 0x30 = 0 \<longleftrightarrow> c AND 0x20 = 0 \<and> c AND 0x10 = 0"
    by (simp only: bit.conj_disj_distrib or_eq_0_iff)
  moreover have "unat c < 0xA0 \<Longrightarrow> even (unat c div 16) \<longleftrightarrow> unat c < 0x90"
  proof (cases "unat c < 0x90")
    case True
    with assms have "unat c div 16 = 8" by linarith
    with True show ?thesis by simp
  next
    case False
    moreover assume "unat c < 0xA0"
    ultimately have "unat c div 16 = 9" using assms by linarith
    with False show ?thesis by simp
  qed
  ultimately show "c AND 0x30 = 0 \<longleftrightarrow> unat c < 0x90" unfolding b5 b4 e5 by auto
qed

lemma byte_ranges:
  fixes c :: byte
  shows "c \<le> 0x7F \<longleftrightarrow> unat c \<le> 0x7F" "c \<le> 0xC1 \<longleftrightarrow> unat c \<le> 0xC1" "c \<ge> 0xA0 \<longleftrightarrow> unat c \<ge> 0xA0"
    "c \<ge> 0x90 \<longleftrightarrow> unat c \<ge> 0x90" "c > 0xF4 \<longleftrightarrow> unat c > 0xF4"
    "c = 0xE0 \<longleftrightarrow> unat c = 0xE0" "c = 0xED \<longleftrightarrow> unat c = 0xED" "c = 0xF0 \<longleftrightarrow> unat c = 0xF0" "c = 0xF4 \<longleftrightarrow> unat c = 0xF4"
  by (simp_all add: word_le_nat_alt word_less_nat_alt word_unat_eq_iff)

text \<open>What one round accepts, over the numbers of the bytes; a string ends with 0.\<close>

definition at_or_0 :: "nat list \<Rightarrow> nat \<Rightarrow> nat" where
  "at_or_0 bs k = (if k < length bs then bs ! k else 0)"

definition seq4 :: "nat \<Rightarrow> nat \<Rightarrow> nat \<Rightarrow> nat \<Rightarrow> nat option" where
  "seq4 b0 b1 b2 b3 =
     (if 0xC2 \<le> b0 \<and> b0 \<le> 0xDF \<and> b1 div 64 = 2 then Some 2
      else if 0xE0 \<le> b0 \<and> b0 \<le> 0xEF \<and> b1 div 64 = 2 \<and> b2 div 64 = 2 \<and>
        (b0 = 0xE0 \<longrightarrow> 0xA0 \<le> b1) \<and> (b0 = 0xED \<longrightarrow> b1 < 0xA0) then Some 3
      else if 0xF0 \<le> b0 \<and> b0 \<le> 0xF4 \<and> b1 div 64 = 2 \<and> b2 div 64 = 2 \<and> b3 div 64 = 2 \<and>
        (b0 = 0xF0 \<longrightarrow> 0x90 \<le> b1) \<and> (b0 = 0xF4 \<longrightarrow> b1 < 0x90) then Some 4
      else None)"

definition seq_len :: "nat list \<Rightarrow> nat option" where
  "seq_len bs = seq4 (at_or_0 bs 0) (at_or_0 bs 1) (at_or_0 bs 2) (at_or_0 bs 3)"

lemma rd_string: "k \<le> length s \<Longrightarrow> rd (s @ 0 # r) k = Some (word_of_nat (at_or_0 (map unat s) k))"
  by (auto simp: rd_def at_or_0_def nth_append)

lemma continuation_string:
  assumes "k \<le> length s" "0 \<notin> set s"
  shows "continuation (s @ 0 # r) k n = Some (\<forall>j < n. at_or_0 (map unat s) (k + j) div 64 = 2)"
  using assms(1)
proof (induction n arbitrary: k)
  case (Suc n)
  let ?a = "at_or_0 (map unat s)"
  have a: "unat (word_of_nat (?a k) :: byte) = ?a k" by (auto simp: at_or_0_def)
  have split: "(\<forall>j < Suc n. ?a (k + j) div 64 = 2) \<longleftrightarrow> ?a k div 64 = 2 \<and> (\<forall>j < n. ?a (Suc k + j) div 64 = 2)"
    by (auto simp: less_Suc_eq_0_disj)
  show ?case
  proof (cases "?a k div 64 = 2")
    case True
    then have "k < length s" by (auto simp: at_or_0_def split: if_splits)
    then have "Suc k \<le> length s" by simp
    from Suc.IH [OF this] True show ?thesis
      unfolding split using Suc.prems by (simp add: rd_string byte_masks a)
  next
    case False
    then show ?thesis unfolding split using Suc.prems by (simp add: rd_string byte_masks a)
  qed
qed simp

lemma all_less_small:
  fixes P :: "nat \<Rightarrow> bool"
  shows "(\<forall>j < 1. P j) \<longleftrightarrow> P 0" "(\<forall>j < 2. P j) \<longleftrightarrow> P 0 \<and> P 1" "(\<forall>j < 3. P j) \<longleftrightarrow> P 0 \<and> P 1 \<and> P 2"
  by (auto simp: numeral_eq_Suc less_Suc_eq)

definition lead_nat :: "nat \<Rightarrow> nat \<Rightarrow> bool \<Rightarrow> bool \<Rightarrow> nat option" where
  "lead_nat b0 b1 low20 low30 =
     (if b0 div 32 = 6 then if b0 \<le> 0xC1 then None else Some 2
      else if b0 div 16 = 14 then
        if b0 = 0xE0 then if low20 then None else Some 3
        else if b0 = 0xED then if 0xA0 \<le> b1 then None else Some 3
        else Some 3
      else if b0 div 8 = 30 then
        if b0 = 0xF0 then if low30 then None else Some 4
        else if b0 = 0xF4 then if 0x90 \<le> b1 then None else Some 4
        else if 0xF4 < b0 then None else Some 4
      else None)"

lemma lead_size_nat:
  assumes "rd ptr (0 + 1) = Some b1"
  shows "lead_size ptr 0 c = Some (lead_nat (unat c) (unat b1) (b1 AND 0x20 = 0) (b1 AND 0x30 = 0))"
  unfolding lead_size_def lead_nat_def byte_masks unfolding byte_ranges assms option.map if_distrib [of Some] ..

definition all_cont :: "nat \<Rightarrow> nat list \<Rightarrow> bool" where
  "all_cont n bs \<longleftrightarrow> (\<forall>j < n. at_or_0 bs (1 + j) div 64 = 2)"

lemma all_cont_small:
  "all_cont (2 - 1) bs \<longleftrightarrow> at_or_0 bs 1 div 64 = 2"
  "all_cont (3 - 1) bs \<longleftrightarrow> at_or_0 bs 1 div 64 = 2 \<and> at_or_0 bs 2 div 64 = 2"
  "all_cont (4 - 1) bs \<longleftrightarrow> at_or_0 bs 1 div 64 = 2 \<and> at_or_0 bs 2 div 64 = 2 \<and> at_or_0 bs 3 div 64 = 2"
  using all_less_small [of "\<lambda>j. at_or_0 bs (1 + j) div 64 = 2"]
  by (simp_all add: all_cont_def numeral_2_eq_2 numeral_3_eq_3)

lemma lead_classes:
  fixes b0 :: nat
  shows "b0 div 32 = 6 \<longleftrightarrow> 0xC0 \<le> b0 \<and> b0 \<le> 0xDF" "b0 div 16 = 14 \<longleftrightarrow> 0xE0 \<le> b0 \<and> b0 \<le> 0xEF"
    "b0 div 8 = 30 \<longleftrightarrow> 0xF0 \<le> b0 \<and> b0 \<le> 0xF7"
  by linarith+

lemma seq4_lead:
  assumes "b1 div 64 = 2 \<Longrightarrow> low20 = (b1 < 0xA0) \<and> low30 = (b1 < 0x90)"
  shows "seq4 b0 b1 b2 b3 =
    (case lead_nat b0 b1 low20 low30 of None \<Rightarrow> None
     | Some n \<Rightarrow> if b1 div 64 = 2 \<and> (3 \<le> n \<longrightarrow> b2 div 64 = 2) \<and> (4 \<le> n \<longrightarrow> b3 div 64 = 2) then Some n else None)"
proof (cases "b1 div 64 = 2")
  case True
  with assms have l: "low20 = (b1 < 0xA0)" "low30 = (b1 < 0x90)" by auto
  consider (bad) "b0 < 0xC0" | (two) "0xC0 \<le> b0" "b0 \<le> 0xDF" | (three) "0xE0 \<le> b0" "b0 \<le> 0xEF"
    | (four) "0xF0 \<le> b0" "b0 \<le> 0xF7" | (high) "0xF8 \<le> b0" by linarith
  then show ?thesis
    by cases (simp_all add: seq4_def lead_nat_def lead_classes l True not_less not_le)
qed (simp add: seq4_def lead_nat_def)

lemma lead_nat_size: "lead_nat b0 b1 l20 l30 = Some n \<Longrightarrow> n = 2 \<or> n = 3 \<or> n = 4"
  by (auto simp: lead_nat_def split: if_splits)

lemma seq_len_lead:
  assumes "at_or_0 bs 1 div 64 = 2 \<Longrightarrow> low20 = (at_or_0 bs 1 < 0xA0) \<and> low30 = (at_or_0 bs 1 < 0x90)"
  shows "seq_len bs =
    (case lead_nat (at_or_0 bs 0) (at_or_0 bs 1) low20 low30 of None \<Rightarrow> None
     | Some n \<Rightarrow> if all_cont (n - 1) bs then Some n else None)"
proof -
  have e: "seq_len bs = (case lead_nat (at_or_0 bs 0) (at_or_0 bs 1) low20 low30 of None \<Rightarrow> None
     | Some n \<Rightarrow> if at_or_0 bs 1 div 64 = 2 \<and> (3 \<le> n \<longrightarrow> at_or_0 bs 2 div 64 = 2) \<and>
         (4 \<le> n \<longrightarrow> at_or_0 bs 3 div 64 = 2) then Some n else None)"
    unfolding seq_len_def by (rule seq4_lead) (rule assms)
  show ?thesis
  proof (cases "lead_nat (at_or_0 bs 0) (at_or_0 bs 1) low20 low30")
    case (Some n)
    then have "n = 2 \<or> n = 3 \<or> n = 4" by (rule lead_nat_size)
    then have "all_cont (n - 1) bs \<longleftrightarrow> at_or_0 bs 1 div 64 = 2 \<and> (3 \<le> n \<longrightarrow> at_or_0 bs 2 div 64 = 2) \<and>
        (4 \<le> n \<longrightarrow> at_or_0 bs 3 div 64 = 2)"
      using all_cont_small [of bs] by auto
    with Some show ?thesis unfolding e by simp
  qed (simp add: e)
qed

lemma codepoint_string:
  assumes "s \<noteq> []" "0 \<notin> set s"
  shows "codepoint (s @ 0 # r) 0 (hd s) = Some (seq_len (map unat s))"
proof -
  let ?bs = "map unat s"
  let ?b1 = "word_of_nat (at_or_0 ?bs 1) :: byte"
  from assms have one: "1 \<le> length s" by (simp add: Suc_le_eq)
  have b0: "unat (hd s) = at_or_0 ?bs 0" using assms(1) by (cases s) (auto simp: at_or_0_def)
  have b1: "unat ?b1 = at_or_0 ?bs 1" by (auto simp: at_or_0_def)
  have "seq_len ?bs = (case lead_nat (unat (hd s)) (unat ?b1) (?b1 AND 0x20 = 0) (?b1 AND 0x30 = 0) of
      None \<Rightarrow> None | Some n \<Rightarrow> if all_cont (n - 1) ?bs then Some n else None)"
    unfolding b0 b1 by (rule seq_len_lead) (use byte_bits [of ?b1, unfolded b1] in simp)
  moreover have "rd (s @ 0 # r) (0 + 1) = Some ?b1" using rd_string [OF one, of r] by simp
  note lead_size_nat [OF this]
  moreover have "continuation (s @ 0 # r) (0 + 1) n = Some (all_cont n ?bs)" for n
    using continuation_string [OF one assms(2), of r n] by (simp add: all_cont_def)
  ultimately show ?thesis unfolding codepoint_def by (simp split: option.splits)
qed

lemma cont_div: "(0x80 + x mod 64) div 64 = (2 :: nat)"
  by linarith

lemma seq_len_char:
  assumes "scalar u" "0x80 \<le> u"
  shows "seq_len (utf8_char u @ rest) = Some (length (utf8_char u))"
proof -
  consider (two) "u < 0x800" | (three) "0x800 \<le> u" "u < 0x10000" | (four) "0x10000 \<le> u" by linarith
  then show ?thesis
  proof cases
    case two
    with assms(2) have "2 \<le> u div 64" "u div 64 \<le> 0x1F" by linarith+
    with two assms(2) show ?thesis by (simp add: utf8_char_def seq_len_def seq4_def at_or_0_def cont_div)
  next
    case three
    have d: "u div 64 = u div 4096 * 64 + u div 64 mod 64" using div_mult2_eq [of u 64 64] by simp
    from three have "u div 4096 \<le> 0xF" by linarith
    moreover have "u div 4096 = 0 \<Longrightarrow> 0x20 \<le> u div 64 mod 64" using three d by linarith
    moreover have "u div 4096 = 0xD \<Longrightarrow> u div 64 mod 64 < 0x20" using three assms(1) d
      unfolding scalar_def by linarith
    ultimately show ?thesis using three by (simp add: utf8_char_def seq_len_def seq4_def at_or_0_def cont_div)
  next
    case four
    have d: "u div 4096 = u div 262144 * 64 + u div 4096 mod 64" using div_mult2_eq [of u 4096 64] by simp
    from assms(1) four have top: "u \<le> 0x10FFFF" by (auto simp: scalar_def)
    then have "u div 262144 \<le> 4" by linarith
    moreover have "u div 262144 = 0 \<Longrightarrow> 0x10 \<le> u div 4096 mod 64" using four d by linarith
    moreover have "u div 262144 = 4 \<Longrightarrow> u div 4096 mod 64 < 0x10" using top d by linarith
    ultimately show ?thesis using four by (simp add: utf8_char_def seq_len_def seq4_def at_or_0_def cont_div)
  qed
qed

text \<open>The value a two, three or four byte sequence stands for.\<close>

lemma cont_byte:
  assumes "b div 64 = (2 :: nat)"
  obtains y where "b = 0x80 + y" "y < 64"
proof
  show "b = 0x80 + b mod 64" using assms div_mult_mod_eq [of b 64] by simp
qed simp

lemma digits:
  fixes x y :: nat
  assumes "y < 64"
  shows "(x * 64 + y) div 64 = x" "(x * 64 + y) mod 64 = y"
    "(x * 64 + y) div 4096 = x div 64" "(x * 64 + y) div 262144 = x div 4096"
  using assms div_mult2_eq [of "x * 64 + y" 64 64] div_mult2_eq [of "x * 64 + y" 64 4096] by simp_all

lemma char_of_two:
  assumes "0xC2 \<le> b0" "b0 \<le> 0xDF" "b1 div 64 = 2"
  shows "\<exists>u. scalar u \<and> utf8_char u = [b0, b1]"
proof -
  from assms(1) obtain k where k: "b0 = 0xC2 + k" by (metis le_Suc_ex)
  define x where "x = k + 2"
  with k have x: "b0 = 0xC0 + x" "2 \<le> x" by simp_all
  from assms(3) obtain y where y: "b1 = 0x80 + y" "y < 64" by (rule cont_byte)
  have "0x80 \<le> x * 64 + y" "x * 64 + y < 0x800" using x y assms by linarith+
  then have "scalar (x * 64 + y) \<and> utf8_char (x * 64 + y) = [b0, b1]"
    using x y by (simp add: scalar_def utf8_char_def digits)
  then show ?thesis by blast
qed

lemma char_of_three:
  assumes "0xE0 \<le> b0" "b0 \<le> 0xEF" "b1 div 64 = 2" "b2 div 64 = 2"
    "b0 = 0xE0 \<longrightarrow> 0xA0 \<le> b1" "b0 = 0xED \<longrightarrow> b1 < 0xA0"
  shows "\<exists>u. scalar u \<and> utf8_char u = [b0, b1, b2]"
proof -
  from assms(1) obtain x where x: "b0 = 0xE0 + x" by (metis le_Suc_ex)
  from assms(3) obtain y where y: "b1 = 0x80 + y" "y < 64" by (rule cont_byte)
  from assms(4) obtain z where z: "b2 = 0x80 + z" "z < 64" by (rule cont_byte)
  let ?u = "(x * 64 + y) * 64 + z"
  have lo: "0x800 \<le> ?u" using x y z assms(5) by (cases "x = 0") auto
  have hi: "?u < 0x10000" using x y z assms(2) by simp
  have "x < 13 \<or> x = 13 \<and> y < 32 \<or> 14 \<le> x" using x y assms(6) by (cases "x = 13") auto
  then have "?u < 0xD800 \<or> 0xE000 \<le> ?u" using y z by auto
  with hi have "scalar ?u" unfolding scalar_def by linarith
  have "utf8_char ?u = [0xE0 + ?u div 4096, 0x80 + ?u div 64 mod 64, 0x80 + ?u mod 64]"
    unfolding utf8_char_def using lo hi by simp
  also have "\<dots> = [b0, b1, b2]" unfolding digits [OF z(2)] digits [OF y(2)] x y(1) z(1) by simp
  finally show ?thesis using \<open>scalar ?u\<close> by blast
qed

lemma char_of_four:
  assumes "0xF0 \<le> b0" "b0 \<le> 0xF4" "b1 div 64 = 2" "b2 div 64 = 2" "b3 div 64 = 2"
    "b0 = 0xF0 \<longrightarrow> 0x90 \<le> b1" "b0 = 0xF4 \<longrightarrow> b1 < 0x90"
  shows "\<exists>u. scalar u \<and> utf8_char u = [b0, b1, b2, b3]"
proof -
  from assms(1) obtain x where x: "b0 = 0xF0 + x" by (metis le_Suc_ex)
  from assms(3) obtain y where y: "b1 = 0x80 + y" "y < 64" by (rule cont_byte)
  from assms(4) obtain z where z: "b2 = 0x80 + z" "z < 64" by (rule cont_byte)
  from assms(5) obtain v where v: "b3 = 0x80 + v" "v < 64" by (rule cont_byte)
  let ?u = "((x * 64 + y) * 64 + z) * 64 + v"
  have lo: "0x10000 \<le> ?u" using x y z v assms(6) by (cases "x = 0") auto
  have hi: "?u \<le> 0x10FFFF" using x y z v assms(2,7) by (cases "x = 4") auto
  from lo hi have "scalar ?u" unfolding scalar_def by linarith
  have "utf8_char ?u = [0xF0 + ?u div 262144, 0x80 + ?u div 4096 mod 64, 0x80 + ?u div 64 mod 64, 0x80 + ?u mod 64]"
    unfolding utf8_char_def using lo hi by simp
  also have "\<dots> = [b0, b1, b2, b3]"
    unfolding digits [OF v(2)] digits [OF z(2)] digits [OF y(2)] x y(1) z(1) v(1) by simp
  finally show ?thesis using \<open>scalar ?u\<close> by blast
qed

lemma if_chain:
  "(if A then Some x else if B then Some y else if C then Some z else None) = Some n \<Longrightarrow>
    A \<and> n = x \<or> B \<and> n = y \<or> C \<and> n = z"
  by (auto split: if_splits)

lemma seq4_char:
  assumes "seq4 b0 b1 b2 b3 = Some n"
  shows "(\<exists>u. scalar u \<and> utf8_char u = take n [b0, b1, b2, b3]) \<and> (n = 2 \<or> n = 3 \<or> n = 4) \<and> b1 div 64 = 2 \<and>
    (3 \<le> n \<longrightarrow> b2 div 64 = 2) \<and> (4 \<le> n \<longrightarrow> b3 div 64 = 2)"
proof -
  consider (two) "n = 2" "0xC2 \<le> b0" "b0 \<le> 0xDF" "b1 div 64 = 2"
    | (three) "n = 3" "0xE0 \<le> b0" "b0 \<le> 0xEF" "b1 div 64 = 2" "b2 div 64 = 2"
        "b0 = 0xE0 \<longrightarrow> 0xA0 \<le> b1" "b0 = 0xED \<longrightarrow> b1 < 0xA0"
    | (four) "n = 4" "0xF0 \<le> b0" "b0 \<le> 0xF4" "b1 div 64 = 2" "b2 div 64 = 2" "b3 div 64 = 2"
        "b0 = 0xF0 \<longrightarrow> 0x90 \<le> b1" "b0 = 0xF4 \<longrightarrow> b1 < 0x90"
    using if_chain [OF assms [unfolded seq4_def]] by metis
  then show ?thesis
    by cases (use char_of_two [of b0 b1] char_of_three [of b0 b1 b2] char_of_four [of b0 b1 b2 b3] in simp_all)
qed

lemma seq_len_split:
  assumes "seq_len bs = Some n"
  shows "\<exists>u rest. scalar u \<and> bs = utf8_char u @ rest \<and> n = length (utf8_char u)"
proof -
  let ?b = "at_or_0 bs"
  have len: "?b k div 64 = 2 \<Longrightarrow> k < length bs" for k by (auto simp: at_or_0_def split: if_splits)
  from seq4_char [OF assms [unfolded seq_len_def]] obtain u where
    u: "scalar u" "utf8_char u = take n [?b 0, ?b 1, ?b 2, ?b 3]" and n: "n = 2 \<or> n = 3 \<or> n = 4"
    and c: "?b 1 div 64 = 2" "3 \<le> n \<longrightarrow> ?b 2 div 64 = 2" "4 \<le> n \<longrightarrow> ?b 3 div 64 = 2" by blast
  have l: "n \<le> length bs" using n c len [of 1] len [of 2] len [of 3] by auto
  have "map ?b [0..<n] = take n [?b 0, ?b 1, ?b 2, ?b 3]" using n by (auto simp: upt_rec numeral_2_eq_2 numeral_3_eq_3)
  moreover have "take n bs = map ?b [0..<n]" using l by (intro nth_equalityI) (auto simp: at_or_0_def)
  ultimately have "take n bs = utf8_char u" using u(2) by simp
  with u(1) l show ?thesis by (metis append_take_drop_id length_take min.absorb2)
qed

text \<open>The loop on a string: accepted exactly when it is the encoding of scalar values.\<close>

definition utf8_seq :: "nat list \<Rightarrow> bool" where
  "utf8_seq bs \<longleftrightarrow> (\<exists>us. list_all scalar us \<and> bs = concat (map utf8_char us))"

lemma utf8_seq_Nil [simp]: "utf8_seq []"
  unfolding utf8_seq_def by (rule exI [of _ "[]"]) simp

lemma utf8_char_nonempty: "utf8_char u \<noteq> []"
  by (simp add: utf8_char_def)

lemma utf8_seq_append: "scalar u \<Longrightarrow> utf8_seq bs \<Longrightarrow> utf8_seq (utf8_char u @ bs)"
proof -
  assume u: "scalar u" and "utf8_seq bs"
  then obtain us where "list_all scalar us" "bs = concat (map utf8_char us)" unfolding utf8_seq_def by blast
  with u show ?thesis unfolding utf8_seq_def by (intro exI [of _ "u # us"]) simp
qed

lemma utf8_seq_cases:
  assumes "utf8_seq bs" "bs \<noteq> []"
  obtains u rest where "scalar u" "bs = utf8_char u @ rest" "utf8_seq rest"
proof -
  from assms obtain us where us: "list_all scalar us" "bs = concat (map utf8_char us)"
    unfolding utf8_seq_def by blast
  with assms(2) obtain u us' where "us = u # us'" by (cases us) auto
  with us show ?thesis by (intro that [of u "concat (map utf8_char us')"]) (auto simp: utf8_seq_def)
qed

lemma utf8_seq_ascii: "b < 0x80 \<Longrightarrow> utf8_seq (b # bs) \<longleftrightarrow> utf8_seq bs"
proof
  assume b: "b < 0x80"
  assume "utf8_seq (b # bs)"
  then obtain u rest where u: "scalar u" "b # bs = utf8_char u @ rest" "utf8_seq rest"
    by (rule utf8_seq_cases) simp
  with b have "u < 0x80" by (auto simp: utf8_char_def split: if_splits)
  with u show "utf8_seq bs" by (simp add: utf8_char_def)
next
  assume b: "b < 0x80"
  assume "utf8_seq bs"
  moreover from b have "scalar b" "utf8_char b = [b]" by (auto simp: scalar_def utf8_char_def)
  ultimately show "utf8_seq (b # bs)" using utf8_seq_append [of b bs] by simp
qed

lemma utf8_seq_multi:
  assumes "bs \<noteq> []" "0x80 \<le> hd bs"
  shows "utf8_seq bs \<longleftrightarrow> (\<exists>n. seq_len bs = Some n \<and> 0 < n \<and> n \<le> length bs \<and> utf8_seq (drop n bs))"
proof
  assume "utf8_seq bs"
  then obtain u rest where u: "scalar u" "bs = utf8_char u @ rest" "utf8_seq rest"
    using assms(1) by (rule utf8_seq_cases)
  with assms(2) have "0x80 \<le> u" by (auto simp: utf8_char_def split: if_splits)
  with u show "\<exists>n. seq_len bs = Some n \<and> 0 < n \<and> n \<le> length bs \<and> utf8_seq (drop n bs)"
    using seq_len_char [of u rest] utf8_char_nonempty [of u] by auto
next
  assume "\<exists>n. seq_len bs = Some n \<and> 0 < n \<and> n \<le> length bs \<and> utf8_seq (drop n bs)"
  then obtain n where n: "seq_len bs = Some n" "utf8_seq (drop n bs)" by blast
  with seq_len_split [OF n(1)] show "utf8_seq bs" by (auto intro: utf8_seq_append)
qed

lemma seq_len_bound: "seq_len bs = Some n \<Longrightarrow> 0 < n \<and> n \<le> length bs"
  using seq_len_split utf8_char_nonempty by fastforce

lemma validate_from_string:
  assumes "0 \<notin> set s" "ptr = pre @ s @ 0 # r"
  shows "validate_from ptr (length pre) =
    Some (if utf8_seq (map unat s) then sint (word_of_nat (length pre + length s) :: 32 word) else - 1)"
  using assms
proof (induction "length s" arbitrary: pre s rule: less_induct)
  case less
  have dr: "drop (length pre) ptr = s @ 0 # r" using less.prems by simp
  show ?case
  proof (cases s)
    case Nil
    with less.prems show ?thesis by (subst validate_from.simps) (simp add: rd_def)
  next
    case (Cons b s')
    have rd: "rd ptr (length pre) = Some b" using less.prems Cons by (simp add: rd_def)
    have b: "b \<noteq> 0" "0 \<notin> set s'" using less.prems Cons by auto
    show ?thesis
    proof (cases "b \<le> 0x7F")
      case True
      then have "unat b < 0x80" unfolding byte_ranges by simp
      then have u: "utf8_seq (map unat s) \<longleftrightarrow> utf8_seq (map unat s')" unfolding Cons by (simp add: utf8_seq_ascii)
      have "ptr = (pre @ [b]) @ s' @ 0 # r" using less.prems Cons by simp
      from less.hyps [OF _ b(2) this] rd b(1) True show ?thesis
        unfolding u by (subst validate_from.simps) (simp add: Cons)
    next
      case False
      then have "0x80 \<le> hd (map unat s)" unfolding byte_ranges Cons by simp
      then have u: "utf8_seq (map unat s) \<longleftrightarrow>
          (\<exists>n. seq_len (map unat s) = Some n \<and> 0 < n \<and> n \<le> length s \<and> utf8_seq (map unat (drop n s)))"
        using utf8_seq_multi [of "map unat s"] Cons unfolding drop_map length_map by blast
      have cp: "codepoint ptr (length pre) b = Some (seq_len (map unat s))"
        using codepoint_string [of s r] less.prems(1) Cons unfolding codepoint_drop [of ptr "length pre"] dr by simp
      show ?thesis
      proof (cases "seq_len (map unat s)")
        case None
        with u rd b(1) False cp show ?thesis by (subst validate_from.simps) simp
      next
        case (Some n)
        with seq_len_bound [OF this] have n: "0 < n" "n \<le> length s" by simp_all
        have "ptr = (pre @ take n s) @ drop n s @ 0 # r" using less.prems by simp
        moreover have "0 \<notin> set (drop n s)" using less.prems(1) by (meson in_set_dropD)
        ultimately have "validate_from ptr (length pre + n) = Some (if utf8_seq (map unat (drop n s))
            then sint (word_of_nat (length pre + length s) :: 32 word) else - 1)"
          using less.hyps [of "drop n s" "pre @ take n s"] n by simp
        with u Some n rd b(1) False cp show ?thesis by (subst validate_from.simps) simp
      qed
    qed
  qed
qed

lemma sint_small: "n < 2 ^ 31 \<Longrightarrow> sint (word_of_nat n :: 32 word) = int n"
  by (simp add: sint_uint unsigned_of_nat take_bit_nat_eq_self signed_take_bit_int_eq_self)

lemma utf8_char_bytes: "scalar u \<Longrightarrow> b \<in> set (utf8_char u) \<Longrightarrow> b < 256"
  by (auto simp: utf8_char_def scalar_def split: if_splits)

lemma utf8_seq_encode: "utf8_seq (map unat (s :: byte list)) \<longleftrightarrow> (\<exists>us. list_all scalar us \<and> s = encode_utf8 us)"
proof -
  have "map unat s = concat (map utf8_char us) \<longleftrightarrow> s = encode_utf8 us" if us: "list_all scalar us" for us
  proof
    assume "map unat s = concat (map utf8_char us)"
    then have "encode_utf8 us = map (word_of_nat \<circ> unat) s" unfolding encode_utf8_def by (simp flip: map_map)
    then show "s = encode_utf8 us" by (simp add: comp_def)
  next
    assume "s = encode_utf8 us"
    then have "map unat s = map (\<lambda>b. unat (word_of_nat b :: byte)) (concat (map utf8_char us))"
      by (simp add: encode_utf8_def comp_def)
    also have "\<dots> = concat (map utf8_char us)"
      using us utf8_char_bytes by (intro map_idI) (auto simp: list_all_iff unat_of_nat)
    finally show "map unat s = concat (map utf8_char us)" .
  qed
  then show ?thesis unfolding utf8_seq_def by blast
qed

section \<open>Properties\<close>

text \<open>C21: \<open>validate_utf8\<close> on a NUL-terminated string of less than 2 GiB never reads behind the
  terminator, always ends, and \<open>wasi_string_from_c\<close> accepts the string, with its full length,
  exactly when its bytes are the UTF-8 encoding of a sequence of Unicode scalar values (no
  overlong form, no surrogate, nothing above U+10FFFF); any other string is \<open>EILSEQ\<close>.\<close>

theorem wasi_string_iff_utf8:
  assumes "0 \<notin> set s" "length s < 2 ^ 31"
  shows "wasi_string_from_c (s @ 0 # r) h =
    (if \<exists>us. list_all scalar us \<and> s = encode_utf8 us then Ret (s @ 0 # r, length s) h else Err EILSEQ h)"
  using validate_from_string [OF assms(1), of "s @ 0 # r" "[]" r] assms(2)
  by (simp add: wasi_string_from_c_def validate_utf8_def sint_small flip: utf8_seq_encode)

theorem wasi_string_iff_utf8_witness:
  "wasi_string_from_c [0x68, 0xC3, 0xA9, 0] () = Ret ([0x68, 0xC3, 0xA9, 0], 3) () \<and>
   wasi_string_from_c [0xED, 0xA0, 0x80, 0] () = Err EILSEQ ()"
proof -
  have "\<exists>us. list_all scalar us \<and> [0x68, 0xC3, 0xA9] = encode_utf8 us"
    by (rule exI [of _ "[0x68, 0xE9]"]) (simp add: scalar_def encode_utf8_def utf8_char_def)
  with wasi_string_iff_utf8 [of "[0x68, 0xC3, 0xA9]" "[]" "()"]
  have "wasi_string_from_c [0x68, 0xC3, 0xA9, 0] () = Ret ([0x68, 0xC3, 0xA9, 0], 3) ()" by simp
  moreover have "wasi_string_from_c [0xED, 0xA0, 0x80, 0] () = Err EILSEQ ()"
    by (simp add: wasi_string_from_c_def validate_utf8_def validate_from.simps rd_def codepoint_def lead_size_def)
  ultimately show ?thesis ..
qed

end
