(* ===== verification/Time_Conv.thy ===== *)
theory Time_Conv
  imports Prelude
begin

text \<open>
  The conversions of \<^verbatim>\<open>libc-bottom-half/cloudlibc/src/common/time.h\<close> between the C times
  and the times of the host: a 64-bit count of nanoseconds (WASIp1 timestamps, monotonic instants
  and durations) or a pair of seconds and nanoseconds (WASIp2 and WASIp3). \<open>time_t\<close> is a signed
  64-bit word, \<open>long\<close> a signed 32-bit one; the checked arithmetic of the compiler is exact, and
  says whether the result fits.
\<close>

section \<open>Data\<close>

record timespec =
  tv_sec :: "64 word"
  tv_nsec :: "32 word"

record timeval =
  tvl_sec :: "64 word"
  tvl_usec :: "64 word"

text \<open>\<open>wall_clock_datetime_t\<close> (unsigned seconds) and \<open>filesystem_instant_t\<close> (signed seconds).\<close>

record datetime =
  seconds :: "64 word"
  nanoseconds :: "32 word"

abbreviation NSEC_PER_SEC :: int where "NSEC_PER_SEC \<equiv> 1000000000"
abbreviation USEC_PER_SEC :: int where "USEC_PER_SEC \<equiv> 1000000"

text \<open>\<open>__builtin_mul_overflow\<close> and \<open>__builtin_add_overflow\<close> into an unsigned 64-bit result.\<close>

definition store_u64 :: "int \<Rightarrow> bool \<times> 64 word" where
  "store_u64 x = (x < 0 \<or> 2 ^ 64 \<le> x, word_of_int x)"

section \<open>Conversions\<close>

definition valid_nsec :: "timespec \<Rightarrow> bool" where
  "valid_nsec ts \<longleftrightarrow> \<not> (sint (tv_nsec ts) < 0 \<or> sint (tv_nsec ts) \<ge> NSEC_PER_SEC)"

definition timespec_to_timestamp_exact_p1 :: "timespec \<Rightarrow> 64 word option" where
  "timespec_to_timestamp_exact_p1 ts =
     (if \<not> valid_nsec ts then None
      else if sint (tv_sec ts) < 0 then None
      else case store_u64 (sint (tv_sec ts) * NSEC_PER_SEC) of
          (True, _) \<Rightarrow> None
        | (False, timestamp) \<Rightarrow>
            (case store_u64 (uint timestamp + sint (tv_nsec ts)) of
               (True, _) \<Rightarrow> None
             | (False, timestamp) \<Rightarrow> Some timestamp))"

definition timespec_to_timestamp_exact :: "wasi_version \<Rightarrow> timespec \<Rightarrow> datetime option" where
  "timespec_to_timestamp_exact v ts =
     (if \<not> valid_nsec ts then None
      else if v = P2 \<and> sint (tv_sec ts) < 0 then None
      else Some \<lparr>seconds = tv_sec ts, nanoseconds = tv_nsec ts\<rparr>)"

text \<open>The clamped count of nanoseconds; \<open>timespec_to_instant_clamp\<close> has the same body.\<close>

definition clamp_ns :: "int \<Rightarrow> int \<Rightarrow> 64 word" where
  "clamp_ns sec nsec =
     (if sec < 0 then 0
      else case store_u64 (sec * NSEC_PER_SEC) of
          (True, _) \<Rightarrow> - 1
        | (False, timestamp) \<Rightarrow>
            (case store_u64 (uint timestamp + nsec) of (True, _) \<Rightarrow> - 1 | (False, timestamp) \<Rightarrow> timestamp))"

definition timespec_to_timestamp_clamp_p1 :: "timespec \<Rightarrow> 64 word option" where
  "timespec_to_timestamp_clamp_p1 ts =
     (if \<not> valid_nsec ts then None else Some (clamp_ns (sint (tv_sec ts)) (sint (tv_nsec ts))))"

definition timespec_to_timestamp_clamp :: "wasi_version \<Rightarrow> timespec \<Rightarrow> datetime option" where
  "timespec_to_timestamp_clamp v ts =
     (if \<not> valid_nsec ts then None
      else if v = P2 \<and> sint (tv_sec ts) < 0 then Some \<lparr>seconds = 0, nanoseconds = 0\<rparr>
      else Some \<lparr>seconds = tv_sec ts, nanoseconds = tv_nsec ts\<rparr>)"

definition timestamp_to_timespec_p1 :: "64 word \<Rightarrow> timespec" where
  "timestamp_to_timespec_p1 timestamp =
     \<lparr>tv_sec = timestamp div 1000000000, tv_nsec = ucast (timestamp mod 1000000000)\<rparr>"

definition timestamp_to_timeval_p1 :: "64 word \<Rightarrow> timeval" where
  "timestamp_to_timeval_p1 timestamp =
     (let ts = timestamp_to_timespec_p1 timestamp in
      \<lparr>tvl_sec = tv_sec ts, tvl_usec = word_of_int (sint (tv_nsec ts) div 1000)\<rparr>)"

definition timestamp_to_timespec :: "wasi_version \<Rightarrow> datetime \<Rightarrow> timespec" where
  "timestamp_to_timespec v timestamp =
     (if v = P2 \<and> uint (seconds timestamp) > 2 ^ 63 - 1
      then \<lparr>tv_sec = 2 ^ 63 - 1, tv_nsec = 999999999\<rparr>
      else \<lparr>tv_sec = seconds timestamp, tv_nsec = nanoseconds timestamp\<rparr>)"

definition instant_to_timespec :: "64 word \<Rightarrow> timespec" where
  "instant_to_timespec ns = \<lparr>tv_sec = ns div 1000000000, tv_nsec = ucast (ns mod 1000000000)\<rparr>"

definition timespec_to_instant_clamp :: "timespec \<Rightarrow> 64 word option" where
  "timespec_to_instant_clamp ts =
     (if \<not> valid_nsec ts then None else Some (clamp_ns (sint (tv_sec ts)) (sint (tv_nsec ts))))"

definition instant_to_timeval :: "64 word \<Rightarrow> timeval" where
  "instant_to_timeval ns = \<lparr>tvl_sec = ns div 1000000000, tvl_usec = ns mod 1000000000 div 1000\<rparr>"

definition duration_to_timeval :: "64 word \<Rightarrow> timeval" where
  "duration_to_timeval ns = \<lparr>tvl_sec = ns div 1000000000, tvl_usec = ns mod 1000000000 div 1000\<rparr>"

definition timeval_to_duration :: "timeval \<Rightarrow> 64 word option" where
  "timeval_to_duration tv =
     (if sint (tvl_usec tv) < 0 \<or> sint (tvl_usec tv) \<ge> USEC_PER_SEC then None
      else Some (clamp_ns (sint (tvl_sec tv)) (sint (tvl_usec tv * 1000))))"

definition timestamp_to_timeval :: "wasi_version \<Rightarrow> datetime \<Rightarrow> timeval" where
  "timestamp_to_timeval v timestamp =
     (if v = P2 \<and> uint (seconds timestamp) > 2 ^ 63 - 1
      then \<lparr>tvl_sec = 2 ^ 63 - 1, tvl_usec = 999999\<rparr>
      else \<lparr>tvl_sec = seconds timestamp, tvl_usec = ucast (nanoseconds timestamp div 1000)\<rparr>)"

section \<open>Lemmas\<close>

lemma store_u64_fits: "0 \<le> x \<Longrightarrow> x < 2 ^ 64 \<Longrightarrow> store_u64 x = (False, word_of_int x) \<and> uint (word_of_int x :: 64 word) = x"
  by (simp add: store_u64_def unsigned_of_int take_bit_int_eq_self)

lemma store_u64_over: "x < 0 \<or> 2 ^ 64 \<le> x \<Longrightarrow> store_u64 x = (True, word_of_int x)"
  by (auto simp: store_u64_def)

lemma uint_max_64 [simp]: "uint (- 1 :: 64 word) = 2 ^ 64 - 1"
  by (simp add: unsigned_minus_1_eq_mask mask_eq_exp_minus_1)

text \<open>The value of the clamped conversion.\<close>

lemma clamp_ns_value:
  assumes "0 \<le> nsec" "nsec < NSEC_PER_SEC"
  shows "uint (clamp_ns sec nsec) = max 0 (min (2 ^ 64 - 1) (sec * NSEC_PER_SEC + nsec))"
proof -
  consider (neg) "sec < 0" | (big) "0 \<le> sec" "2 ^ 64 \<le> sec * NSEC_PER_SEC"
    | (over) "0 \<le> sec" "sec * NSEC_PER_SEC < 2 ^ 64" "2 ^ 64 \<le> sec * NSEC_PER_SEC + nsec"
    | (fits) "0 \<le> sec" "sec * NSEC_PER_SEC < 2 ^ 64" "sec * NSEC_PER_SEC + nsec < 2 ^ 64" by linarith
  then show ?thesis
  proof cases
    case neg
    then have "sec * NSEC_PER_SEC + nsec \<le> 0" using assms by linarith
    with neg show ?thesis by (simp add: clamp_ns_def)
  next
    case big
    then show ?thesis using assms store_u64_over [of "sec * NSEC_PER_SEC"] by (simp add: clamp_ns_def)
  next
    case over
    then show ?thesis
      using assms store_u64_fits [of "sec * NSEC_PER_SEC"] store_u64_over [of "sec * NSEC_PER_SEC + nsec"]
      by (simp add: clamp_ns_def)
  next
    case fits
    then show ?thesis
      using assms store_u64_fits [of "sec * NSEC_PER_SEC"] store_u64_fits [of "sec * NSEC_PER_SEC + nsec"]
      by (simp add: clamp_ns_def)
  qed
qed

lemma exact_p1_iff:
  "timespec_to_timestamp_exact_p1 ts = Some t \<longleftrightarrow>
     valid_nsec ts \<and> 0 \<le> sint (tv_sec ts) \<and> uint t = sint (tv_sec ts) * NSEC_PER_SEC + sint (tv_nsec ts)"
proof (cases "valid_nsec ts \<and> 0 \<le> sint (tv_sec ts)")
  case True
  let ?p = "sint (tv_sec ts) * NSEC_PER_SEC" and ?n = "sint (tv_nsec ts)"
  have n: "0 \<le> ?n" and p: "0 \<le> ?p" using True by (simp_all add: valid_nsec_def)
  have t: "0 \<le> uint t" "uint t < 2 ^ 64" using unsigned_less [of t, where 'a = int] by simp_all
  show ?thesis
  proof (cases "?p + ?n < 2 ^ 64")
    case fits: True
    with n have "?p < 2 ^ 64" by linarith
    with fits n p True have e: "timespec_to_timestamp_exact_p1 ts = Some (word_of_int (?p + ?n))"
      using store_u64_fits [of ?p] store_u64_fits [of "?p + ?n"]
      by (simp add: timespec_to_timestamp_exact_p1_def)
    from fits n p have "uint (word_of_int (?p + ?n) :: 64 word) = ?p + ?n" using store_u64_fits [of "?p + ?n"] by simp
    with e True show ?thesis by (metis option.inject word_of_int_uint)
  next
    case False
    have "timespec_to_timestamp_exact_p1 ts = None"
    proof (cases "?p < 2 ^ 64")
      case small: True
      with False True p show ?thesis
        using store_u64_fits [of ?p] store_u64_over [of "?p + ?n"] by (simp add: timespec_to_timestamp_exact_p1_def)
    next
      case big: False
      with True show ?thesis using store_u64_over [of ?p] by (simp add: timespec_to_timestamp_exact_p1_def)
    qed
    with False t show ?thesis by auto
  qed
qed (auto simp: timespec_to_timestamp_exact_p1_def)

text \<open>Splitting a count of nanoseconds.\<close>

lemma sint_small_64: "uint (w :: 64 word) < 2 ^ 63 \<Longrightarrow> sint w = uint w"
  by (simp add: sint_uint signed_take_bit_int_eq_self order_trans [of _ 0])

lemma sint_small_32: "uint (w :: 32 word) < 2 ^ 31 \<Longrightarrow> sint w = uint w"
  by (simp add: sint_uint signed_take_bit_int_eq_self order_trans [of _ 0])

lemma uint_split_ns:
  fixes ns :: "64 word"
  shows "uint (ns div 1000000000) = uint ns div NSEC_PER_SEC" "uint (ns mod 1000000000) = uint ns mod NSEC_PER_SEC"
    "uint (ns mod 1000000000 div 1000) = uint ns mod NSEC_PER_SEC div 1000"
  by (simp_all add: uint_div_distrib uint_mod_distrib)

lemma instant_parts:
  fixes ns :: "64 word"
  shows "sint (ns div 1000000000) = uint ns div NSEC_PER_SEC"
    and "sint (ucast (ns mod 1000000000) :: 32 word) = uint ns mod NSEC_PER_SEC"
proof -
  have "uint ns < 2 ^ 64" using unsigned_less [of ns, where 'a = int] by simp
  then have "uint (ns div 1000000000) < 2 ^ 63" unfolding uint_split_ns by simp
  then show "sint (ns div 1000000000) = uint ns div NSEC_PER_SEC" by (simp add: sint_small_64 uint_split_ns)
  have m: "0 \<le> uint ns mod NSEC_PER_SEC" "uint ns mod NSEC_PER_SEC < NSEC_PER_SEC" by simp_all
  have u: "uint (ucast (ns mod 1000000000) :: 32 word) = uint ns mod NSEC_PER_SEC"
    using m by (simp add: unsigned_ucast_eq uint_split_ns take_bit_int_eq_self)
  with m show "sint (ucast (ns mod 1000000000) :: 32 word) = uint ns mod NSEC_PER_SEC"
    by (simp add: sint_small_32)
qed

lemma timespec_to_timespec_p1: "valid_nsec (timestamp_to_timespec_p1 t)"
  by (simp add: valid_nsec_def timestamp_to_timespec_p1_def instant_parts not_less not_le)

lemma usec_scaled: "0 \<le> sint w \<Longrightarrow> sint w < USEC_PER_SEC \<Longrightarrow> sint (w * 1000 :: 64 word) = sint w * 1000"
  by (simp add: sint_word_ariths signed_take_bit_int_eq_self)

lemma clamp_ns_eq:
  "0 \<le> nsec \<Longrightarrow> nsec < NSEC_PER_SEC \<Longrightarrow>
   clamp_ns sec nsec = word_of_int (max 0 (min (2 ^ 64 - 1) (sec * NSEC_PER_SEC + nsec)))"
  using clamp_ns_value [of nsec sec] by (metis word_of_int_uint)

section \<open>Properties\<close>

text \<open>C23: Times and 64-bit counts of nanoseconds. Every count splits into a time that converts
  back to it, by the exact and by the clamping conversion alike; and the exact conversion accepts a
  time exactly when its nanoseconds are in range and the total is a 64-bit count, and then gives
  that total, from which the time is recovered.\<close>

theorem timestamp_roundtrip:
  "timespec_to_timestamp_exact_p1 (timestamp_to_timespec_p1 t) = Some t \<and>
   timespec_to_timestamp_clamp_p1 (timestamp_to_timespec_p1 t) = Some t \<and>
   timespec_to_instant_clamp (instant_to_timespec t) = Some t \<and>
   (timespec_to_timestamp_exact_p1 ts = Some t \<longleftrightarrow>
      0 \<le> sint (tv_nsec ts) \<and> sint (tv_nsec ts) < NSEC_PER_SEC \<and> 0 \<le> sint (tv_sec ts) \<and>
      uint t = sint (tv_sec ts) * NSEC_PER_SEC + sint (tv_nsec ts)) \<and>
   (timespec_to_timestamp_exact_p1 ts = Some t \<longleftrightarrow> timestamp_to_timespec_p1 t = ts)"
proof (intro conjI)
  have sum: "uint t div NSEC_PER_SEC * NSEC_PER_SEC + uint t mod NSEC_PER_SEC = uint t" by simp
  have nn: "0 \<le> uint t div NSEC_PER_SEC" by (simp add: pos_imp_zdiv_nonneg_iff)
  show rt: "timespec_to_timestamp_exact_p1 (timestamp_to_timespec_p1 t) = Some t"
    unfolding exact_p1_iff using timespec_to_timespec_p1 [of t] sum nn
    by (simp add: timestamp_to_timespec_p1_def instant_parts)
  have "uint (clamp_ns (uint t div NSEC_PER_SEC) (uint t mod NSEC_PER_SEC)) = uint t"
    using unsigned_less [of t, where 'a = int] by (subst clamp_ns_value) simp_all
  then have c: "clamp_ns (uint t div NSEC_PER_SEC) (uint t mod NSEC_PER_SEC) = t" by (simp only: word_uint_eq_iff)
  then show "timespec_to_timestamp_clamp_p1 (timestamp_to_timespec_p1 t) = Some t"
    using timespec_to_timespec_p1 [of t]
    by (simp add: timespec_to_timestamp_clamp_p1_def timestamp_to_timespec_p1_def instant_parts)
  show "timespec_to_instant_clamp (instant_to_timespec t) = Some t"
    using c by (simp add: timespec_to_instant_clamp_def instant_to_timespec_def valid_nsec_def instant_parts not_less not_le)
  show "timespec_to_timestamp_exact_p1 ts = Some t \<longleftrightarrow>
      0 \<le> sint (tv_nsec ts) \<and> sint (tv_nsec ts) < NSEC_PER_SEC \<and> 0 \<le> sint (tv_sec ts) \<and>
      uint t = sint (tv_sec ts) * NSEC_PER_SEC + sint (tv_nsec ts)"
    unfolding exact_p1_iff valid_nsec_def by auto
  show "timespec_to_timestamp_exact_p1 ts = Some t \<longleftrightarrow> timestamp_to_timespec_p1 t = ts"
  proof
    assume "timespec_to_timestamp_exact_p1 ts = Some t"
    then have "0 \<le> sint (tv_nsec ts)" "sint (tv_nsec ts) < NSEC_PER_SEC"
      "uint t = sint (tv_sec ts) * NSEC_PER_SEC + sint (tv_nsec ts)"
      unfolding exact_p1_iff valid_nsec_def by auto
    then have "uint t div NSEC_PER_SEC = sint (tv_sec ts)" "uint t mod NSEC_PER_SEC = sint (tv_nsec ts)"
      by simp_all
    then have "sint (tv_sec (timestamp_to_timespec_p1 t)) = sint (tv_sec ts)"
      "sint (tv_nsec (timestamp_to_timespec_p1 t)) = sint (tv_nsec ts)"
      by (simp_all add: timestamp_to_timespec_p1_def instant_parts)
    then show "timestamp_to_timespec_p1 t = ts" by (simp add: signed_word_eqI)
  qed (use rt in auto)
qed

text \<open>C24: The clamping conversions reject exactly the times whose sub-second field is out of
  range, and saturate every other one: the count of nanoseconds is the total, or 0 below the epoch,
  or \<open>2\<^sup>6\<^sup>4 - 1\<close> above the range, although the product and the sum are computed in 64 bits.\<close>

theorem clamp_saturates:
  "timespec_to_timestamp_clamp_p1 ts =
     (if 0 \<le> sint (tv_nsec ts) \<and> sint (tv_nsec ts) < NSEC_PER_SEC
      then Some (word_of_int (max 0 (min (2 ^ 64 - 1) (sint (tv_sec ts) * NSEC_PER_SEC + sint (tv_nsec ts)))))
      else None) \<and>
   timespec_to_instant_clamp ts = timespec_to_timestamp_clamp_p1 ts \<and>
   timeval_to_duration tv =
     (if 0 \<le> sint (tvl_usec tv) \<and> sint (tvl_usec tv) < USEC_PER_SEC
      then Some (word_of_int (max 0 (min (2 ^ 64 - 1) (sint (tvl_sec tv) * NSEC_PER_SEC + sint (tvl_usec tv) * 1000))))
      else None)"
  by (auto simp: timespec_to_timestamp_clamp_p1_def timespec_to_instant_clamp_def timeval_to_duration_def
      valid_nsec_def usec_scaled clamp_ns_eq)

end
