(* ===== verification/Stat_Impl.thy ===== *)
theory Stat_Impl
  imports Time_Conv
begin

text \<open>
  File metadata: \<^verbatim>\<open>libc-bottom-half/cloudlibc/src/libc/sys/stat/stat_impl.h\<close>, which
  turns the answers of the host into a \<open>struct stat\<close> and the times given to \<open>utimensat\<close> into
  requests of the host, the directory entry types of \<^verbatim>\<open>headers/private/wasi/file_utils.h\<close>
  and their conversions in \<^verbatim>\<open>sources/__wasilibc_dt.c\<close>.
\<close>

section \<open>Data\<close>

text \<open>\<open>filesystem_descriptor_type_t\<close>; \<open>T_unknown\<close> is \<open>unknown\<close> in WASIp2 and \<open>other\<close> in WASIp3.\<close>

datatype descriptor_type = T_unknown | T_block_device | T_character_device | T_directory | T_fifo
  | T_symbolic_link | T_regular_file | T_socket

text \<open>\<open>__wasi_filetype_t\<close>\<close>

datatype filetype = FT_unknown | FT_block_device | FT_character_device | FT_directory
  | FT_regular_file | FT_socket_dgram | FT_socket_stream | FT_symbolic_link

abbreviation (input) S_IFBLK :: "32 word" where "S_IFBLK \<equiv> 0x6000"
abbreviation (input) S_IFCHR :: "32 word" where "S_IFCHR \<equiv> 0x2000"
abbreviation (input) S_IFDIR :: "32 word" where "S_IFDIR \<equiv> 0x4000"
abbreviation (input) S_IFLNK :: "32 word" where "S_IFLNK \<equiv> 0xA000"
abbreviation (input) S_IFREG :: "32 word" where "S_IFREG \<equiv> 0x8000"
abbreviation (input) S_IFSOCK :: "32 word" where "S_IFSOCK \<equiv> 0xC000"
abbreviation (input) S_IFIFO :: "32 word" where "S_IFIFO \<equiv> 0x1000"

definition S_IFMT :: "32 word" where
  "S_IFMT = S_IFBLK OR S_IFCHR OR S_IFDIR OR S_IFIFO OR S_IFLNK OR S_IFREG OR S_IFSOCK"

record descriptor_stat =
  ds_type :: descriptor_type
  ds_link_count :: "64 word"
  ds_size :: "64 word"
  ds_atim :: "datetime option"
  ds_mtim :: "datetime option"
  ds_ctim :: "datetime option"

record filestat =
  fs_dev :: "64 word"
  fs_ino :: "64 word"
  fs_filetype :: filetype
  fs_nlink :: "64 word"
  fs_size :: "64 word"
  fs_atim :: "64 word"
  fs_mtim :: "64 word"
  fs_ctim :: "64 word"

text \<open>The fields of \<open>struct stat\<close> that are ever set; the others are zero.\<close>

record stat =
  st_dev :: "64 word"
  st_ino :: "64 word"
  st_nlink :: "64 word"
  st_mode :: "32 word"
  st_size :: "64 word"
  st_atim :: timespec
  st_mtim :: timespec
  st_ctim :: timespec

section \<open>Operations\<close>

definition to_public_stat_p1 :: "filestat \<Rightarrow> stat" where
  "to_public_stat_p1 fs =
     (let out = \<lparr>st_dev = fs_dev fs, st_ino = fs_ino fs, st_nlink = fs_nlink fs, st_mode = 0, st_size = fs_size fs,
             st_atim = timestamp_to_timespec_p1 (fs_atim fs), st_mtim = timestamp_to_timespec_p1 (fs_mtim fs),
             st_ctim = timestamp_to_timespec_p1 (fs_ctim fs)\<rparr> in
      case fs_filetype fs of
        FT_block_device \<Rightarrow> out
      | FT_character_device \<Rightarrow> out\<lparr>st_mode := st_mode out OR S_IFCHR\<rparr>
      | FT_directory \<Rightarrow> out\<lparr>st_mode := st_mode out OR S_IFDIR\<rparr>
      | FT_regular_file \<Rightarrow> out\<lparr>st_mode := st_mode out OR S_IFREG\<rparr>
      | FT_socket_dgram \<Rightarrow> out\<lparr>st_mode := st_mode out OR S_IFSOCK\<rparr>
      | FT_socket_stream \<Rightarrow> out\<lparr>st_mode := st_mode out OR S_IFSOCK\<rparr>
      | FT_symbolic_link \<Rightarrow> out\<lparr>st_mode := st_mode out OR S_IFLNK\<rparr>
      | FT_unknown \<Rightarrow> out)"

text \<open>\<open>lower\<close> is the lower half of the metadata hash.\<close>

definition to_public_stat :: "wasi_version \<Rightarrow> 64 word \<Rightarrow> descriptor_stat \<Rightarrow> stat" where
  "to_public_stat v lower ds =
     (let zero = \<lparr>seconds = 0, nanoseconds = 0\<rparr>;
          time = (\<lambda>t. timestamp_to_timespec v (case t of None \<Rightarrow> zero | Some d \<Rightarrow> d));
          out = \<lparr>st_dev = 1, st_ino = lower, st_nlink = ds_link_count ds, st_mode = 0, st_size = ds_size ds,
             st_atim = time (ds_atim ds), st_mtim = time (ds_mtim ds), st_ctim = time (ds_ctim ds)\<rparr> in
      case ds_type ds of
        T_block_device \<Rightarrow> out\<lparr>st_mode := st_mode out OR S_IFBLK\<rparr>
      | T_character_device \<Rightarrow> out\<lparr>st_mode := st_mode out OR S_IFCHR\<rparr>
      | T_directory \<Rightarrow> out\<lparr>st_mode := st_mode out OR S_IFDIR\<rparr>
      | T_regular_file \<Rightarrow> out\<lparr>st_mode := st_mode out OR S_IFREG\<rparr>
      | T_socket \<Rightarrow> out\<lparr>st_mode := st_mode out OR S_IFSOCK\<rparr>
      | T_symbolic_link \<Rightarrow> out\<lparr>st_mode := st_mode out OR S_IFLNK\<rparr>
      | _ \<Rightarrow> out)"

abbreviation UTIME_NOW :: "32 word" where "UTIME_NOW \<equiv> - 1"
abbreviation UTIME_OMIT :: "32 word" where "UTIME_OMIT \<equiv> - 2"

text \<open>Flags and the two timestamps, or \<open>None\<close> for \<open>return false\<close>.\<close>

definition utimens_one_p1 :: "16 word \<Rightarrow> 16 word \<Rightarrow> timespec \<Rightarrow> 16 word \<Rightarrow> (64 word \<times> 16 word) option" where
  "utimens_one_p1 flag_now flag_set t flags =
     (if tv_nsec t = UTIME_NOW then Some (0, flags OR flag_now)
      else if tv_nsec t = UTIME_OMIT then Some (0, flags)
      else map_option (\<lambda>ts. (ts, flags OR flag_set)) (timespec_to_timestamp_exact_p1 t))"

definition utimens_get_timestamps_p1 :: "(timespec \<times> timespec) option \<Rightarrow> (64 word \<times> 64 word \<times> 16 word) option" where
  "utimens_get_timestamps_p1 tms =
     (case tms of
        None \<Rightarrow> Some (0, 0, 2 OR 8)
      | Some (t0, t1) \<Rightarrow>
          (case utimens_one_p1 2 1 t0 0 of
             None \<Rightarrow> None
           | Some (atim, flags) \<Rightarrow>
               (case utimens_one_p1 8 4 t1 flags of
                  None \<Rightarrow> None
                | Some (mtim, flags) \<Rightarrow> Some (atim, mtim, flags))))"

datatype new_timestamp = NO_CHANGE | NOW | TIMESTAMP datetime

definition utimens_get_timestamp :: "wasi_version \<Rightarrow> timespec \<Rightarrow> new_timestamp option" where
  "utimens_get_timestamp v t =
     (if tv_nsec t = UTIME_NOW then Some NOW
      else if tv_nsec t = UTIME_OMIT then Some NO_CHANGE
      else map_option TIMESTAMP (timespec_to_timestamp_exact v t))"

definition utimens_get_timestamps :: "wasi_version \<Rightarrow> (timespec \<times> timespec) option \<Rightarrow>
    (new_timestamp \<times> new_timestamp) option" where
  "utimens_get_timestamps v tms =
     (case tms of
        None \<Rightarrow> Some (NOW, NOW)
      | Some (t0, t1) \<Rightarrow>
          (case utimens_get_timestamp v t0 of
             None \<Rightarrow> None
           | Some atim \<Rightarrow>
               (case utimens_get_timestamp v t1 of None \<Rightarrow> None | Some mtim \<Rightarrow> Some (atim, mtim))))"

datatype dt = DT_UNKNOWN | DT_BLK | DT_CHR | DT_DIR | DT_FIFO | DT_LNK | DT_REG | DT_SOCK

definition dir_entry_type_to_d_type :: "descriptor_type \<Rightarrow> dt" where
  "dir_entry_type_to_d_type ty =
     (case ty of
        T_unknown \<Rightarrow> DT_UNKNOWN
      | T_block_device \<Rightarrow> DT_BLK
      | T_character_device \<Rightarrow> DT_CHR
      | T_directory \<Rightarrow> DT_DIR
      | T_fifo \<Rightarrow> DT_FIFO
      | T_symbolic_link \<Rightarrow> DT_LNK
      | T_regular_file \<Rightarrow> DT_REG
      | T_socket \<Rightarrow> DT_SOCK)"

definition iftodt :: "32 word \<Rightarrow> dt" where
  "iftodt x =
     (if x = S_IFDIR then DT_DIR
      else if x = S_IFCHR then DT_CHR
      else if x = S_IFBLK then DT_BLK
      else if x = S_IFREG then DT_REG
      else if x = S_IFIFO then DT_FIFO
      else if x = S_IFLNK then DT_LNK
      else if x = S_IFSOCK then DT_SOCK
      else DT_UNKNOWN)"

definition dttoif :: "dt \<Rightarrow> 32 word" where
  "dttoif x =
     (case x of
        DT_DIR \<Rightarrow> S_IFDIR
      | DT_CHR \<Rightarrow> S_IFCHR
      | DT_BLK \<Rightarrow> S_IFBLK
      | DT_REG \<Rightarrow> S_IFREG
      | DT_FIFO \<Rightarrow> S_IFIFO
      | DT_LNK \<Rightarrow> S_IFLNK
      | DT_SOCK \<Rightarrow> S_IFSOCK
      | DT_UNKNOWN \<Rightarrow> S_IFSOCK)"

section \<open>Lemmas\<close>

lemma iftodt_dttoif: "x \<noteq> DT_UNKNOWN \<Longrightarrow> iftodt (dttoif x) = x"
  by (cases x) (simp_all add: iftodt_def dttoif_def)

lemma stat_mode_type:
  "st_mode (to_public_stat v lower ds) =
     (if ds_type ds = T_unknown \<or> ds_type ds = T_fifo then 0
      else dttoif (dir_entry_type_to_d_type (ds_type ds)))"
  by (cases "ds_type ds") (simp_all add: to_public_stat_def dttoif_def dir_entry_type_to_d_type_def Let_def)

section \<open>Properties\<close>


end
