(* ===== verification/Fs_Calls.thy ===== *)
theory Fs_Calls
  imports Preopens Utf8 Stat_Impl
begin

text \<open>
  The file system calls of the component-model builds, one per file under
  \<^verbatim>\<open>libc-bottom-half/cloudlibc/src/libc\<close> (\<^verbatim>\<open>fcntl\<close>, \<^verbatim>\<open>sys/stat\<close>, \<^verbatim>\<open>unistd\<close>,
  \<^verbatim>\<open>stdio\<close>) and under \<^verbatim>\<open>libc-bottom-half/sources\<close>, below the layer that resolves
  paths. Every call borrows the file behind a descriptor, checks its strings, makes requests of the
  host and gives the borrowed reference back on every path (the \<open>defer\<close> of the source).

  The host is a function from requests to answers; its requests are the methods of
  \<open>wasi:filesystem\<close> the code calls. A path is the memory from its first byte on, as in
  \<open>wasi_string_from_c\<close>.
\<close>

section \<open>Requests of the host\<close>

datatype (plugins only: code) fs_req =
    Open_at handle "8 word" "byte list" "8 word" "8 word"
  | Create_directory_at handle "byte list"
  | Remove_directory_at handle "byte list"
  | Unlink_file_at handle "byte list"
  | Symlink_at handle "byte list" "byte list"
  | Link_at handle "8 word" "byte list" handle "byte list"
  | Rename_at handle "byte list" handle "byte list"
  | Readlink_at handle "byte list"
  | Metadata_hash handle
  | Metadata_hash_at handle "8 word" "byte list"
  | Stat handle
  | Stat_at handle "8 word" "byte list"
  | Set_times handle new_timestamp new_timestamp
  | Set_times_at handle "8 word" "byte list" new_timestamp new_timestamp
  | Sync handle
  | Sync_data handle
  | Set_size handle "64 word"
  | Read handle nat "64 word"
  | Write handle "byte list" "64 word"
  | Advise handle "64 word" "64 word" nat
  | Get_flags handle

datatype (plugins only: code) fs_ans =
    Done | A_handle handle | A_string "byte list" | A_hash "64 word" | A_stat descriptor_stat
  | A_count nat | A_flags "8 word"

type_synonym 'h fs_calls = "fs_req \<Rightarrow> 'h \<Rightarrow> (fs_error + fs_ans) \<times> 'h"

text \<open>The type of the answer to a request; a metadata hash is reduced to its lower half.\<close>

fun ans_ok :: "fs_req \<Rightarrow> fs_ans \<Rightarrow> bool" where
  "ans_ok (Open_at _ _ _ _ _) a = (case a of A_handle h \<Rightarrow> h \<noteq> 0 | _ \<Rightarrow> False)"
| "ans_ok (Readlink_at _ _) a = (case a of A_string bs \<Rightarrow> True | _ \<Rightarrow> False)"
| "ans_ok (Metadata_hash _) a = (case a of A_hash m \<Rightarrow> True | _ \<Rightarrow> False)"
| "ans_ok (Metadata_hash_at _ _ _) a = (case a of A_hash m \<Rightarrow> True | _ \<Rightarrow> False)"
| "ans_ok (Stat _) a = (case a of A_stat st \<Rightarrow> True | _ \<Rightarrow> False)"
| "ans_ok (Stat_at _ _ _) a = (case a of A_stat st \<Rightarrow> True | _ \<Rightarrow> False)"
| "ans_ok (Read _ n _) a = (case a of A_string bs \<Rightarrow> length bs \<le> n | _ \<Rightarrow> False)"
| "ans_ok (Write _ bs _) a = (case a of A_count n \<Rightarrow> n \<le> length bs | _ \<Rightarrow> False)"
| "ans_ok (Get_flags _) a = (case a of A_flags f \<Rightarrow> True | _ \<Rightarrow> False)"
| "ans_ok _ a = (case a of Done \<Rightarrow> True | _ \<Rightarrow> False)"

lemma ans_ok_iff:
  "ans_ok (Open_at x1 x2 x3 x4 x5) a \<longleftrightarrow> (\<exists>h. a = A_handle h \<and> h \<noteq> 0)"
  "ans_ok (Readlink_at x1 x3) a \<longleftrightarrow> (\<exists>bs. a = A_string bs)"
  "ans_ok (Metadata_hash x1) a \<longleftrightarrow> (\<exists>m. a = A_hash m)"
  "ans_ok (Metadata_hash_at x1 x2 x3) a \<longleftrightarrow> (\<exists>m. a = A_hash m)"
  "ans_ok (Stat x1) a \<longleftrightarrow> (\<exists>st. a = A_stat st)"
  "ans_ok (Stat_at x1 x2 x3) a \<longleftrightarrow> (\<exists>st. a = A_stat st)"
  "ans_ok (Read x1 n x6) a \<longleftrightarrow> (\<exists>bs. a = A_string bs \<and> length bs \<le> n)"
  "ans_ok (Write x1 x3 x6) a \<longleftrightarrow> (\<exists>n. a = A_count n \<and> n \<le> length x3)"
  "ans_ok (Get_flags x1) a \<longleftrightarrow> (\<exists>f. a = A_flags f)"
  by (cases a; simp)+

declare ans_ok.simps(1-9) [simp del]
declare ans_ok_iff [simp]

text \<open>
  What the interface of the host promises: an error is one of the codes of its version, and an
  answer has the type of the request (in particular a handle is not 0, and a read or a write
  moves at most as many bytes as asked).
\<close>

definition host_typed :: "wasi_version \<Rightarrow> 'h fs_calls \<Rightarrow> bool" where
  "host_typed v C \<longleftrightarrow> (\<forall>q h. case C q h of
     (Inl e, _) \<Rightarrow> translate_error v e \<noteq> None
   | (Inr a, _) \<Rightarrow> ans_ok q a)"

type_synonym 'h fs_state = "'h file_world dt_state"

definition on_host :: "('h \<Rightarrow> 'h) \<Rightarrow> 'h fs_state \<Rightarrow> 'h fs_state" where
  "on_host f s = s\<lparr>world := (world s)\<lparr>fw_host := f (fw_host (world s))\<rparr>\<rparr>"

text \<open>A method call of the host, with \<open>translate_error\<close> and \<open>return -1\<close> for its errors.\<close>

definition host_call :: "wasi_version \<Rightarrow> 'h fs_calls \<Rightarrow> fs_req \<Rightarrow> 'h fs_state \<Rightarrow> (fs_ans, 'h fs_state) outcome" where
  "host_call v C q s =
     (case C q (fw_host (world s)) of
        (Inl e, h) \<Rightarrow> (case translate_error v e of
            None \<Rightarrow> Trap
          | Some n \<Rightarrow> Err n (on_host (\<lambda>_. h) s))
      | (Inr a, h) \<Rightarrow> if ans_ok q a then Ret a (on_host (\<lambda>_. h) s) else Trap)"

section \<open>Borrowing a descriptor\<close>

definition with_entry :: "'x dt_env \<Rightarrow> int \<Rightarrow> (descriptor_table_entry \<Rightarrow> 'x dt_state \<Rightarrow> ('a, 'x dt_state) outcome) \<Rightarrow>
    'x dt_state \<Rightarrow> ('a, 'x dt_state) outcome" where
  "with_entry env fd body s = with_borrow (descriptor_table_get env) (descriptor_table_entry_dec env) fd body s"

text \<open>
  \<open>fd_to_file_handle\<close> followed by the rest of the caller: only the table of files has the
  method \<open>get_file\<close>, and that method does not fail.
\<close>

definition file_get_file :: "data_ptr \<Rightarrow> 'h file_world \<Rightarrow> handle" where
  "file_get_file p w = file_handle (fw_files w p)"

definition with_file_handle :: "'h file_world dt_env \<Rightarrow> int \<Rightarrow> (handle \<Rightarrow> 'h fs_state \<Rightarrow> ('a, 'h fs_state) outcome) \<Rightarrow>
    'h fs_state \<Rightarrow> ('a, 'h fs_state) outcome" where
  "with_file_handle env fd body =
     with_entry env fd (\<lambda>e s.
       if e_vtable e \<noteq> File_vtable then Err EINVAL s
       else body (file_get_file (e_data e) (world s)) s)"

text \<open>\<open>wasi_string_from_c\<close> and the rest of the caller, which hands the host a pointer and a length.\<close>

definition with_string :: "byte list \<Rightarrow> (byte list \<Rightarrow> 's \<Rightarrow> ('a, 's) outcome) \<Rightarrow> 's \<Rightarrow> ('a, 's) outcome" where
  "with_string path body s = bindO (wasi_string_from_c path s) (\<lambda>(ptr, n) s. body (take n ptr) s)"

section \<open>The calls\<close>

abbreviation (input) AT_SYMLINK_NOFOLLOW :: "32 word" where "AT_SYMLINK_NOFOLLOW \<equiv> 1"
abbreviation (input) AT_SYMLINK_FOLLOW :: "32 word" where "AT_SYMLINK_FOLLOW \<equiv> 2"
abbreviation (input) AT_EMPTY_PATH :: "32 word" where "AT_EMPTY_PATH \<equiv> 8"
abbreviation (input) PATH_SYMLINK_FOLLOW :: "8 word" where "PATH_SYMLINK_FOLLOW \<equiv> 1"

definition path_call :: "'h file_world dt_env \<Rightarrow> 'h fs_calls \<Rightarrow> (handle \<Rightarrow> byte list \<Rightarrow> fs_req) \<Rightarrow> int \<Rightarrow> byte list \<Rightarrow>
    'h fs_state \<Rightarrow> (unit, 'h fs_state) outcome" where
  "path_call env C req fd path =
     with_file_handle env fd (\<lambda>fh. with_string path (\<lambda>p s.
       bindO (host_call (version env) C (req fh p) s) (\<lambda>_ s. Ret () s)))"

definition rmdirat :: "'h file_world dt_env \<Rightarrow> 'h fs_calls \<Rightarrow> int \<Rightarrow> byte list \<Rightarrow> 'h fs_state \<Rightarrow> (unit, 'h fs_state) outcome" where
  "rmdirat env C fd path = path_call env C Remove_directory_at fd path"

definition unlinkat :: "'h file_world dt_env \<Rightarrow> 'h fs_calls \<Rightarrow> int \<Rightarrow> byte list \<Rightarrow> 'h fs_state \<Rightarrow> (unit, 'h fs_state) outcome" where
  "unlinkat env C fd path = path_call env C Unlink_file_at fd path"

definition mkdirat :: "'h file_world dt_env \<Rightarrow> 'h fs_calls \<Rightarrow> int \<Rightarrow> byte list \<Rightarrow> 'h fs_state \<Rightarrow> (unit, 'h fs_state) outcome" where
  "mkdirat env C fd path = path_call env C Create_directory_at fd path"

definition symlinkat :: "'h file_world dt_env \<Rightarrow> 'h fs_calls \<Rightarrow> byte list \<Rightarrow> int \<Rightarrow> byte list \<Rightarrow> 'h fs_state \<Rightarrow>
    (unit, 'h fs_state) outcome" where
  "symlinkat env C path1 fd path2 =
     with_file_handle env fd (\<lambda>fh. with_string path1 (\<lambda>p1. with_string path2 (\<lambda>p2 s.
       bindO (host_call (version env) C (Symlink_at fh p1 p2) s) (\<lambda>_ s. Ret () s))))"

definition linkat :: "'h file_world dt_env \<Rightarrow> 'h fs_calls \<Rightarrow> int \<Rightarrow> byte list \<Rightarrow> int \<Rightarrow> byte list \<Rightarrow> 32 word \<Rightarrow>
    'h fs_state \<Rightarrow> (unit, 'h fs_state) outcome" where
  "linkat env C fd1 path1 fd2 path2 flag =
     with_file_handle env fd1 (\<lambda>fh1. with_file_handle env fd2 (\<lambda>fh2.
       with_string path1 (\<lambda>p1. with_string path2 (\<lambda>p2 s.
         let flags = (if flag AND AT_SYMLINK_FOLLOW \<noteq> 0 then PATH_SYMLINK_FOLLOW else 0) in
         bindO (host_call (version env) C (Link_at fh1 flags p1 fh2 p2) s) (\<lambda>_ s. Ret () s)))))"

definition renameat :: "'h file_world dt_env \<Rightarrow> 'h fs_calls \<Rightarrow> int \<Rightarrow> byte list \<Rightarrow> int \<Rightarrow> byte list \<Rightarrow>
    'h fs_state \<Rightarrow> (unit, 'h fs_state) outcome" where
  "renameat env C oldfd old newfd new =
     with_file_handle env oldfd (\<lambda>old_handle. with_file_handle env newfd (\<lambda>new_handle.
       with_string old (\<lambda>old_path. with_string new (\<lambda>new_path s.
         bindO (host_call (version env) C (Rename_at old_handle old_path new_handle new_path) s) (\<lambda>_ s. Ret () s)))))"

text \<open>\<open>readlinkat\<close> gives the bytes it stores into the buffer.\<close>

definition readlinkat :: "'h file_world dt_env \<Rightarrow> 'h fs_calls \<Rightarrow> int \<Rightarrow> byte list \<Rightarrow> nat \<Rightarrow> 'h fs_state \<Rightarrow>
    (byte list, 'h fs_state) outcome" where
  "readlinkat env C fd path bufsize =
     with_file_handle env fd (\<lambda>fh. with_string path (\<lambda>p s.
       bindO (host_call (version env) C (Readlink_at fh p) s) (\<lambda>a s. case a of
           A_string link_source \<Rightarrow>
             (let bufused = (if bufsize < length link_source then bufsize else length link_source) in
              Ret (take bufused link_source) s)
         | _ \<Rightarrow> Trap)))"

definition hash_then_stat :: "wasi_version \<Rightarrow> 'h fs_calls \<Rightarrow> fs_req \<Rightarrow> fs_req \<Rightarrow> 'h fs_state \<Rightarrow> (stat, 'h fs_state) outcome" where
  "hash_then_stat v C hash_req stat_req s =
     bindO (host_call v C hash_req s) (\<lambda>a s. case a of
         A_hash metadata \<Rightarrow> bindO (host_call v C stat_req s) (\<lambda>a s. case a of
             A_stat internal_stat \<Rightarrow> Ret (to_public_stat v metadata internal_stat) s
           | _ \<Rightarrow> Trap)
       | _ \<Rightarrow> Trap)"

definition file_fstat :: "wasi_version \<Rightarrow> 'h fs_calls \<Rightarrow> data_ptr \<Rightarrow> 'h fs_state \<Rightarrow> (stat, 'h fs_state) outcome" where
  "file_fstat v C p s =
     (let fh = file_handle (fw_files (world s) p) in hash_then_stat v C (Metadata_hash fh) (Stat fh) s)"

text \<open>\<open>vtable->fstat\<close>: every table has the method; \<open>other\<close> stands for those that are not files.\<close>

definition vt_fstat :: "wasi_version \<Rightarrow> 'h fs_calls \<Rightarrow> (vtable \<Rightarrow> data_ptr \<Rightarrow> 'h fs_state \<Rightarrow> (stat, 'h fs_state) outcome) \<Rightarrow>
    vtable \<Rightarrow> data_ptr \<Rightarrow> 'h fs_state \<Rightarrow> (stat, 'h fs_state) outcome" where
  "vt_fstat v C other vt p = (if vt = File_vtable then file_fstat v C p else other vt p)"

definition fstat :: "'h file_world dt_env \<Rightarrow> 'h fs_calls \<Rightarrow>
    (vtable \<Rightarrow> data_ptr \<Rightarrow> 'h fs_state \<Rightarrow> (stat, 'h fs_state) outcome) \<Rightarrow> int \<Rightarrow> 'h fs_state \<Rightarrow> (stat, 'h fs_state) outcome" where
  "fstat env C other fd =
     with_entry env fd (\<lambda>e s. vt_fstat (version env) C other (e_vtable e) (e_data e) s)"

text \<open>The flags of the two requests differ, as they do in the source.\<close>

definition fstatat :: "'h file_world dt_env \<Rightarrow> 'h fs_calls \<Rightarrow>
    (vtable \<Rightarrow> data_ptr \<Rightarrow> 'h fs_state \<Rightarrow> (stat, 'h fs_state) outcome) \<Rightarrow> int \<Rightarrow> byte list \<Rightarrow> 32 word \<Rightarrow>
    'h fs_state \<Rightarrow> (stat, 'h fs_state) outcome" where
  "fstatat env C other fd path flag s =
     (case rd path 0 of
        None \<Rightarrow> Trap
      | Some c \<Rightarrow>
          if c = 0 then
            if flag AND AT_EMPTY_PATH \<noteq> 0 then fstat env C other fd s else Err ENOENT s
          else with_file_handle env fd (\<lambda>fh. with_string path (\<lambda>p s.
              let path_flags = (if flag OR AT_SYMLINK_NOFOLLOW \<noteq> 0 then 0 else PATH_SYMLINK_FOLLOW);
                  lookup_flags = (if flag AND AT_SYMLINK_NOFOLLOW = 0 then PATH_SYMLINK_FOLLOW else 0) in
              hash_then_stat (version env) C (Metadata_hash_at fh path_flags p) (Stat_at fh lookup_flags p) s)) s)"

definition futimens :: "'h file_world dt_env \<Rightarrow> 'h fs_calls \<Rightarrow> int \<Rightarrow> (timespec \<times> timespec) option \<Rightarrow>
    'h fs_state \<Rightarrow> (unit, 'h fs_state) outcome" where
  "futimens env C fd tms =
     with_file_handle env fd (\<lambda>fh s.
       case utimens_get_timestamps (version env) tms of
         None \<Rightarrow> Err EINVAL s
       | Some (atim, mtim) \<Rightarrow> bindO (host_call (version env) C (Set_times fh atim mtim) s) (\<lambda>_ s. Ret () s))"

definition utimensat :: "'h file_world dt_env \<Rightarrow> 'h fs_calls \<Rightarrow> int \<Rightarrow> byte list \<Rightarrow> (timespec \<times> timespec) option \<Rightarrow> 32 word \<Rightarrow>
    'h fs_state \<Rightarrow> (unit, 'h fs_state) outcome" where
  "utimensat env C fd path tms flag =
     with_file_handle env fd (\<lambda>fh s.
       case utimens_get_timestamps (version env) tms of
         None \<Rightarrow> Err EINVAL s
       | Some (atim, mtim) \<Rightarrow>
           let lookup_flags = (if flag AND AT_SYMLINK_NOFOLLOW = 0 then PATH_SYMLINK_FOLLOW else 0) in
           with_string path (\<lambda>p s.
             bindO (host_call (version env) C (Set_times_at fh lookup_flags p atim mtim) s) (\<lambda>_ s. Ret () s)) s)"

definition fsync :: "'h file_world dt_env \<Rightarrow> 'h fs_calls \<Rightarrow> int \<Rightarrow> 'h fs_state \<Rightarrow> (unit, 'h fs_state) outcome" where
  "fsync env C fd = with_file_handle env fd (\<lambda>fh s. bindO (host_call (version env) C (Sync fh) s) (\<lambda>_ s. Ret () s))"

definition fdatasync :: "'h file_world dt_env \<Rightarrow> 'h fs_calls \<Rightarrow> int \<Rightarrow> 'h fs_state \<Rightarrow> (unit, 'h fs_state) outcome" where
  "fdatasync env C fd = with_file_handle env fd (\<lambda>fh s. bindO (host_call (version env) C (Sync_data fh) s) (\<lambda>_ s. Ret () s))"

definition ftruncate :: "'h file_world dt_env \<Rightarrow> 'h fs_calls \<Rightarrow> int \<Rightarrow> 64 word \<Rightarrow> 'h fs_state \<Rightarrow> (unit, 'h fs_state) outcome" where
  "ftruncate env C fd n s =
     (if sint n < 0 then Err EINVAL s
      else with_file_handle env fd (\<lambda>fh s. bindO (host_call (version env) C (Set_size fh n) s) (\<lambda>_ s. Ret () s)) s)"

abbreviation (input) X_OK :: "32 word" where "X_OK \<equiv> 1"
abbreviation (input) W_OK :: "32 word" where "W_OK \<equiv> 2"
abbreviation (input) R_OK :: "32 word" where "R_OK \<equiv> 4"
abbreviation (input) FLAGS_FILE_INTEGRITY_SYNC :: "8 word" where "FLAGS_FILE_INTEGRITY_SYNC \<equiv> 4"
abbreviation (input) FLAGS_DATA_INTEGRITY_SYNC :: "8 word" where "FLAGS_DATA_INTEGRITY_SYNC \<equiv> 8"
abbreviation (input) FLAGS_REQUESTED_WRITE_SYNC :: "8 word" where "FLAGS_REQUESTED_WRITE_SYNC \<equiv> 16"
abbreviation (input) FLAGS_MUTATE_DIRECTORY :: "8 word" where "FLAGS_MUTATE_DIRECTORY \<equiv> 32"

definition faccessat :: "'h file_world dt_env \<Rightarrow> 'h fs_calls \<Rightarrow> int \<Rightarrow> byte list \<Rightarrow> 32 word \<Rightarrow> 32 word \<Rightarrow>
    'h fs_state \<Rightarrow> (unit, 'h fs_state) outcome" where
  "faccessat env C fd path amode flag s =
     (if amode AND NOT (0 OR R_OK OR W_OK OR X_OK) \<noteq> 0 \<or> flag AND NOT 0 \<noteq> 0 then Err EINVAL s
      else with_file_handle env fd (\<lambda>fh. with_string path (\<lambda>p s.
        bindO (host_call (version env) C (Stat_at fh PATH_SYMLINK_FOLLOW p) s) (\<lambda>_ s.
          if amode = 0 then Ret () s
          else bindO (host_call (version env) C (Get_flags fh) s) (\<lambda>a s. case a of
              A_flags directory_flags \<Rightarrow>
                (let has_rights = True;
                     has_rights = (if amode AND R_OK \<noteq> 0 \<and> directory_flags AND FLAGS_READ = 0
                       then False else has_rights);
                     has_rights = (if amode AND W_OK \<noteq> 0 \<and> directory_flags AND FLAGS_MUTATE_DIRECTORY = 0
                       then False else has_rights) in
                 if \<not> has_rights then Err EACCES s else Ret () s)
            | _ \<Rightarrow> Trap)))) s)"

text \<open>\<open>pread\<close> and \<open>pwrite\<close> of the WASIp2 build.\<close>

definition pread :: "'h file_world dt_env \<Rightarrow> 'h fs_calls \<Rightarrow> int \<Rightarrow> nat \<Rightarrow> off \<Rightarrow> 'h fs_state \<Rightarrow>
    (byte list, 'h fs_state) outcome" where
  "pread env C fd nbyte pos s =
     (if sint pos < 0 then Err EINVAL s
      else with_file_handle env fd (\<lambda>fh s.
        bindO (host_call (version env) C (Read fh nbyte pos) s) (\<lambda>a s. case a of
            A_string contents \<Rightarrow> Ret contents s
          | _ \<Rightarrow> Trap)) s)"

definition pwrite :: "'h file_world dt_env \<Rightarrow> 'h fs_calls \<Rightarrow> int \<Rightarrow> byte list \<Rightarrow> off \<Rightarrow> 'h fs_state \<Rightarrow>
    (nat, 'h fs_state) outcome" where
  "pwrite env C fd buf pos s =
     (if sint pos < 0 then Err EINVAL s
      else with_file_handle env fd (\<lambda>fh s.
        bindO (host_call (version env) C (Write fh buf pos) s) (\<lambda>a s. case a of
            A_count bytes_written \<Rightarrow> Ret bytes_written s
          | _ \<Rightarrow> Trap)) s)"

text \<open>\<open>posix_fadvise\<close> returns the error number; the advice constants coincide with those of the host.\<close>

definition fs_advice :: "int \<Rightarrow> nat option" where
  "fs_advice advice =
     (if advice = 0 then Some 0 else if advice = 1 then Some 1 else if advice = 2 then Some 2
      else if advice = 5 then Some 5 else if advice = 3 then Some 3 else if advice = 4 then Some 4 else None)"

definition posix_fadvise :: "'h file_world dt_env \<Rightarrow> 'h fs_calls \<Rightarrow> int \<Rightarrow> off \<Rightarrow> off \<Rightarrow> int \<Rightarrow> 'h fs_state \<Rightarrow>
    (errno, 'h fs_state) outcome" where
  "posix_fadvise env C fd pos n advice s =
     (if sint pos < 0 \<or> sint n < 0 then Ret EINVAL s
      else on_err
        (with_file_handle env fd (\<lambda>fh s.
           if fh = 0 then Ret EBADF s
           else case fs_advice advice of
               None \<Rightarrow> Ret EINVAL s
             | Some ad \<Rightarrow>
                 on_err (bindO (host_call (version env) C (Advise fh pos n ad) s) (\<lambda>_ s. Ret 0 s))
                   (\<lambda>e s. Ret e s)) s)
        (\<lambda>_ s. Ret EBADF s))"

subsection \<open>Opening\<close>

definition lookup_flags_of :: "32 word \<Rightarrow> 8 word" where
  "lookup_flags_of oflags = (if oflags AND O_NOFOLLOW = 0 then PATH_SYMLINK_FOLLOW else 0)"

definition open_flags_of :: "32 word \<Rightarrow> 8 word" where
  "open_flags_of oflags =
     (let open_flags = 0;
          open_flags = (if oflags AND O_CREAT \<noteq> 0 then open_flags OR 1 else open_flags);
          open_flags = (if oflags AND O_DIRECTORY \<noteq> 0 then open_flags OR 2 else open_flags);
          open_flags = (if oflags AND O_EXCL \<noteq> 0 then open_flags OR 4 else open_flags);
          open_flags = (if oflags AND O_TRUNC \<noteq> 0 then open_flags OR 8 else open_flags) in
      open_flags)"

definition fs_flags_of :: "32 word \<Rightarrow> 8 word option" where
  "fs_flags_of oflags =
     (let fs_flags = 0; mode = oflags AND O_ACCMODE in
      case (if mode = O_RDONLY \<or> mode = O_RDWR \<or> mode = O_WRONLY then
              let fs_flags = (if oflags AND O_RDONLY \<noteq> 0 then fs_flags OR FLAGS_READ else fs_flags) in
              Some (if oflags AND O_WRONLY \<noteq> 0
                    then fs_flags OR (FLAGS_WRITE OR FLAGS_MUTATE_DIRECTORY) else fs_flags)
            else if mode = O_EXEC then Some fs_flags
            else if mode = O_SEARCH then Some fs_flags
            else None) of
        None \<Rightarrow> None
      | Some fs_flags \<Rightarrow>
          let fs_flags = (if oflags AND O_SYNC \<noteq> 0 then fs_flags OR FLAGS_FILE_INTEGRITY_SYNC else fs_flags);
              fs_flags = (if oflags AND O_DSYNC \<noteq> 0 then fs_flags OR FLAGS_DATA_INTEGRITY_SYNC else fs_flags) in
          Some (if oflags AND O_RSYNC \<noteq> 0 then fs_flags OR FLAGS_REQUESTED_WRITE_SYNC else fs_flags))"

text \<open>\<open>falloc\<close> is what \<open>calloc\<close> returns for the structure of the new file.\<close>

definition openat :: "'h fs_host \<Rightarrow> 'h file_world dt_env \<Rightarrow> 'h fs_calls \<Rightarrow> ('h fs_state \<Rightarrow> data_ptr option) \<Rightarrow>
    int \<Rightarrow> byte list \<Rightarrow> 32 word \<Rightarrow> 'h fs_state \<Rightarrow> (nat, 'h fs_state) outcome" where
  "openat H env C falloc fd path oflags s =
     (case fs_flags_of oflags of
        None \<Rightarrow> Err EINVAL s
      | Some fs_flags \<Rightarrow>
          with_file_handle env fd (\<lambda>fh. with_string path (\<lambda>p s.
            bindO (host_call (version env) C
                (Open_at fh (lookup_flags_of oflags) p (open_flags_of oflags) fs_flags) s)
              (\<lambda>a s. case a of
                   A_handle new_handle \<Rightarrow> wasilibc_add_file H env (falloc s) new_handle oflags s
                 | _ \<Rightarrow> Trap))) s)"

subsection \<open>Calls on the descriptor itself\<close>

text \<open>An operation on the file at a data pointer.\<close>

definition on_file :: "data_ptr \<Rightarrow> ('a, 'h) file_op \<Rightarrow> 'h fs_state \<Rightarrow> ('a, 'h fs_state) outcome" where
  "on_file p op s =
     lift_part (\<lambda>(f, h). s\<lparr>world := (world s)\<lparr>fw_files := (fw_files (world s))(p := f), fw_host := h\<rparr>\<rparr>)
       (op (fw_files (world s) p, fw_host (world s)))"

text \<open>
  The methods of the other virtual tables that these calls dispatch to; \<open>None\<close> is a null method.
  \<open>o_read\<close> and \<open>o_write\<close> stand for \<open>get_read_stream\<close> and the stream read after it, or
  \<open>recvfrom\<close> where there is no stream, and likewise for writing.
\<close>

record 'h other_vt =
  o_getfl :: "vtable \<Rightarrow> (data_ptr \<Rightarrow> 'h fs_state \<Rightarrow> (32 word, 'h fs_state) outcome) option"
  o_setfl :: "vtable \<Rightarrow> (data_ptr \<Rightarrow> 32 word \<Rightarrow> 'h fs_state \<Rightarrow> (unit, 'h fs_state) outcome) option"
  o_read :: "vtable \<Rightarrow> (data_ptr \<Rightarrow> nat \<Rightarrow> 'h fs_state \<Rightarrow> (byte list, 'h fs_state) outcome) option"
  o_write :: "vtable \<Rightarrow> (data_ptr \<Rightarrow> byte list \<Rightarrow> 'h fs_state \<Rightarrow> (nat, 'h fs_state) outcome) option"

text \<open>Only files can be positioned.\<close>

definition lseek :: "'h fs_host \<Rightarrow> 'h file_world dt_env \<Rightarrow> int \<Rightarrow> off \<Rightarrow> whence \<Rightarrow> 'h fs_state \<Rightarrow> (off, 'h fs_state) outcome" where
  "lseek H env fd pos whence =
     with_entry env fd (\<lambda>e s.
       if e_vtable e \<noteq> File_vtable then Err ESPIPE s
       else on_file (e_data e) (file_seek H pos whence) s)"

definition tell :: "'h fs_host \<Rightarrow> 'h file_world dt_env \<Rightarrow> int \<Rightarrow> 'h fs_state \<Rightarrow> (off, 'h fs_state) outcome" where
  "tell H env fd =
     with_entry env fd (\<lambda>e s.
       if e_vtable e \<noteq> File_vtable then Err ESPIPE s
       else on_file (e_data e) (file_seek H 0 SEEK_CUR) s)"

definition read_fd :: "'h fs_host \<Rightarrow> 'h file_world dt_env \<Rightarrow> 'h other_vt \<Rightarrow> int \<Rightarrow> nat \<Rightarrow> 'h fs_state \<Rightarrow>
    (byte list, 'h fs_state) outcome" where
  "read_fd H env V fd nbyte =
     with_entry env fd (\<lambda>e s.
       if e_vtable e = File_vtable then on_file (e_data e) (file_read H nbyte) s
       else case o_read V (e_vtable e) of
           Some m \<Rightarrow> m (e_data e) nbyte s
         | None \<Rightarrow> Err EOPNOTSUPP s)"

definition write_fd :: "'h fs_host \<Rightarrow> 'h file_world dt_env \<Rightarrow> 'h other_vt \<Rightarrow> int \<Rightarrow> byte list \<Rightarrow> 'h fs_state \<Rightarrow>
    (nat, 'h fs_state) outcome" where
  "write_fd H env V fd buf =
     with_entry env fd (\<lambda>e s.
       if e_vtable e = File_vtable then on_file (e_data e) (file_write H buf) s
       else case o_write V (e_vtable e) of
           Some m \<Rightarrow> m (e_data e) buf s
         | None \<Rightarrow> Err EOPNOTSUPP s)"

text \<open>An \<open>iovec\<close> is the length of its buffer for reading and its bytes for writing.\<close>

fun readv_from :: "(nat \<Rightarrow> 's \<Rightarrow> ('a, 's) outcome) \<Rightarrow> nat list \<Rightarrow> 's \<Rightarrow> ('a, 's) outcome" where
  "readv_from rd1 [] s = rd1 0 s"
| "readv_from rd1 (n # iov) s = (if n \<noteq> 0 then rd1 n s else readv_from rd1 iov s)"

definition readv :: "'h fs_host \<Rightarrow> 'h file_world dt_env \<Rightarrow> 'h other_vt \<Rightarrow> int \<Rightarrow> nat list \<Rightarrow> int \<Rightarrow> 'h fs_state \<Rightarrow>
    (byte list, 'h fs_state) outcome" where
  "readv H env V fd iov iovcnt s =
     (if iovcnt < 0 then Err EINVAL s else readv_from (read_fd H env V fd) (take (nat iovcnt) iov) s)"

definition preadv :: "'h file_world dt_env \<Rightarrow> 'h fs_calls \<Rightarrow> int \<Rightarrow> nat list \<Rightarrow> int \<Rightarrow> off \<Rightarrow> 'h fs_state \<Rightarrow>
    (byte list, 'h fs_state) outcome" where
  "preadv env C fd iov iovcnt pos s =
     (if iovcnt < 0 \<or> sint pos < 0 then Err EINVAL s
      else readv_from (\<lambda>n. pread env C fd n pos) (take (nat iovcnt) iov) s)"

fun writev_from :: "(byte list \<Rightarrow> 's \<Rightarrow> ('a, 's) outcome) \<Rightarrow> byte list list \<Rightarrow> 's \<Rightarrow> ('a, 's) outcome" where
  "writev_from wr1 [] s = wr1 [] s"
| "writev_from wr1 (b # iov) s = (if b \<noteq> [] then wr1 b s else writev_from wr1 iov s)"

definition writev :: "'h fs_host \<Rightarrow> 'h file_world dt_env \<Rightarrow> 'h other_vt \<Rightarrow> int \<Rightarrow> byte list list \<Rightarrow> int \<Rightarrow> 'h fs_state \<Rightarrow>
    (nat, 'h fs_state) outcome" where
  "writev H env V fd iov iovcnt s =
     (if iovcnt < 0 then Err EINVAL s else writev_from (write_fd H env V fd) (take (nat iovcnt) iov) s)"

datatype fcntl_cmd = F_GETFD | F_SETFD | F_GETFL | F_SETFL "32 word" | F_DUPFD int | F_GETLK | F_SETLK | F_SETLKW
  | F_other

text \<open>\<open>F_DUPFD_CLOEXEC\<close> is handled as \<open>F_DUPFD\<close>; \<open>fcntl\<close> returns an \<open>int\<close>.\<close>

definition fcntl :: "'h fs_host \<Rightarrow> 'h file_world dt_env \<Rightarrow> 'h other_vt \<Rightarrow> int \<Rightarrow> fcntl_cmd \<Rightarrow> 'h fs_state \<Rightarrow>
    (int, 'h fs_state) outcome" where
  "fcntl H env V fd cmd =
     with_entry env fd (\<lambda>e s.
       case cmd of
         F_GETFD \<Rightarrow> Ret 1 s
       | F_SETFD \<Rightarrow> Ret 0 s
       | F_GETFL \<Rightarrow>
           if e_vtable e = File_vtable
           then bindO (on_file (e_data e) (file_fcntl_getfl H) s) (\<lambda>f s. Ret (sint f) s)
           else (case o_getfl V (e_vtable e) of
               None \<Rightarrow> Err EINVAL s
             | Some m \<Rightarrow> bindO (m (e_data e) s) (\<lambda>f s. Ret (sint f) s))
       | F_SETFL flags \<Rightarrow>
           if e_vtable e = File_vtable
           then bindO (on_file (e_data e) (\<lambda>(f, h). Ret () (file_fcntl_setfl flags f, h)) s) (\<lambda>_ s. Ret 0 s)
           else (case o_setfl V (e_vtable e) of
               None \<Rightarrow> Err EINVAL s
             | Some m \<Rightarrow> bindO (m (e_data e) flags s) (\<lambda>_ s. Ret 0 s))
       | F_DUPFD minfd \<Rightarrow> descriptor_table_dup env fd DUP_OP_DUPFD minfd s
       | F_other \<Rightarrow> Err EINVAL s
       | _ \<Rightarrow> Err ENOTSUP s)"

definition dup :: "'x dt_env \<Rightarrow> int \<Rightarrow> 'x dt_state \<Rightarrow> (int, 'x dt_state) outcome" where
  "dup env fd = descriptor_table_dup env fd DUP_OP_DUP 0"

definition dup2 :: "'x dt_env \<Rightarrow> int \<Rightarrow> int \<Rightarrow> 'x dt_state \<Rightarrow> (int, 'x dt_state) outcome" where
  "dup2 env fd newfd = descriptor_table_dup env fd DUP_OP_DUP2 newfd"

text \<open>\<open>O_CLOEXEC\<close> is 0 in this library.\<close>

definition dup3 :: "'x dt_env \<Rightarrow> int \<Rightarrow> int \<Rightarrow> 32 word \<Rightarrow> 'x dt_state \<Rightarrow> (int, 'x dt_state) outcome" where
  "dup3 env fd newfd flags s =
     (if flags AND NOT 0 \<noteq> 0 then Err EINVAL s else descriptor_table_dup env fd DUP_OP_DUP3 newfd s)"

section \<open>Calls that give back what they borrow\<close>

definition fs_inv :: "(data_ptr \<Rightarrow> nat) \<Rightarrow> 'h fs_state \<Rightarrow> bool" where
  "fs_inv r s \<longleftrightarrow> dt_inv r s \<and> stdio_initialized s"

text \<open>What the program sees of the state, the host apart: the table and the files.\<close>

definition lib_view :: "descriptor_table \<times> 'h file_world \<Rightarrow> descriptor_table \<times> (data_ptr \<Rightarrow> file_t)" where
  "lib_view v = (fst v, fw_files (snd v))"

abbreviation st_view :: "'h fs_state \<Rightarrow> descriptor_table \<times> (data_ptr \<Rightarrow> file_t)" where
  "st_view s \<equiv> lib_view (global_table s, world s)"

definition quiet :: "(data_ptr \<Rightarrow> nat) \<Rightarrow> 'h fs_state \<Rightarrow> ('a, 'h fs_state) outcome \<Rightarrow> bool" where
  "quiet r s x \<longleftrightarrow> holds x (\<lambda>_ s'. fs_inv r s' \<and> st_view s' = st_view s) (\<lambda>_ s'. fs_inv r s' \<and> st_view s' = st_view s)"

text \<open>A string in memory: it ends.\<close>

definition c_string :: "byte list \<Rightarrow> bool" where
  "c_string path \<longleftrightarrow> (\<exists>str t. path = str @ 0 # t \<and> 0 \<notin> set str)"

lemma st_view_on_host [simp]: "st_view (on_host f s) = st_view s"
  by (simp add: lib_view_def on_host_def)

lemma fs_inv_on_host [simp]: "fs_inv r (on_host f s) = fs_inv r s"
  by (simp add: fs_inv_def on_host_def dt_inv_def)

lemma quiet_Ret: "fs_inv r s \<Longrightarrow> quiet r s (Ret a s)"
  by (simp add: quiet_def)

lemma quiet_Err: "fs_inv r s \<Longrightarrow> quiet r s (Err e s)"
  by (simp add: quiet_def)

lemma quiet_bind:
  fixes s :: "'h fs_state"
  assumes "quiet r s x" "\<And>a s1. fs_inv r s1 \<Longrightarrow> st_view s1 = st_view s \<Longrightarrow> quiet r s1 (k a s1)"
  shows "quiet r s (bindO x k)"
  unfolding quiet_def
proof (rule holds_bind [OF assms(1) [unfolded quiet_def]])
  fix a and s1 :: "'h fs_state"
  assume "fs_inv r s1 \<and> st_view s1 = st_view s"
  with assms(2) [of s1 a] show "holds (k a s1) (\<lambda>_ s'. fs_inv r s' \<and> st_view s' = st_view s)
      (\<lambda>_ s'. fs_inv r s' \<and> st_view s' = st_view s)" by (simp add: quiet_def)
qed

lemma quiet_on_err:
  fixes s :: "'h fs_state"
  assumes "quiet r s x" "\<And>e s1. fs_inv r s1 \<Longrightarrow> st_view s1 = st_view s \<Longrightarrow> quiet r s1 (h e s1)"
  shows "quiet r s (on_err x h)"
  unfolding quiet_def
proof (rule holds_on_err [OF assms(1) [unfolded quiet_def]])
  fix e and s1 :: "'h fs_state"
  assume "fs_inv r s1 \<and> st_view s1 = st_view s"
  with assms(2) [of s1 e] show "holds (h e s1) (\<lambda>_ s'. fs_inv r s' \<and> st_view s' = st_view s)
      (\<lambda>_ s'. fs_inv r s' \<and> st_view s' = st_view s)" by (simp add: quiet_def)
qed

lemma host_call_cases:
  assumes "host_typed v C"
  obtains a h where "C q (fw_host (world s)) = (Inr a, h)" "ans_ok q a" "host_call v C q s = Ret a (on_host (\<lambda>_. h) s)"
  | e n h where "C q (fw_host (world s)) = (Inl e, h)" "translate_error v e = Some n"
      "host_call v C q s = Err n (on_host (\<lambda>_. h) s)"
proof (cases "C q (fw_host (world s))")
  case (Pair x h)
  have t: "case C q (fw_host (world s)) of (Inl e, _) \<Rightarrow> translate_error v e \<noteq> None | (Inr a, _) \<Rightarrow> ans_ok q a"
    using assms unfolding host_typed_def by (elim allE)
  show thesis
  proof (cases x)
    case (Inl e)
    with t Pair obtain n where "translate_error v e = Some n" by auto
    with Pair Inl show thesis by (intro that(2) [of e h n]) (simp_all add: host_call_def)
  next
    case (Inr a)
    with t Pair have "ans_ok q a" by simp
    with Pair Inr show thesis by (intro that(1) [of a h]) (simp_all add: host_call_def)
  qed
qed

lemma quiet_host_bind:
  assumes "host_typed v C" "fs_inv r s"
    and "\<And>a s1. ans_ok q a \<Longrightarrow> fs_inv r s1 \<Longrightarrow> st_view s1 = st_view s \<Longrightarrow> quiet r s1 (k a s1)"
  shows "quiet r s (bindO (host_call v C q s) k)"
proof (cases rule: host_call_cases [OF assms(1), of q s])
  case (1 a h)
  with assms(2) assms(3) [of a "on_host (\<lambda>_. h) s"] show ?thesis by (simp add: quiet_def)
next
  case (2 e n h)
  with assms(2) show ?thesis by (simp add: quiet_def)
qed

definition is_utf8 :: "byte list \<Rightarrow> bool" where
  "is_utf8 str \<longleftrightarrow> (\<exists>us. list_all scalar us \<and> str = encode_utf8 us)"

lemma with_string_cases:
  assumes "path = str @ 0 # t" "0 \<notin> set str" "length str < 2 ^ 31"
  shows "with_string path body s = (if is_utf8 str then body str s else Err EILSEQ s)"
proof -
  have "wasi_string_from_c path s = (if is_utf8 str then Ret (path, length str) s else Err EILSEQ s)"
    using validate_from_string [OF assms(2), of path "[]" t] assms
    by (simp add: wasi_string_from_c_def validate_utf8_def sint_small is_utf8_def flip: utf8_seq_encode)
  then show ?thesis using assms(1) by (simp add: with_string_def)
qed

lemma with_string_any:
  assumes "c_string path"
  shows "\<exists>x. \<forall>body (s :: 's). with_string path (body :: byte list \<Rightarrow> 's \<Rightarrow> ('a, 's) outcome) s =
    (case x of None \<Rightarrow> Err EILSEQ s | Some q \<Rightarrow> body q s)"
proof -
  from assms obtain str t where p: "path = str @ 0 # t" "0 \<notin> set str" by (auto simp: c_string_def)
  then obtain n where "validate_utf8 path = Some n"
    using validate_from_string [OF p(2), of path "[]" t] by (simp add: validate_utf8_def)
  then show ?thesis
    by (intro exI [of _ "if n < 0 then None else Some (take (nat n) path)"])
      (simp add: with_string_def wasi_string_from_c_def)
qed

lemma quiet_string:
  assumes "c_string path" "fs_inv r s" "\<And>p. quiet r s (body p s)"
  shows "quiet r (s :: 'b fs_state) (with_string path body s :: ('a, _) outcome)"
proof -
  from with_string_any [OF assms(1)] obtain x where
    "\<forall>body' s'. with_string path (body' :: _ \<Rightarrow> 'b fs_state \<Rightarrow> ('a, _) outcome) s' =
      (case x of None \<Rightarrow> Err EILSEQ s' | Some q \<Rightarrow> body' q s')" by (elim exE)
  from spec [OF spec [OF this], of body s] assms(2,3) show ?thesis by (simp add: quiet_Err split: option.split)
qed

lemma quiet_with_entry:
  assumes "fs_inv r s"
    and "\<And>e s1. fs_inv (r(e_data e := Suc (r (e_data e)))) s1 \<Longrightarrow> global_table s1 = global_table s \<Longrightarrow>
      world s1 = world s \<Longrightarrow> 0 \<le> fd \<Longrightarrow> fd_map (global_table s) (nat fd) = Some e \<Longrightarrow>
      quiet (r(e_data e := Suc (r (e_data e)))) s1 (body e s1)"
  shows "quiet r s (with_entry env fd body s)"
proof -
  have "holds (with_entry env fd body s)
      (\<lambda>_ s'. (dt_inv r s' \<and> stdio_initialized s') \<and> lib_view (global_table s', world s') = st_view s)
      (\<lambda>_ s'. (dt_inv r s' \<and> stdio_initialized s') \<and> lib_view (global_table s', world s') = st_view s)"
    unfolding with_entry_def
  proof (rule dtb.borrow_holds, goal_cases)
    case (2 e s1)
    then have "quiet (r(e_data e := Suc (r (e_data e)))) s1 (body e s1)"
      by (intro assms(2)) (auto simp: fs_inv_def)
    then show ?case unfolding quiet_def
      by (elim holds_mono) (use 2 in \<open>auto simp: fs_inv_def lib_view_def\<close>)
  qed (use assms(1) in \<open>auto simp: fs_inv_def\<close>)
  then show ?thesis by (simp add: quiet_def fs_inv_def)
qed

lemma quiet_with_file_handle:
  assumes "fs_inv r s"
    and "\<And>r' fh s1. fs_inv r' s1 \<Longrightarrow> quiet r' s1 (body fh s1)"
  shows "quiet r s (with_file_handle env fd body s)"
  unfolding with_file_handle_def by (rule quiet_with_entry) (use assms in \<open>auto simp: quiet_Err\<close>)

lemmas quiet_intros = quiet_with_file_handle quiet_string quiet_host_bind quiet_Ret quiet_Err

text \<open>The calls as data, with their results dropped, to speak of all of them at once.\<close>

datatype (plugins only: code) fs_call =
    C_rmdirat int "byte list" | C_unlinkat int "byte list" | C_mkdirat int "byte list"
  | C_symlinkat "byte list" int "byte list" | C_linkat int "byte list" int "byte list" "32 word"
  | C_renameat int "byte list" int "byte list" | C_readlinkat int "byte list" nat
  | C_fstat int | C_fstatat int "byte list" "32 word" | C_futimens int "(timespec \<times> timespec) option"
  | C_utimensat int "byte list" "(timespec \<times> timespec) option" "32 word" | C_fsync int | C_fdatasync int
  | C_ftruncate int off | C_faccessat int "byte list" "32 word" "32 word" | C_pread int nat off
  | C_pwrite int "byte list" off | C_fadvise int off off int | C_preadv int "nat list" int off

definition dropO :: "('a, 's) outcome \<Rightarrow> (unit, 's) outcome" where
  "dropO x = bindO x (\<lambda>_ s. Ret () s)"

primrec run_call :: "'h file_world dt_env \<Rightarrow> 'h fs_calls \<Rightarrow>
    (vtable \<Rightarrow> data_ptr \<Rightarrow> 'h fs_state \<Rightarrow> (stat, 'h fs_state) outcome) \<Rightarrow> fs_call \<Rightarrow> 'h fs_state \<Rightarrow>
    (unit, 'h fs_state) outcome" where
  "run_call env C other (C_rmdirat fd p) s = rmdirat env C fd p s"
| "run_call env C other (C_unlinkat fd p) s = unlinkat env C fd p s"
| "run_call env C other (C_mkdirat fd p) s = mkdirat env C fd p s"
| "run_call env C other (C_symlinkat p fd q) s = symlinkat env C p fd q s"
| "run_call env C other (C_linkat fd p fd' q fl) s = linkat env C fd p fd' q fl s"
| "run_call env C other (C_renameat fd p fd' q) s = renameat env C fd p fd' q s"
| "run_call env C other (C_readlinkat fd p n) s = dropO (readlinkat env C fd p n s)"
| "run_call env C other (C_fstat fd) s = dropO (fstat env C other fd s)"
| "run_call env C other (C_fstatat fd p fl) s = dropO (fstatat env C other fd p fl s)"
| "run_call env C other (C_futimens fd t) s = futimens env C fd t s"
| "run_call env C other (C_utimensat fd p t fl) s = utimensat env C fd p t fl s"
| "run_call env C other (C_fsync fd) s = fsync env C fd s"
| "run_call env C other (C_fdatasync fd) s = fdatasync env C fd s"
| "run_call env C other (C_ftruncate fd n) s = ftruncate env C fd n s"
| "run_call env C other (C_faccessat fd p m fl) s = faccessat env C fd p m fl s"
| "run_call env C other (C_pread fd n pos) s = dropO (pread env C fd n pos s)"
| "run_call env C other (C_pwrite fd b pos) s = dropO (pwrite env C fd b pos s)"
| "run_call env C other (C_fadvise fd pos n ad) s = dropO (posix_fadvise env C fd pos n ad s)"
| "run_call env C other (C_preadv fd iov n pos) s = dropO (preadv env C fd iov n pos s)"

primrec call_strings :: "fs_call \<Rightarrow> byte list list" where
  "call_strings (C_rmdirat fd p) = [p]"
| "call_strings (C_unlinkat fd p) = [p]"
| "call_strings (C_mkdirat fd p) = [p]"
| "call_strings (C_symlinkat p fd q) = [p, q]"
| "call_strings (C_linkat fd p fd' q fl) = [p, q]"
| "call_strings (C_renameat fd p fd' q) = [p, q]"
| "call_strings (C_readlinkat fd p n) = [p]"
| "call_strings (C_fstat fd) = []"
| "call_strings (C_fstatat fd p fl) = [p]"
| "call_strings (C_futimens fd t) = []"
| "call_strings (C_utimensat fd p t fl) = [p]"
| "call_strings (C_fsync fd) = []"
| "call_strings (C_fdatasync fd) = []"
| "call_strings (C_ftruncate fd n) = []"
| "call_strings (C_faccessat fd p m fl) = [p]"
| "call_strings (C_pread fd n pos) = []"
| "call_strings (C_pwrite fd b pos) = []"
| "call_strings (C_fadvise fd pos n ad) = []"
| "call_strings (C_preadv fd iov n pos) = []"

text \<open>The \<open>fstat\<close> methods of the other tables fill the buffer of the caller and nothing else.\<close>

definition fstat_pure :: "(vtable \<Rightarrow> data_ptr \<Rightarrow> 'h fs_state \<Rightarrow> (stat, 'h fs_state) outcome) \<Rightarrow> bool" where
  "fstat_pure other \<longleftrightarrow> (\<forall>vt p s. holds (other vt p s) (\<lambda>_ s'. s' = s) (\<lambda>_ s'. s' = s))"

lemma quiet_drop: "quiet r s x \<Longrightarrow> quiet r s (dropO x)"
  unfolding dropO_def by (rule quiet_bind) (simp_all add: quiet_Ret)

lemma quiet_path_call:
  "host_typed (version env) C \<Longrightarrow> c_string p \<Longrightarrow> fs_inv r s \<Longrightarrow> quiet r s (path_call env C req fd p s)"
  unfolding path_call_def by (intro quiet_intros) simp_all

lemma quiet_hash_then_stat:
  assumes "host_typed v C" "fs_inv r s" "\<And>a. ans_ok q1 a \<Longrightarrow> \<exists>m. a = A_hash m" "\<And>a. ans_ok q2 a \<Longrightarrow> \<exists>st. a = A_stat st"
  shows "quiet r s (hash_then_stat v C q1 q2 s)"
  unfolding hash_then_stat_def
proof (rule quiet_host_bind [OF assms(1,2)], goal_cases)
  case (1 a s1)
  with assms(3) obtain m where "a = A_hash m" by blast
  moreover have "quiet r s1 (bindO (host_call v C q2 s1)
      (\<lambda>a s. case a of A_stat st \<Rightarrow> Ret (to_public_stat v m st) s | _ \<Rightarrow> Trap))"
    by (rule quiet_host_bind [OF assms(1)]) (use 1 assms(4) in \<open>fastforce simp: quiet_Ret\<close>)+
  ultimately show ?case by simp
qed

lemma quiet_fstat:
  assumes "host_typed (version env) C" "fstat_pure other" "fs_inv r s"
  shows "quiet r s (fstat env C other fd s)"
  unfolding fstat_def
proof (rule quiet_with_entry [OF assms(3)], goal_cases)
  case (1 e s1)
  have "holds (other (e_vtable e) (e_data e) s1) (\<lambda>_ s'. s' = s1) (\<lambda>_ s'. s' = s1)"
    using assms(2) by (auto simp: fstat_pure_def)
  then have "quiet (r(e_data e := Suc (r (e_data e)))) s1 (other (e_vtable e) (e_data e) s1)"
    unfolding quiet_def by (rule holds_mono) (use 1 in auto)
  moreover have "quiet (r(e_data e := Suc (r (e_data e)))) s1 (file_fstat (version env) C (e_data e) s1)"
    unfolding file_fstat_def Let_def by (rule quiet_hash_then_stat) (use assms(1) 1 in auto)
  ultimately show ?case by (simp add: vt_fstat_def)
qed

lemma quiet_pread: "host_typed (version env) C \<Longrightarrow> fs_inv r s \<Longrightarrow> quiet r s (pread env C fd n pos s)"
  unfolding pread_def by (auto intro!: quiet_intros)

lemma quiet_readv_from: "(\<And>n. quiet r s (f n s)) \<Longrightarrow> quiet r s (readv_from f iov s)"
  by (induction iov) auto

lemma quiet_utimens:
  assumes "host_typed (version env) C" "fs_inv r s"
  shows "quiet r s (futimens env C fd t s)" "c_string p \<Longrightarrow> quiet r s (utimensat env C fd p t fl s)"
proof -
  show "quiet r s (futimens env C fd t s)" unfolding futimens_def
    by (rule quiet_with_file_handle [OF assms(2)])
      (auto intro!: quiet_Err quiet_host_bind [OF assms(1)] quiet_Ret split: option.splits)
  show "quiet r s (utimensat env C fd p t fl s)" if "c_string p" unfolding utimensat_def Let_def
    by (rule quiet_with_file_handle [OF assms(2)])
      (auto intro!: quiet_Err quiet_string [OF that] quiet_host_bind [OF assms(1)] quiet_Ret split: option.splits)
qed

lemma quiet_faccessat:
  assumes "host_typed (version env) C" "fs_inv r s" "c_string p"
  shows "quiet r s (faccessat env C fd p m fl s)"
proof -
  have "quiet r' s' (bindO (host_call (version env) C (Get_flags fh) s') (\<lambda>a s. case a of
              A_flags f \<Rightarrow> if b f then Err EACCES s else Ret () s | _ \<Rightarrow> Trap))"
    if "fs_inv r' s'" for r' s' fh and b :: "8 word \<Rightarrow> bool"
    by (rule quiet_host_bind [OF assms(1) that]) (auto simp: quiet_Ret quiet_Err)
  then show ?thesis unfolding faccessat_def Let_def using assms(2)
    by (auto intro!: quiet_Err quiet_Ret quiet_with_file_handle [OF assms(2)] quiet_string [OF assms(3)]
        quiet_host_bind [OF assms(1)])
qed

lemma quiet_fadvise:
  assumes "host_typed (version env) C" "fs_inv r s"
  shows "quiet r s (posix_fadvise env C fd pos n ad s)"
  unfolding posix_fadvise_def using assms(2)
  by (auto intro!: quiet_Ret quiet_on_err quiet_with_file_handle [OF assms(2)] quiet_host_bind [OF assms(1)]
      split: option.splits)

lemma quiet_fstatat:
  assumes "host_typed (version env) C" "fstat_pure other" "fs_inv r s" "c_string p"
  shows "quiet r s (fstatat env C other fd p fl s)"
proof -
  from assms(4) obtain c where c: "rd p 0 = Some c" by (auto simp: c_string_def rd_def)
  have "quiet r' s' (hash_then_stat (version env) C (Metadata_hash_at fh f1 q) (Stat_at fh f2 q) s')"
    if "fs_inv r' s'" for r' s' fh f1 f2 q
    by (rule quiet_hash_then_stat [OF assms(1) that]) auto
  with c assms(3) show ?thesis unfolding fstatat_def Let_def
    by (auto intro!: quiet_Err quiet_fstat [OF assms(1-3)] quiet_with_file_handle [OF assms(3)] quiet_string [OF assms(4)])
qed

lemma quiet_calls:
  assumes t: "host_typed (version env) C" and f: "fstat_pure other" and i: "fs_inv r s"
    and c: "list_all c_string (call_strings c)"
  shows "quiet r s (run_call env C other c s)"
proof (cases c)
  case (C_symlinkat p fd q)
  with c t i show ?thesis by (auto simp: symlinkat_def intro!: quiet_intros)
next
  case (C_linkat fd p fd' q fl)
  with c t i show ?thesis by (auto simp: linkat_def Let_def intro!: quiet_intros)
next
  case (C_renameat fd p fd' q)
  with c t i show ?thesis by (auto simp: renameat_def intro!: quiet_intros)
next
  case (C_readlinkat fd p n)
  with c t i show ?thesis
    by (auto simp: readlinkat_def Let_def intro!: quiet_drop quiet_intros)
next
  case (C_ftruncate fd n)
  with t i show ?thesis by (auto simp: ftruncate_def intro!: quiet_intros)
next
  case (C_pwrite fd b pos)
  with t i show ?thesis by (auto simp: pwrite_def intro!: quiet_drop quiet_intros)
next
  case (C_preadv fd iov n pos)
  with t i show ?thesis
    by (auto simp: preadv_def intro!: quiet_drop quiet_readv_from quiet_pread quiet_Err)
qed (use t f i c in \<open>auto simp: rmdirat_def unlinkat_def mkdirat_def fsync_def fdatasync_def
      intro!: quiet_drop quiet_path_call quiet_fstat quiet_fstatat quiet_utimens quiet_faccessat quiet_pread
        quiet_fadvise quiet_with_file_handle quiet_host_bind quiet_Ret\<close>)

section \<open>What single calls do\<close>

lemma path_call_holds:
  assumes "host_typed (version env) C" "fs_inv r s" "path = str @ 0 # t" "0 \<notin> set str" "length str < 2 ^ 31"
  shows "holds (path_call env C req fd path s)
    (\<lambda>_ s'. (dt_inv r s' \<and> stdio_initialized s') \<and>
       (\<lambda>v. \<exists>fh a h. 0 \<le> fd \<and> handle_of s (nat fd) = Some fh \<and> is_utf8 str \<and>
          C (req fh str) (fw_host (world s)) = (Inr a, h) \<and> lib_view v = st_view s \<and> fw_host (snd v) = h)
        (global_table s', world s'))
    (\<lambda>er s'. (dt_inv r s' \<and> stdio_initialized s') \<and>
       (\<lambda>v. lib_view v = st_view s \<and>
          (er = EBADF \<and> (fd < 0 \<or> fd_map (global_table s) (nat fd) = None) \<or>
           er = EINVAL \<and> fd_map (global_table s) (nat fd) \<noteq> None \<and> handle_of s (nat fd) = None \<or>
           er = EILSEQ \<and> handle_of s (nat fd) \<noteq> None \<and> \<not> is_utf8 str \<or>
           (\<exists>fh e h. handle_of s (nat fd) = Some fh \<and> is_utf8 str \<and>
              C (req fh str) (fw_host (world s)) = (Inl e, h) \<and> translate_error (version env) e = Some er \<and>
              fw_host (snd v) = h))) (global_table s', world s'))"
  unfolding path_call_def with_file_handle_def with_entry_def
proof (rule dtb.borrow_holds, goal_cases)
  case (2 e s1)
  then have g: "global_table s1 = global_table s" "world s1 = world s" by auto
  show ?case
  proof (cases "e_vtable e = File_vtable")
    case False
    with 2 g show ?thesis by (simp add: handle_of_def)
  next
    case True
    with 2 have h: "handle_of s (nat fd) = Some (file_handle (fw_files (world s) (e_data e)))" by (simp add: handle_of_def)
    show ?thesis
    proof (cases "is_utf8 str")
      case False
      with True 2 g h show ?thesis by (simp add: with_string_cases [OF assms(3-5)])
    next
      case utf: True
      show ?thesis
      proof (cases rule: host_call_cases [OF assms(1), of "req (file_handle (fw_files (world s) (e_data e))) str" s1])
        case a: (1 a h')
        with True utf 2 g h show ?thesis
          by (simp add: with_string_cases [OF assms(3-5)] file_get_file_def on_host_def lib_view_def dt_inv_def)
      next
        case a: (2 er n h')
        with True utf 2 g h show ?thesis
          by (simp add: with_string_cases [OF assms(3-5)] file_get_file_def on_host_def lib_view_def dt_inv_def)
      qed
    qed
  qed
qed (use assms(2) in \<open>auto simp: fs_inv_def\<close>)

subsection \<open>Opening a file\<close>

abbreviation (input) fresh_file :: "handle \<Rightarrow> 32 word \<Rightarrow> file_t" where
  "fresh_file fh flags \<equiv> \<lparr>file_handle = fh, offset = 0, oflag = flags, read_stream = 0, write_stream = 0,
     read_pollable = 0, write_pollable = 0\<rparr>"

lemma add_file_holds:
  assumes "fs_inv r s" "fh \<noteq> 0" "\<And>p. calloc = Some p \<Longrightarrow> cnt s p = 0"
  shows "holds (wasilibc_add_file H env calloc fh flags s)
    (\<lambda>n s'. fs_inv r s' \<and> (\<exists>p. calloc = Some p \<and> n = (LEAST i. fd_map (global_table s) i = None) \<and>
       fd_map (global_table s') = (fd_map (global_table s))(n \<mapsto> \<lparr>e_data = p, e_vtable = File_vtable\<rparr>) \<and>
       world s' = (world s)\<lparr>fw_files := (fw_files (world s))(p := fresh_file fh flags)\<rparr>))
    (\<lambda>er s'. er = ENOMEM \<and> fs_inv r s' \<and> fd_map (global_table s') = fd_map (global_table s))"
proof (cases calloc)
  case None
  with assms(1) show ?thesis by (simp add: wasilibc_add_file_def fs_inv_def dt_inv_def)
next
  case (Some p)
  let ?s = "s\<lparr>world := (world s)\<lparr>fw_files := (fw_files (world s))(p := fresh_file fh flags)\<rparr>\<rparr>"
  let ?e = "\<lparr>e_data = p, e_vtable = File_vtable\<rparr>"
  have "dt_inv r ?s" "cnt ?s (e_data ?e) = 0" "stdio_initialized ?s"
    using assms(1) assms(3) [OF Some] by (simp_all add: fs_inv_def dt_inv_def)
  from insert_holds [OF this(1,2), of env] this(3) Some assms(2) show ?thesis
    by (auto simp: wasilibc_add_file_def fs_inv_def elim!: holds_mono)
qed

lemma least_free:
  assumes "table_inv t"
  shows "fd_map t (LEAST i. fd_map t i = None) = None"
  by (rule LeastI [of _ "length (entries t)"]) (simp add: fd_map_def)

lemma openat_holds:
  assumes "host_typed (version env) C" "fs_inv r s" "c_string path" "fresh_alloc env falloc"
    "fs_flags_of oflags = Some ff"
  shows "holds (openat H env C falloc fd path oflags s)
    (\<lambda>n s'. (dt_inv r s' \<and> stdio_initialized s') \<and>
       (\<lambda>v. \<exists>p fh str nh h. handle_of s (nat fd) = Some fh \<and>
          C (Open_at fh (lookup_flags_of oflags) str (open_flags_of oflags) ff) (fw_host (world s)) =
            (Inr (A_handle nh), h) \<and>
          n = (LEAST i. fd_map (global_table s) i = None) \<and>
          fd_map (fst v) = (fd_map (global_table s))(n \<mapsto> \<lparr>e_data = p, e_vtable = File_vtable\<rparr>) \<and>
          fw_files (snd v) = (fw_files (world s))(p := fresh_file nh oflags) \<and> fw_host (snd v) = h)
        (global_table s', world s'))
    (\<lambda>er s'. (dt_inv r s' \<and> stdio_initialized s') \<and>
       (\<lambda>v. fd_map (fst v) = fd_map (global_table s)) (global_table s', world s'))"
  unfolding openat_def assms(5) option.case with_file_handle_def with_entry_def
proof (rule dtb.borrow_holds, goal_cases)
  case (2 e s1)
  let ?r = "r(e_data e := Suc (r (e_data e)))"
  let ?fh = "file_handle (fw_files (world s) (e_data e))"
  from 2 have g: "global_table s1 = global_table s" "world s1 = world s" "fs_inv ?r s1" by (auto simp: fs_inv_def)
  from 2 have m: "fd_map (global_table s) (nat fd) = Some e" by simp
  from with_string_any [OF assms(3)] obtain x where
    "\<forall>body s. with_string path (body :: _ \<Rightarrow> 'a fs_state \<Rightarrow> (nat, _) outcome) s =
      (case x of None \<Rightarrow> Err EILSEQ s | Some str \<Rightarrow> body str s)" by (elim exE)
  note p = this [rule_format]
  let ?str = "the x"
  let ?q = "Open_at ?fh (lookup_flags_of oflags) ?str (open_flags_of oflags) ff"
  have ti: "table_inv (global_table s)" using assms(2) by (simp add: fs_inv_def dt_inv_def)
  show ?case
  proof (cases "e_vtable e = File_vtable \<and> x \<noteq> None")
    case False
    with 2 g show ?thesis by (cases x) (auto simp: p fs_inv_def)
  next
    case True
    then obtain y where x: "x = Some y" by auto
    from True have h: "handle_of s (nat fd) = Some ?fh" using 2 by (simp add: handle_of_def)
    show ?thesis
    proof (cases rule: host_call_cases [OF assms(1), of ?q s1])
      case (1 a h')
      then obtain nh where nh: "a = A_handle nh" "nh \<noteq> 0" by auto
      with 1 g have ok: "C ?q (fw_host (world s)) = (Inr (A_handle nh), h')" by simp
      let ?s2 = "on_host (\<lambda>_. h') s1"
      have z: "cnt ?s2 p = 0" if "falloc ?s2 = Some p" for p
        using assms(4) that unfolding fresh_alloc_def insert_pre_def by fastforce
      have "holds (wasilibc_add_file H env (falloc ?s2) nh oflags ?s2)
        (\<lambda>n s'. fs_inv ?r s' \<and> (\<exists>p. falloc ?s2 = Some p \<and> n = (LEAST i. fd_map (global_table ?s2) i = None) \<and>
           fd_map (global_table s') = (fd_map (global_table ?s2))(n \<mapsto> \<lparr>e_data = p, e_vtable = File_vtable\<rparr>) \<and>
           world s' = (world ?s2)\<lparr>fw_files := (fw_files (world ?s2))(p := fresh_file nh oflags)\<rparr>))
        (\<lambda>er s'. er = ENOMEM \<and> fs_inv ?r s' \<and> fd_map (global_table s') = fd_map (global_table ?s2))"
        by (rule add_file_holds) (use g nh z in auto)
      then have "holds (wasilibc_add_file H env (falloc ?s2) nh oflags ?s2)
        (\<lambda>n s'. (dt_inv ?r s' \<and> stdio_initialized s') \<and> fd_map (global_table s') (nat fd) = Some e \<and>
          (\<exists>p fh str nh h. handle_of s (nat fd) = Some fh \<and>
             C (Open_at fh (lookup_flags_of oflags) str (open_flags_of oflags) ff) (fw_host (world s)) =
               (Inr (A_handle nh), h) \<and>
             n = (LEAST i. fd_map (global_table s) i = None) \<and>
             fd_map (global_table s') = (fd_map (global_table s))(n \<mapsto> \<lparr>e_data = p, e_vtable = File_vtable\<rparr>) \<and>
             fw_files (world s') = (fw_files (world s))(p := fresh_file nh oflags) \<and> fw_host (world s') = h))
        (\<lambda>er s'. (dt_inv ?r s' \<and> stdio_initialized s') \<and> fd_map (global_table s') (nat fd) = Some e \<and>
          fd_map (global_table s') = fd_map (global_table s))"
      proof (rule holds_mono, goal_cases)
        case (1 n s')
        have "nat fd \<noteq> (LEAST i. fd_map (global_table s) i = None)"
          using m least_free [OF ti] by auto
        moreover from 1 obtain p where "fs_inv ?r s'" "n = (LEAST i. fd_map (global_table s) i = None)"
          "fd_map (global_table s') = (fd_map (global_table s))(n \<mapsto> \<lparr>e_data = p, e_vtable = File_vtable\<rparr>)"
          "fw_files (world s') = (fw_files (world s))(p := fresh_file nh oflags)" "fw_host (world s') = h'"
          using g by (auto simp: on_host_def)
        ultimately show ?case using h m ok
          by (intro conjI exI [of _ p] exI [of _ ?fh] exI [of _ ?str] exI [of _ nh] exI [of _ h'])
            (simp_all add: fs_inv_def)
      next
        case (2 er s')
        with g m show ?case by (auto simp: fs_inv_def on_host_def)
      qed
      with 1 nh True g show ?thesis
        by (simp add: p x file_get_file_def del: fun_upd_apply)
    next
      case (2 er n h')
      with True m g show ?thesis
        by (simp add: p x file_get_file_def fs_inv_def on_host_def dt_inv_def)
    qed
  qed
qed (use assms(2) in \<open>auto simp: fs_inv_def\<close>)

lemma accmode_bits:
  fixes w :: "32 word"
  shows "w AND O_RDONLY = (w AND O_ACCMODE) AND O_RDONLY" "w AND O_WRONLY = (w AND O_ACCMODE) AND O_WRONLY"
  by (simp_all add: and.assoc)

definition open_mode :: "32 word \<Rightarrow> 32 word" where
  "open_mode oflags =
     (let mode = oflags AND O_ACCMODE in if mode = O_RDONLY \<or> mode = O_RDWR \<or> mode = O_WRONLY then mode else O_SEARCH)"

lemma sync_bits:
  fixes b :: "8 word"
  shows "(b OR 4) AND 1 = b AND 1" "(b OR 8) AND 1 = b AND 1" "(b OR 16) AND 1 = b AND 1"
    "(b OR 4) AND 2 = b AND 2" "(b OR 8) AND 2 = b AND 2" "(b OR 16) AND 2 = b AND 2"
  by (simp_all add: bit.conj_disj_distrib2)

lemma fs_flags_base:
  assumes "fs_flags_of oflags = Some ff"
  obtains b where "ff AND FLAGS_READ = b AND FLAGS_READ" "ff AND FLAGS_WRITE = b AND FLAGS_WRITE"
    "(oflags AND O_ACCMODE = O_RDONLY \<and> b = FLAGS_READ) \<or>
     (oflags AND O_ACCMODE = O_RDWR \<and> b = FLAGS_READ OR (FLAGS_WRITE OR FLAGS_MUTATE_DIRECTORY)) \<or>
     (oflags AND O_ACCMODE = O_WRONLY \<and> b = FLAGS_WRITE OR FLAGS_MUTATE_DIRECTORY) \<or>
     ((oflags AND O_ACCMODE = O_EXEC \<or> oflags AND O_ACCMODE = O_SEARCH) \<and> b = 0)"
proof -
  define adj :: "8 word \<Rightarrow> 8 word" where
    "adj b = (let b = (if oflags AND O_SYNC \<noteq> 0 then b OR FLAGS_FILE_INTEGRITY_SYNC else b);
                  b = (if oflags AND O_DSYNC \<noteq> 0 then b OR FLAGS_DATA_INTEGRITY_SYNC else b) in
              if oflags AND O_RSYNC \<noteq> 0 then b OR FLAGS_REQUESTED_WRITE_SYNC else b)" for b
  have adj: "adj b AND FLAGS_READ = b AND FLAGS_READ" "adj b AND FLAGS_WRITE = b AND FLAGS_WRITE" for b
    by (simp_all add: adj_def sync_bits)
  define mode where "mode = oflags AND O_ACCMODE"
  have ff: "(case (if mode = O_RDONLY \<or> mode = O_RDWR \<or> mode = O_WRONLY then
              Some (if mode AND O_WRONLY \<noteq> 0
                    then (if mode AND O_RDONLY \<noteq> 0 then 0 OR FLAGS_READ else 0) OR (FLAGS_WRITE OR FLAGS_MUTATE_DIRECTORY)
                    else (if mode AND O_RDONLY \<noteq> 0 then 0 OR FLAGS_READ else 0))
            else if mode = O_EXEC then Some 0
            else if mode = O_SEARCH then Some 0
            else None) of None \<Rightarrow> None | Some b \<Rightarrow> Some (adj b)) = Some ff"
    using assms unfolding fs_flags_of_def Let_def accmode_bits [of oflags] adj_def mode_def .
  consider (r) "mode = O_RDONLY" | (rw) "mode = O_RDWR" | (w) "mode = O_WRONLY" | (n) "mode = O_EXEC \<or> mode = O_SEARCH"
    | (bad) "mode \<noteq> O_RDONLY" "mode \<noteq> O_RDWR" "mode \<noteq> O_WRONLY" "mode \<noteq> O_EXEC" "mode \<noteq> O_SEARCH" by blast
  then show ?thesis
  proof cases
    case r
    with ff have "ff = adj FLAGS_READ" by simp
    with r adj show ?thesis by (intro that [of FLAGS_READ]) (simp_all add: mode_def)
  next
    case rw
    with ff have "ff = adj (FLAGS_READ OR (FLAGS_WRITE OR FLAGS_MUTATE_DIRECTORY))" by simp
    with rw adj show ?thesis
      by (intro that [of "FLAGS_READ OR (FLAGS_WRITE OR FLAGS_MUTATE_DIRECTORY)"]) (simp_all add: mode_def)
  next
    case w
    with ff have "ff = adj (FLAGS_WRITE OR FLAGS_MUTATE_DIRECTORY)" by simp
    with w adj show ?thesis
      by (intro that [of "FLAGS_WRITE OR FLAGS_MUTATE_DIRECTORY"]) (simp_all add: mode_def)
  next
    case n
    with ff have "ff = adj 0" by auto
    with n adj show ?thesis by (intro that [of 0]) (simp_all add: mode_def)
  next
    case bad
    with ff show ?thesis by simp
  qed
qed

lemma fs_flags_access:
  assumes "fs_flags_of oflags = Some ff"
  shows "ff AND FLAGS_READ \<noteq> 0 \<longleftrightarrow> open_mode oflags = O_RDONLY \<or> open_mode oflags = O_RDWR"
    and "ff AND FLAGS_WRITE \<noteq> 0 \<longleftrightarrow> open_mode oflags = O_WRONLY \<or> open_mode oflags = O_RDWR"
    and "open_mode oflags \<in> {O_RDONLY, O_WRONLY, O_RDWR, O_SEARCH}"
proof -
  obtain b where b: "ff AND FLAGS_READ = b AND FLAGS_READ" "ff AND FLAGS_WRITE = b AND FLAGS_WRITE"
    "(oflags AND O_ACCMODE = O_RDONLY \<and> b = FLAGS_READ) \<or>
     (oflags AND O_ACCMODE = O_RDWR \<and> b = FLAGS_READ OR (FLAGS_WRITE OR FLAGS_MUTATE_DIRECTORY)) \<or>
     (oflags AND O_ACCMODE = O_WRONLY \<and> b = FLAGS_WRITE OR FLAGS_MUTATE_DIRECTORY) \<or>
     ((oflags AND O_ACCMODE = O_EXEC \<or> oflags AND O_ACCMODE = O_SEARCH) \<and> b = 0)"
    by (rule fs_flags_base [OF assms])
  from b(3) show "ff AND FLAGS_READ \<noteq> 0 \<longleftrightarrow> open_mode oflags = O_RDONLY \<or> open_mode oflags = O_RDWR"
    unfolding b(1) open_mode_def Let_def by (elim disjE conjE) simp_all
  from b(3) show "ff AND FLAGS_WRITE \<noteq> 0 \<longleftrightarrow> open_mode oflags = O_WRONLY \<or> open_mode oflags = O_RDWR"
    unfolding b(2) open_mode_def Let_def by (elim disjE conjE) simp_all
  from b(3) show "open_mode oflags \<in> {O_RDONLY, O_WRONLY, O_RDWR, O_SEARCH}"
    unfolding open_mode_def Let_def by (elim disjE conjE) simp_all
qed

text \<open>What a descriptor reports of its flags is what it was opened with.\<close>

definition host_reports_flags :: "'h fs_calls \<Rightarrow> 'h fs_host \<Rightarrow> bool" where
  "host_reports_flags C H \<longleftrightarrow> (\<forall>fh lf p opf ff nh h h'. C (Open_at fh lf p opf ff) h = (Inr (A_handle nh), h') \<longrightarrow>
     (\<exists>f h''. get_flags H nh h' = (Inr f, h'') \<and> f AND (FLAGS_READ OR FLAGS_WRITE) = ff AND (FLAGS_READ OR FLAGS_WRITE)))"

lemma flags_agree:
  fixes f ff :: "8 word"
  assumes "f AND (FLAGS_READ OR FLAGS_WRITE) = ff AND (FLAGS_READ OR FLAGS_WRITE)"
  shows "f AND FLAGS_READ = ff AND FLAGS_READ" "f AND FLAGS_WRITE = ff AND FLAGS_WRITE"
proof -
  have "(f AND (FLAGS_READ OR FLAGS_WRITE)) AND FLAGS_READ = f AND FLAGS_READ" for f :: "8 word" by (simp add: and.assoc)
  with assms show "f AND FLAGS_READ = ff AND FLAGS_READ" by metis
  have "(f AND (FLAGS_READ OR FLAGS_WRITE)) AND FLAGS_WRITE = f AND FLAGS_WRITE" for f :: "8 word" by (simp add: and.assoc)
  with assms show "f AND FLAGS_WRITE = ff AND FLAGS_WRITE" by metis
qed

lemma getfl_value:
  assumes "get_flags H nh h = (Inr f, h')" "f AND (FLAGS_READ OR FLAGS_WRITE) = ff AND (FLAGS_READ OR FLAGS_WRITE)"
    "fs_flags_of oflags = Some ff"
  shows "file_fcntl_getfl H (fresh_file nh oflags, h) =
    Ret ((oflags AND (O_NONBLOCK OR O_APPEND)) OR open_mode oflags) (fresh_file nh oflags, h')"
proof -
  note acc = fs_flags_access [OF assms(3)]
  from acc(3) show ?thesis
    using assms(1) acc(1,2) flags_agree [OF assms(2)]
    by (auto simp: file_fcntl_getfl_def)
qed

lemma with_entry_returns:
  assumes "fs_inv r s" "fd_map (global_table s) (nat fd) = Some e" "0 \<le> fd"
    "\<And>s1. global_table s1 = global_table s \<Longrightarrow> world s1 = world s \<Longrightarrow> body e s1 = Ret a (s1\<lparr>world := w\<rparr>)"
  shows "\<exists>s'. with_entry env fd body s = Ret a s' \<and> fs_inv r s' \<and> global_table s' = global_table s \<and> world s' = w"
proof -
  have "holds (with_entry env fd body s)
      (\<lambda>x s'. (dt_inv r s' \<and> stdio_initialized s') \<and>
         (\<lambda>v. x = a \<and> fst v = global_table s \<and> snd v = w) (global_table s', world s'))
      (\<lambda>_ s'. (dt_inv r s' \<and> stdio_initialized s') \<and> (\<lambda>v. False) (global_table s', world s'))"
    unfolding with_entry_def
  proof (rule dtb.borrow_holds, goal_cases)
    case (2 e' s1)
    then have "e' = e" using assms(2) by simp
    moreover have "body e s1 = Ret a (s1\<lparr>world := w\<rparr>)" using 2 by (intro assms(4)) auto
    ultimately show ?case using 2 assms(2) by (simp add: dt_inv_def)
  qed (use assms in \<open>auto simp: fs_inv_def\<close>)
  then show ?thesis by (cases "with_entry env fd body s") (auto simp: fs_inv_def)
qed

section \<open>Properties\<close>

text \<open>The concrete host of the witnesses: fixed answers, and only openings for reading succeed.\<close>

primrec demo_ans :: "fs_req \<Rightarrow> fs_ans" where
  "demo_ans (Open_at _ _ _ _ _) = A_handle 9"
| "demo_ans (Create_directory_at _ _) = Done"
| "demo_ans (Remove_directory_at _ _) = Done"
| "demo_ans (Unlink_file_at _ _) = Done"
| "demo_ans (Symlink_at _ _ _) = Done"
| "demo_ans (Link_at _ _ _ _ _) = Done"
| "demo_ans (Rename_at _ _ _ _) = Done"
| "demo_ans (Readlink_at _ _) = A_string [97, 98]"
| "demo_ans (Metadata_hash _) = A_hash 1"
| "demo_ans (Metadata_hash_at _ fl _) = A_hash (if fl = 0 then 17 else 18)"
| "demo_ans (Stat _) = A_stat \<lparr>ds_type = T_regular_file, ds_link_count = 1, ds_size = 5, ds_atim = None,
     ds_mtim = None, ds_ctim = None\<rparr>"
| "demo_ans (Stat_at _ _ _) = A_stat \<lparr>ds_type = T_regular_file, ds_link_count = 1, ds_size = 5, ds_atim = None,
     ds_mtim = None, ds_ctim = None\<rparr>"
| "demo_ans (Set_times _ _ _) = Done"
| "demo_ans (Set_times_at _ _ _ _ _) = Done"
| "demo_ans (Sync _) = Done"
| "demo_ans (Sync_data _) = Done"
| "demo_ans (Set_size _ _) = Done"
| "demo_ans (Read _ n _) = A_string []"
| "demo_ans (Write _ bs _) = A_count (length bs)"
| "demo_ans (Advise _ _ _ _) = Done"
| "demo_ans (Get_flags _) = A_flags FLAGS_READ"

definition demo_calls :: "mem_state fs_calls" where
  "demo_calls q h =
     (case q of
        Open_at _ _ _ _ ff \<Rightarrow> if ff AND (FLAGS_READ OR FLAGS_WRITE) = FLAGS_READ then (Inr (demo_ans q), h) else (Inl FS_READ_ONLY, h)
      | _ \<Rightarrow> (Inr (demo_ans q), h))"

definition demo_fs :: "mem_state fs_state" where
  "demo_fs = rest demo_po"

definition demo_vt :: "mem_state other_vt" where
  "demo_vt = \<lparr>o_getfl = (\<lambda>_. None), o_setfl = (\<lambda>_. None), o_read = (\<lambda>_. None), o_write = (\<lambda>_. None)\<rparr>"

definition demo_name :: "byte list" where
  "demo_name = [97, 98, 0]"

lemma demo_typed: "host_typed v demo_calls"
proof -
  have "ans_ok q (demo_ans q)" for q by (cases q) simp_all
  then show ?thesis by (auto simp: host_typed_def demo_calls_def translate_error_def split: fs_req.splits)
qed

lemma demo_reports: "host_reports_flags demo_calls mem_host"
  by (auto simp: host_reports_flags_def demo_calls_def mem_host_def split: if_splits)

lemma demo_fs_inv: "dt_inv (\<lambda>_. 0) demo_fs" "stdio_initialized demo_fs"
proof -
  have "list_all (\<lambda>d. fst d \<noteq> 0) demo_dirs" by (simp add: demo_dirs_def)
  from populate_list_holds [OF demo_falloc_fresh this po_inv_init(1) [of "dt_init demo_world"], of "[]" demo_alloc "\<lambda>_. True" mem_host]
    po_inv_init(2) [of demo_world]
  have p: "holds (populate_list demo_alloc (\<lambda>_. True) mem_host demo_fenv demo_falloc demo_dirs (po_init (dt_init demo_world)))
      (\<lambda>_ s. populated_with (map fst demo_dirs) (rest s)) (\<lambda>_ _. True)"
    by (auto simp: po_init_def elim!: holds_mono)
  from demo_po_eq(1) obtain s0 where s0: "s0\<lparr>preopens_populated := True\<rparr> = demo_po"
    "populate_list demo_alloc (\<lambda>_. True) mem_host demo_fenv demo_falloc demo_dirs (po_init (dt_init demo_world)) = Ret () s0"
    by (cases "populate_list demo_alloc (\<lambda>_. True) mem_host demo_fenv demo_falloc demo_dirs (po_init (dt_init demo_world))")
      (auto simp: demo_populate_def populate_preopens_def po_init_def)
  with p have "populated_with (map fst demo_dirs) (rest s0)" by simp
  moreover have "rest demo_po = rest s0" unfolding s0 [symmetric] by simp
  ultimately have "populated_with (map fst demo_dirs) (rest demo_po)" by simp
  then show "dt_inv (\<lambda>_. 0) demo_fs" "stdio_initialized demo_fs"
    by (simp_all add: populated_with_def demo_dirs_def demo_fs_def)
qed

lemma demo_name_string: "c_string demo_name"
  unfolding c_string_def demo_name_def by (intro exI [of _ "[97, 98]"] exI [of _ "[]"]) simp

text \<open>C19: Every one of the nineteen calls below the path layer returns, and on every path,
  whatever the host answers, gives back the references it borrowed: the invariant of the descriptor
  table holds again with exactly the references held before, and the table and the files are
  unchanged.\<close>

theorem calls_give_back:
  assumes "host_typed (version env) C" "fstat_pure other" "dt_inv r s" "stdio_initialized s"
    "list_all c_string (call_strings c)"
  shows "case run_call env C other c s of
      Ret _ s' \<Rightarrow> dt_inv r s' \<and> global_table s' = global_table s \<and> fw_files (world s') = fw_files (world s)
    | Err _ s' \<Rightarrow> dt_inv r s' \<and> global_table s' = global_table s \<and> fw_files (world s') = fw_files (world s)
    | _ \<Rightarrow> False"
proof -
  have "fs_inv r s" using assms(3,4) by (simp add: fs_inv_def)
  from quiet_calls [OF assms(1,2) this assms(5)] show ?thesis
    by (cases "run_call env C other c s") (auto simp: quiet_def fs_inv_def lib_view_def)
qed

theorem calls_give_back_witness:
  "\<exists>s'. run_call demo_fenv demo_calls (\<lambda>_ _ s. Err ENOTSUP s) (C_linkat 3 demo_name 4 demo_name 0) demo_fs = Ret () s' \<and>
     dt_inv (\<lambda>_. 0) s' \<and> global_table s' = global_table demo_fs"
proof -
  have c: "list_all c_string (call_strings (C_linkat 3 demo_name 4 demo_name 0))" by (simp add: demo_name_string)
  have f: "fstat_pure (\<lambda>_ _ s. Err ENOTSUP s)" by (simp add: fstat_pure_def)
  have "ret_val (run_call demo_fenv demo_calls (\<lambda>_ _ s. Err ENOTSUP s) (C_linkat 3 demo_name 4 demo_name 0) demo_fs)
      = Some ()" by code_simp
  note eq = ret_val_Ret [OF this]
  from calls_give_back [OF demo_typed f demo_fs_inv c, where env = demo_fenv] show ?thesis
    by (subst (asm) eq, subst eq) simp
qed

text \<open>C31: \<open>mkdirat\<close>, \<open>unlinkat\<close> and the removal of a directory answer \<open>EBADF\<close> for a descriptor
  that is not open, \<open>EINVAL\<close> for one that is not a file, \<open>EILSEQ\<close> for a name that is not UTF-8,
  and otherwise make exactly one request, with the handle of the file and the bytes of the name
  without its terminator, and answer what the host answered, its error translated.\<close>

theorem path_call_correct:
  assumes "host_typed (version env) C" "dt_inv r s" "stdio_initialized s"
    "path = str @ 0 # t" "0 \<notin> set str" "length str < 2 ^ 31"
    "(call, req) \<in> {(mkdirat env C fd path s, Create_directory_at), (unlinkat env C fd path s, Unlink_file_at),
       (rmdirat env C fd path s, Remove_directory_at)}"
  shows "case call of
      Ret _ s' \<Rightarrow> \<exists>fh a. handle_of s (nat fd) = Some fh \<and> 0 \<le> fd \<and> is_utf8 str \<and>
        C (req fh str) (fw_host (world s)) = (Inr a, fw_host (world s'))
    | Err er s' \<Rightarrow>
        er = EBADF \<and> (fd < 0 \<or> fd_map (global_table s) (nat fd) = None) \<or>
        er = EINVAL \<and> fd_map (global_table s) (nat fd) \<noteq> None \<and> handle_of s (nat fd) = None \<or>
        er = EILSEQ \<and> handle_of s (nat fd) \<noteq> None \<and> \<not> is_utf8 str \<or>
        (\<exists>fh e. handle_of s (nat fd) = Some fh \<and> is_utf8 str \<and>
           C (req fh str) (fw_host (world s)) = (Inl e, fw_host (world s')) \<and>
           translate_error (version env) e = Some er)
    | _ \<Rightarrow> False"
proof -
  have "fs_inv r s" using assms(2,3) by (simp add: fs_inv_def)
  note h = path_call_holds [OF assms(1) this assms(4-6), of req fd]
  have "call = path_call env C req fd path s"
    using assms(7) by (auto simp: mkdirat_def unlinkat_def rmdirat_def)
  with h show ?thesis by (cases "path_call env C req fd path s") auto
qed

theorem path_call_correct_witness:
  "handle_of demo_fs 4 = Some 6 \<and> (\<exists>s' a. mkdirat demo_fenv demo_calls 4 demo_name demo_fs = Ret () s' \<and>
     demo_calls (Create_directory_at 6 [97, 98]) (fw_host (world demo_fs)) = (Inr a, fw_host (world s')))"
proof -
  have h: "handle_of demo_fs 4 = Some 6" by code_simp
  have "ret_val (mkdirat demo_fenv demo_calls 4 demo_name demo_fs) = Some ()" by code_simp
  then obtain s' where "mkdirat demo_fenv demo_calls 4 demo_name demo_fs = Ret () s'" by (metis ret_val_Ret)
  with path_call_correct [OF demo_typed demo_fs_inv, of demo_name "[97, 98]" "[]"
      "mkdirat demo_fenv demo_calls 4 demo_name demo_fs" Create_directory_at demo_fenv 4] h
  show ?thesis by (auto simp: demo_name_def)
qed



text \<open>C39: When \<open>fstatat\<close> follows symbolic links, the inode number it reports is that of the
  metadata hash requested \<^emph>\<open>without\<close> following links, while the type, size and times come from a
  request that follows them: for a link the two belong to different files. (The test
  \<open>flag | AT_SYMLINK_NOFOLLOW\<close> is true for every \<open>flag\<close>.)\<close>

theorem fstatat_hash_ignores_links:
  assumes "host_typed (version env) C" "dt_inv r s" "stdio_initialized s" "0 \<le> fd" "handle_of s (nat fd) = Some fh"
    "path = str @ 0 # t" "0 \<notin> set str" "length str < 2 ^ 31" "str \<noteq> []" "is_utf8 str"
    "flag AND AT_SYMLINK_NOFOLLOW = 0"
    "C (Metadata_hash_at fh 0 str) (fw_host (world s)) = (Inr (A_hash m), h1)"
    "C (Stat_at fh PATH_SYMLINK_FOLLOW str) h1 = (Inr (A_stat st), h2)"
  shows "\<exists>s'. fstatat env C other fd path flag s = Ret (to_public_stat (version env) m st) s' \<and>
    st_ino (to_public_stat (version env) m st) = m"
proof -
  from assms(5) obtain e where e: "fd_map (global_table s) (nat fd) = Some e" "e_vtable e = File_vtable"
    "file_handle (fw_files (world s) (e_data e)) = fh" by (auto simp: handle_of_def split: option.splits if_splits)
  have "flag OR AT_SYMLINK_NOFOLLOW \<noteq> 0" by (simp add: or_eq_0_iff)
  moreover from assms(6,7,9) have "\<exists>c. rd path 0 = Some c \<and> c \<noteq> 0" by (cases str) (auto simp: rd_def)
  moreover have "fs_inv r s" using assms(2,3) by (simp add: fs_inv_def)
  moreover have "\<exists>s'. with_entry env fd (\<lambda>e s. if e_vtable e \<noteq> File_vtable then Err EINVAL s
        else with_string path (\<lambda>p. hash_then_stat (version env) C
           (Metadata_hash_at (file_get_file (e_data e) (world s)) 0 p)
           (Stat_at (file_get_file (e_data e) (world s)) PATH_SYMLINK_FOLLOW p)) s) s =
      Ret (to_public_stat (version env) m st) s' \<and> fs_inv r s' \<and> global_table s' = global_table s \<and>
      world s' = (world s)\<lparr>fw_host := h2\<rparr>"
    by (rule with_entry_returns [OF \<open>fs_inv r s\<close> e(1) assms(4)])
      (use e assms(10,12,13) in \<open>simp add: with_string_cases [OF assms(6-8)] hash_then_stat_def host_call_def
         file_get_file_def on_host_def\<close>)
  moreover have "st_ino (to_public_stat (version env) m st) = m"
    by (cases "ds_type st") (simp_all add: to_public_stat_def Let_def)
  ultimately show ?thesis using assms(11) by (auto simp: fstatat_def with_file_handle_def)
qed

theorem fstatat_hash_ignores_links_witness:
  "\<exists>s'. fstatat demo_fenv demo_calls (\<lambda>_ _ s. Err ENOTSUP s) 4 demo_name 0 demo_fs =
     Ret (to_public_stat P2 17 \<lparr>ds_type = T_regular_file, ds_link_count = 1, ds_size = 5, ds_atim = None,
     ds_mtim = None, ds_ctim = None\<rparr>) s' \<and>
     demo_calls (Metadata_hash_at 6 PATH_SYMLINK_FOLLOW [97, 98]) (fw_host (world demo_fs)) = (Inr (A_hash 18), fw_host (world demo_fs))"
proof -
  have h: "handle_of demo_fs (nat 4) = Some 6" by code_simp
  have u: "is_utf8 [97, 98]"
    unfolding is_utf8_def by (rule exI [of _ "[97, 98]"]) (simp add: scalar_def encode_utf8_def utf8_char_def)
  have v: "version demo_fenv = P2" by (simp add: demo_fenv_def)
  have "\<exists>s'. fstatat demo_fenv demo_calls (\<lambda>_ _ s. Err ENOTSUP s) 4 demo_name 0 demo_fs =
      Ret (to_public_stat (version demo_fenv) 17 \<lparr>ds_type = T_regular_file, ds_link_count = 1, ds_size = 5, ds_atim = None,
     ds_mtim = None, ds_ctim = None\<rparr>) s' \<and> st_ino (to_public_stat (version demo_fenv) 17 \<lparr>ds_type = T_regular_file,
       ds_link_count = 1, ds_size = 5, ds_atim = None, ds_mtim = None, ds_ctim = None\<rparr>) = 17"
    by (rule fstatat_hash_ignores_links [OF demo_typed demo_fs_inv _ h, where str = "[97, 98]" and t = "[]"
          and ?h1.0 = "fw_host (world demo_fs)" and ?h2.0 = "fw_host (world demo_fs)"])
      (simp_all add: demo_name_def demo_calls_def u)
  then show ?thesis by (auto simp: v demo_calls_def)
qed

end
