(* ===== verification/Cwd.thy ===== *)
theory Cwd
  imports Fs_Calls
begin

text \<open>
  The emulated working directory: \<^verbatim>\<open>libc-bottom-half/sources/chdir.c\<close> and
  \<^verbatim>\<open>sources/getcwd.c\<close>, with \<open>__wasilibc_find_relpath\<close> of
  \<^verbatim>\<open>sources/preopens.c\<close>. The working directory is a string of the library; relative paths
  are made absolute against it and then resolved against the preopened directories. The answers
  of the allocator are arguments, and so is the host.
\<close>

section \<open>Definitions\<close>

text \<open>A growable buffer: its contents (none before the first allocation) and its size.\<close>

record rel_buf =
  rb_data :: "string option"
  rb_len :: nat

record 'w path_state =
  po :: "'w po_state"
  cwd :: string
  cwd_mallocd :: bool
  make_absolute_len :: nat
  chdir_buf :: rel_buf

record cwd_env =
  reentrant :: bool
  realloc_str :: "nat \<Rightarrow> bool"
  malloc_str :: "nat \<Rightarrow> bool"

text \<open>
  What the calls of a program depend on: the answers of the allocator, the descriptor table's
  environment, the host, the \<open>fstat\<close> methods of descriptors that are not files, the way the table of
  preopened directories is filled, and whether \<open>chdir\<close> is linked into the program.
\<close>

record 'h proc_env =
  cwd_env :: cwd_env
  dt :: "'h file_world dt_env"
  calls :: "'h fs_calls"
  streams :: "'h fs_host"
  file_alloc :: "'h fs_state \<Rightarrow> data_ptr option"
  other_fstat :: "vtable \<Rightarrow> data_ptr \<Rightarrow> 'h fs_state \<Rightarrow> (stat, 'h fs_state) outcome"
  fill :: "'h fs_state po_state \<Rightarrow> (unit, 'h fs_state po_state) outcome"
  chdir_linked :: bool

text \<open>A string as it stands in memory, with its terminator.\<close>

definition c_mem :: "string \<Rightarrow> byte list" where
  "c_mem p = map of_char p @ [0]"

definition on_rest :: "('w \<Rightarrow> ('a, 'w) outcome) \<Rightarrow> 'w path_state \<Rightarrow> ('a, 'w path_state) outcome" where
  "on_rest f s = lift_part (\<lambda>w. s\<lparr>po := (po s)\<lparr>rest := w\<rparr>\<rparr>) (f (rest (po s)))"

definition is_dot :: "string \<Rightarrow> bool" where
  "is_dot path \<longleftrightarrow> path = [] \<or> path = ''.'' \<or> path = ''./''"

text \<open>\<open>make_absolute\<close>; \<open>None\<close> is the null pointer.\<close>

definition make_absolute :: "cwd_env \<Rightarrow> string \<Rightarrow> 'w path_state \<Rightarrow> string option \<times> 'w path_state" where
  "make_absolute C path s =
     (if c_at path 0 = CHR ''/'' then (Some path, s)
      else if \<not> reentrant C \<and> is_dot path then (Some (cwd s), s)
      else let path = (if c_at path 0 = CHR ''.'' \<and> c_at path 1 = CHR ''/'' then drop 2 path else path);
               cwd_len = length (cwd s);
               need_slash = (if c_at (cwd s) (cwd_len - 1) = CHR ''/'' then 0 else 1);
               alloc_len = cwd_len + length path + 1 + need_slash in
        if make_absolute_len s < alloc_len \<and> \<not> realloc_str C alloc_len then (None, s)
        else let s = (if make_absolute_len s < alloc_len then s\<lparr>make_absolute_len := alloc_len\<rparr> else s) in
          if reentrant C \<and> is_dot path then (Some (cwd s), s)
          else (Some (cwd s @ replicate need_slash (CHR ''/'') @ path), s))"

definition find_relpath_alloc :: "cwd_env \<Rightarrow> ('w po_state \<Rightarrow> (unit, 'w po_state) outcome) \<Rightarrow> string \<Rightarrow> bool \<Rightarrow>
    'w path_state \<times> rel_buf \<Rightarrow> (int \<times> string, 'w path_state \<times> rel_buf) outcome" where
  "find_relpath_alloc C populate path can_realloc = (\<lambda>(s, buf).
     case make_absolute C path s of
       (None, s) \<Rightarrow> Err ENOMEM (s, buf)
     | (Some abspath, s) \<Rightarrow>
         bindO (lift_part (\<lambda>p. (s\<lparr>po := p\<rparr>, buf)) (wasilibc_find_abspath populate abspath (po s)))
           (\<lambda>(fd, abs_prefix, rel) (s, buf).
              let rel_len = length rel in
              if rb_len buf < rel_len + 1 then
                if \<not> can_realloc then Err ERANGE (s, buf)
                else if \<not> realloc_str C (rel_len + 1) then Err ENOMEM (s, buf)
                else Ret (fd, abs_prefix) (s, \<lparr>rb_data = Some rel, rb_len = rel_len + 1\<rparr>)
              else Ret (fd, abs_prefix) (s, buf\<lparr>rb_data := Some rel\<rparr>)))"

text \<open>
  \<open>__wasilibc_find_relpath\<close>: with \<open>chdir\<close> in the program (\<open>linked\<close>) through the buffer of
  the caller, otherwise straight to the table.
\<close>

definition find_relpath :: "cwd_env \<Rightarrow> bool \<Rightarrow> ('w po_state \<Rightarrow> (unit, 'w po_state) outcome) \<Rightarrow> string \<Rightarrow> nat \<Rightarrow>
    'w path_state \<Rightarrow> (int \<times> string \<times> string, 'w path_state) outcome" where
  "find_relpath C linked populate path relative_path_len s =
     (if linked then
        (case find_relpath_alloc C populate path False (s, \<lparr>rb_data = Some [], rb_len = relative_path_len\<rparr>) of
           Ret (fd, abs_prefix) (s, buf) \<Rightarrow> Ret (fd, abs_prefix, the (rb_data buf)) s
         | Err e (s, buf) \<Rightarrow> Err e s
         | Trap \<Rightarrow> Trap
         | Diverge \<Rightarrow> Diverge)
      else lift_part (\<lambda>p. s\<lparr>po := p\<rparr>) (wasilibc_find_abspath populate path (po s)))"

text \<open>The directory found is not \<open>AT_FDCWD\<close> and the path below it not absolute: \<open>fstatat\<close> is the one of the host.\<close>

definition chdir :: "'h proc_env \<Rightarrow> string \<Rightarrow> 'h fs_state path_state \<Rightarrow> (unit, 'h fs_state path_state) outcome" where
  "chdir X path s =
     (let put_back = (\<lambda>(s, buf). s\<lparr>chdir_buf := buf\<rparr>) in
      bindO (lift_part put_back (find_relpath_alloc (cwd_env X) (fill X) path True (s, chdir_buf s)))
        (\<lambda>(parent_fd, abs) s.
           let relative_buf = the (rb_data (chdir_buf s)) in
           bindO (on_rest (fstatat (dt X) (calls X) (other_fstat X) parent_fd (c_mem relative_buf) 0) s)
             (\<lambda>dirinfo s.
               if st_mode dirinfo AND S_IFMT \<noteq> S_IFDIR then Err ENOTDIR s
               else let copy_relative = (relative_buf \<noteq> ''.'');
                        mid = (copy_relative \<and> c_at abs 0 \<noteq> CHR 0x00);
                        alloc = 1 + length abs + (if mid then 1 else 0) +
                               (if copy_relative then length relative_buf else 0) + 1 in
                 if \<not> malloc_str (cwd_env X) alloc then Err ENOMEM s
                 else let new_cwd = CHR ''/'' # abs @ (if mid then ''/'' else []) @
                            (if copy_relative then relative_buf else []) in
                   Ret () (s\<lparr>cwd := new_cwd, cwd_mallocd := True\<rparr>))))"

text \<open>\<open>getcwd\<close>: \<open>bufsize\<close> is \<open>None\<close> for a null buffer, which is then allocated.\<close>

definition getcwd :: "cwd_env \<Rightarrow> nat option \<Rightarrow> 'w path_state \<Rightarrow> (string, 'w path_state) outcome" where
  "getcwd C bufsize s =
     (case bufsize of
        None \<Rightarrow> if \<not> malloc_str C (length (cwd s) + 1) then Err ENOMEM s else Ret (cwd s) s
      | Some n \<Rightarrow> if n < length (cwd s) + 1 then Err ERANGE s else Ret (cwd s) s)"

section \<open>Lemmas\<close>

definition cwd_ok :: "'w path_state \<Rightarrow> bool" where
  "cwd_ok s \<longleftrightarrow> c_at (cwd s) 0 = CHR ''/'' \<and> CHR 0x00 \<notin> set (cwd s)"

text \<open>The components a path denotes in a working directory with components \<open>here\<close>.\<close>

definition resolve :: "string list \<Rightarrow> string \<Rightarrow> string list" where
  "resolve here path = (if c_at path 0 = CHR ''/'' then comps path else here @ comps path)"

lemma comps_is_dot: "is_dot path \<Longrightarrow> comps path = []"
  by (auto simp: is_dot_def comps_def)

lemma make_absolute_spec:
  assumes "cwd_ok s" "CHR 0x00 \<notin> set path" "make_absolute C path s = (Some p, s')"
  shows "comps p = resolve (comps (cwd s)) path \<and> c_at p 0 = CHR ''/'' \<and> CHR 0x00 \<notin> set p \<and>
    length p \<le> length (cwd s) + length path + 1 \<and> (\<exists>n. s' = s\<lparr>make_absolute_len := n\<rparr>)"
proof -
  have same: "\<exists>n. s = s\<lparr>make_absolute_len := n\<rparr>" by (rule exI [of _ "make_absolute_len s"]) simp
  let ?path = "if c_at path 0 = CHR ''.'' \<and> c_at path 1 = CHR ''/'' then drop 2 path else path"
  have path: "comps ?path = comps path" "CHR 0x00 \<notin> set ?path"
    using assms(2) by (cases path; cases "tl path"; auto simp: c_at_def dest: in_set_dropD)+
  have cwd: "cwd s \<noteq> []" "c_at (cwd s @ q) 0 = CHR ''/''" for q
    using assms(1) by (auto simp: cwd_ok_def c_at_def nth_append split: if_splits)
  have join: "comps (cwd s @ replicate (if c_at (cwd s) (length (cwd s) - 1) = CHR ''/'' then 0 else 1) (CHR ''/'') @ q) =
      comps (cwd s) @ comps q" for q
    using cwd(1) comps_append_slash_left [of "cwd s" q]
    by (auto simp: c_at_def last_conv_nth comps_slash)
  have "p = path \<and> s' = s \<and> c_at path 0 = CHR ''/'' \<or>
      c_at path 0 \<noteq> CHR ''/'' \<and> p = cwd s \<and> (is_dot path \<or> is_dot ?path) \<and> (\<exists>n. s' = s\<lparr>make_absolute_len := n\<rparr>) \<or>
      c_at path 0 \<noteq> CHR ''/'' \<and> (\<exists>n. s' = s\<lparr>make_absolute_len := n\<rparr>) \<and>
        p = cwd s @ replicate (if c_at (cwd s) (length (cwd s) - 1) = CHR ''/'' then 0 else 1) (CHR ''/'') @ ?path"
    using assms(3) same unfolding make_absolute_def Let_def
    by (auto split: if_splits)
  then consider "p = path" "s' = s" "c_at path 0 = CHR ''/''"
    | "c_at path 0 \<noteq> CHR ''/''" "p = cwd s" "is_dot path \<or> is_dot ?path" "\<exists>n. s' = s\<lparr>make_absolute_len := n\<rparr>"
    | "c_at path 0 \<noteq> CHR ''/''" "\<exists>n. s' = s\<lparr>make_absolute_len := n\<rparr>"
      "p = cwd s @ replicate (if c_at (cwd s) (length (cwd s) - 1) = CHR ''/'' then 0 else 1) (CHR ''/'') @ ?path"
    by blast
  then show ?thesis
  proof cases
    case 1
    with assms(2) same show ?thesis by (simp add: resolve_def)
  next
    case 2
    then have "comps path = []" using comps_is_dot path(1) by metis
    with 2 assms(1) cwd(2) [of "[]"] show ?thesis by (simp add: resolve_def cwd_ok_def)
  next
    case 3
    with assms(1) join [of ?path] cwd(2) path show ?thesis by (auto simp: resolve_def cwd_ok_def)
  qed
qed

definition path_ok :: "'w path_state \<Rightarrow> bool" where
  "path_ok s \<longleftrightarrow> cwd_ok s \<and> po_inv (po s) \<and> preopens_populated (po s)"

lemma registered_ok:
  assumes "po_inv s" "i < length (registered s)"
  shows "pre_fd (registered s ! i) \<noteq> -1" "CHR 0x00 \<notin> set (pre_prefix (registered s ! i))"
  using assms by (auto simp: po_inv_def registered_def list_all_length slot_ok_def)

lemma find_abspath_in_length:
  assumes "find_abspath_in pres path = Some (fd, pfx, rel)"
  shows "length rel \<le> max 1 (length path)"
proof -
  obtain fd' n ab where bm: "best_match (rev pres) (skip_slashes path) (-1) 0 [] = (fd', n, ab)"
    by (rule prod_cases3)
  define c where "c = skip_slashes (drop n (skip_slashes path))"
  have "length c \<le> length (drop n (skip_slashes path))" unfolding c_def by (rule length_dropWhile_le)
  also have "length (drop n (skip_slashes path)) \<le> length (skip_slashes path)" by simp
  also have "length (skip_slashes path) \<le> length path" by (rule length_dropWhile_le)
  finally have le: "length c \<le> length path" .
  from assms have "rel = (if c = [] then ''.'' else c)"
    unfolding find_abspath_in_def Let_def bm prod.case c_def [symmetric] by (simp split: if_splits)
  with le show ?thesis by (cases "c = []") simp_all
qed

lemma find_abspath_populated:
  assumes "po_inv s" "preopens_populated s" "CHR 0x00 \<notin> set path"
  shows "holds (wasilibc_find_abspath (populate_preopens loop) path s)
    (\<lambda>(fd, pfx, rel) s'. s' = s \<and> (\<exists>i. last_longest (registered s) (skip_slashes path) i \<and>
        fd = pre_fd (registered s ! i) \<and> pfx = pre_prefix (registered s ! i)) \<and>
       comps path = comps pfx @ comps rel \<and> rel \<noteq> [] \<and> c_at rel 0 \<noteq> CHR ''/'' \<and> CHR 0x00 \<notin> set rel \<and>
       length rel \<le> max 1 (length path))
    (\<lambda>e s'. e = ENOENT \<and> s' = s)"
proof -
  have "\<forall>pre \<in> set (registered s). pre_fd pre \<noteq> -1"
    using registered_ok(1) [OF assms(1)] by (auto simp: in_set_conv_nth)
  from find_abspath_in_spec [OF assms(3) this] assms(2) show ?thesis
    by (cases "find_abspath_in (registered s) path")
      (auto simp: wasilibc_find_abspath_def populate_preopens_def dest: find_abspath_in_length)
qed

text \<open>What a relative lookup delivers: a preopened directory and a path below it.\<close>

definition below :: "'w path_state \<Rightarrow> string \<Rightarrow> int \<times> string \<Rightarrow> string \<Rightarrow> bool" where
  "below s path r rel \<longleftrightarrow>
     (\<exists>i < length (registered (po s)). r = (pre_fd (registered (po s) ! i), pre_prefix (registered (po s) ! i))) \<and>
     comps (snd r) @ comps rel = resolve (comps (cwd s)) path \<and>
     rel \<noteq> [] \<and> c_at rel 0 \<noteq> CHR ''/'' \<and> CHR 0x00 \<notin> set rel \<and> length rel \<le> length (cwd s) + length path + 1"

lemma find_relpath_alloc_holds:
  assumes "path_ok s" "CHR 0x00 \<notin> set path"
  shows "holds (find_relpath_alloc C (populate_preopens loop) path can_realloc (s, buf))
    (\<lambda>r (s', buf'). (\<exists>n. s' = s\<lparr>make_absolute_len := n\<rparr>) \<and>
       (\<exists>rel. rb_data buf' = Some rel \<and> length rel < rb_len buf' \<and> below s path r rel))
    (\<lambda>e (s', buf'). buf' = buf \<and> (\<exists>n. s' = s\<lparr>make_absolute_len := n\<rparr>) \<and>
       (e = ENOMEM \<or> e = ENOENT \<or> e = ERANGE \<and> \<not> can_realloc))"
proof -
  have ok: "cwd_ok s" "po_inv (po s)" "preopens_populated (po s)" using assms(1) by (simp_all add: path_ok_def)
  have same: "\<exists>n. s = s\<lparr>make_absolute_len := n\<rparr>" by (rule exI [of _ "make_absolute_len s"]) simp
  obtain q s1 where eq: "make_absolute C path s = (q, s1)" by fastforce
  show ?thesis
  proof (cases q)
    case None
    then have "s1 = s" using eq by (auto simp: make_absolute_def Let_def split: if_splits)
    with None eq same show ?thesis by (simp add: find_relpath_alloc_def)
  next
    case (Some p)
    from make_absolute_spec [OF ok(1) assms(2)] eq Some obtain n where
      p: "comps p = resolve (comps (cwd s)) path" "CHR 0x00 \<notin> set p" "s1 = s\<lparr>make_absolute_len := n\<rparr>"
      "length p \<le> length (cwd s) + length path + 1" by blast
    then have po: "po s1 = po s" by simp
    have "holds (lift_part (\<lambda>p. (s1\<lparr>po := p\<rparr>, buf)) (wasilibc_find_abspath (populate_preopens loop) p (po s1)))
      (\<lambda>(fd, pfx, rel) t. t = (s1, buf) \<and> below s path (fd, pfx) rel)
      (\<lambda>e t. e = ENOENT \<and> t = (s1, buf))"
      unfolding holds_lift_part po
      by (rule holds_mono [OF find_abspath_populated [OF ok(2,3) p(2)]])
        (use p(4) in \<open>auto simp: below_def last_longest_def p(1) po [symmetric]\<close>)
    then show ?thesis
      using eq Some p(3)
      by (cases "lift_part (\<lambda>p. (s1\<lparr>po := p\<rparr>, buf)) (wasilibc_find_abspath (populate_preopens loop) p (po s1))")
        (auto simp: find_relpath_alloc_def Let_def)
  qed
qed

lemma path_ok_buf [simp]: "path_ok (s\<lparr>po := (po s)\<lparr>rest := w\<rparr>\<rparr>) = path_ok s"
  "path_ok (s\<lparr>make_absolute_len := n\<rparr>) = path_ok s"
  "path_ok (s\<lparr>chdir_buf := b\<rparr>) = path_ok s" "path_ok (s\<lparr>cwd_mallocd := m\<rparr>) = path_ok s"
  by (simp_all add: path_ok_def cwd_ok_def)

lemma zero_notin_bytes: "(0 :: byte) \<in> of_char ` set p \<longleftrightarrow> CHR 0x00 \<in> set p"
proof -
  have "(of_char c :: byte) = 0 \<longleftrightarrow> c = CHR 0x00" for c
    by (cases c) (simp add: of_char_def)
  then show ?thesis by (auto simp: image_iff intro: bexI [of _ "CHR 0x00"])
qed

lemma c_string_mem: "CHR 0x00 \<notin> set p \<Longrightarrow> c_string (c_mem p)"
  unfolding c_string_def c_mem_def
  by (intro exI [of _ "map of_char p"] exI [of _ "[]"]) (auto simp: zero_notin_bytes)

text \<open>The invariant of the whole state: directories, working directory and descriptors.\<close>

definition proc_ok :: "(data_ptr \<Rightarrow> nat) \<Rightarrow> 'h fs_state path_state \<Rightarrow> bool" where
  "proc_ok r s \<longleftrightarrow> path_ok s \<and> fs_inv r (rest (po s))"

lemma proc_ok_buf [simp]: "proc_ok r (s\<lparr>make_absolute_len := n\<rparr>) = proc_ok r s"
  "proc_ok r (s\<lparr>chdir_buf := b\<rparr>) = proc_ok r s"
  by (simp_all add: proc_ok_def)

lemma on_rest_quiet:
  assumes "proc_ok r s" "\<And>w. fs_inv r w \<Longrightarrow> quiet r w (f w)"
  shows "holds (on_rest f s)
    (\<lambda>_ s'. \<exists>w. s' = s\<lparr>po := (po s)\<lparr>rest := w\<rparr>\<rparr> \<and> proc_ok r s' \<and> st_view w = st_view (rest (po s)))
    (\<lambda>_ s'. \<exists>w. s' = s\<lparr>po := (po s)\<lparr>rest := w\<rparr>\<rparr> \<and> proc_ok r s' \<and> st_view w = st_view (rest (po s)))"
proof -
  have "fs_inv r (rest (po s))" "path_ok s" using assms(1) by (simp_all add: proc_ok_def)
  with assms(2) [OF this(1)] show ?thesis
    unfolding on_rest_def holds_lift_part quiet_def
    by (elim holds_mono) (auto simp: proc_ok_def)
qed

lemma chdir_holds:
  assumes ok: "proc_ok r s" and nul: "CHR 0x00 \<notin> set path"
    and pop: "fill X = populate_preopens loop" and host: "host_typed (version (dt X)) (calls X)"
    and pure: "fstat_pure (other_fstat X)"
  shows "holds (chdir X path s)
    (\<lambda>_ s'. proc_ok r s' \<and> registered (po s') = registered (po s) \<and> comps (cwd s') = resolve (comps (cwd s)) path)
    (\<lambda>e s'. proc_ok r s' \<and> registered (po s') = registered (po s) \<and> cwd s' = cwd s)"
  unfolding chdir_def Let_def pop
proof (rule holds_bind [where P = "\<lambda>q s'. \<exists>n b rel. s' = s\<lparr>make_absolute_len := n, chdir_buf := b\<rparr> \<and>
      rb_data b = Some rel \<and> below s path q rel" and Q = "\<lambda>e s'. \<exists>n b. s' = s\<lparr>make_absolute_len := n, chdir_buf := b\<rparr>"], goal_cases)
  case 1
  have "path_ok s" using ok by (simp add: proc_ok_def)
  from find_relpath_alloc_holds [OF this nul] show ?case
    unfolding holds_lift_part by (rule holds_mono) fastforce+
next
  case (2 q s')
  then obtain n b rel where s': "s' = s\<lparr>make_absolute_len := n, chdir_buf := b\<rparr>" "rb_data b = Some rel"
    and below: "below s path q rel" by auto
  obtain fd pfx where q: "q = (fd, pfx)" by fastforce
  from below q obtain i where i: "i < length (registered (po s))" "pfx = pre_prefix (registered (po s) ! i)"
    and c: "comps pfx @ comps rel = resolve (comps (cwd s)) path" and rel: "rel \<noteq> []" "CHR 0x00 \<notin> set rel"
    by (auto simp: below_def)
  have nul': "CHR 0x00 \<notin> set pfx"
    using registered_ok(2) [OF _ i(1)] ok i(2) by (simp add: path_ok_def proc_ok_def)
  let ?copy = "rel \<noteq> ''.''" and ?mid = "rel \<noteq> ''.'' \<and> c_at pfx 0 \<noteq> CHR 0x00"
  let ?cwd = "CHR ''/'' # pfx @ (if ?mid then ''/'' else []) @ (if ?copy then rel else [])"
  have "c_at pfx 0 = CHR 0x00 \<longleftrightarrow> pfx = []" using nul' by (cases pfx) (auto simp: c_at_0)
  then have new: "comps ?cwd = resolve (comps (cwd s)) path"
    using c by (auto simp: comps_slash)
  have cwd: "proc_ok r (t\<lparr>cwd := ?cwd, cwd_mallocd := True\<rparr>)" if "proc_ok r t" for t
    using that nul' rel by (auto simp: proc_ok_def path_ok_def cwd_ok_def c_at_0)
  have "proc_ok r s'" using ok s'(1) by simp
  from on_rest_quiet [OF this quiet_fstatat [OF host pure _ c_string_mem [OF rel(2)], where fd = fd and fl = 0]]
  have stat: "holds (on_rest (fstatat (dt X) (calls X) (other_fstat X) fd (c_mem rel) 0) s')
    (\<lambda>_ t. proc_ok r t \<and> registered (po t) = registered (po s) \<and> cwd t = cwd s)
    (\<lambda>_ t. proc_ok r t \<and> registered (po t) = registered (po s) \<and> cwd t = cwd s)"
    by (rule holds_mono) (auto simp: s')
  have rel_eq: "the (rb_data (chdir_buf s')) = rel" by (simp add: s')
  show ?case
    unfolding q prod.case rel_eq
  proof (rule holds_bind [OF stat], goal_cases)
    case (1 d t)
    with cwd [of t] new show ?case by auto
  qed simp
next
  case (3 e s')
  with ok show ?case by auto
qed

section \<open>Sequences of directory changes\<close>

text \<open>The calls that succeeded, and the state after them; \<open>None\<close> when the program stopped.\<close>

fun chdirs :: "'h proc_env \<Rightarrow> string list \<Rightarrow> 'h fs_state path_state \<Rightarrow>
    (bool list \<times> 'h fs_state path_state) option" where
  "chdirs X [] s = Some ([], s)"
| "chdirs X (p # ps) s =
     (case chdir X p s of
        Ret _ s' \<Rightarrow> map_option (apfst (Cons True)) (chdirs X ps s')
      | Err _ s' \<Rightarrow> map_option (apfst (Cons False)) (chdirs X ps s')
      | _ \<Rightarrow> None)"

fun walk :: "string list \<Rightarrow> (bool \<times> string) list \<Rightarrow> string list" where
  "walk here [] = here"
| "walk here ((ok, p) # ps) = walk (if ok then resolve here p else here) ps"

lemma chdirs_spec:
  assumes "proc_ok r s" "list_all (\<lambda>p. CHR 0x00 \<notin> set p) ps"
    "fill X = populate_preopens loop" "host_typed (version (dt X)) (calls X)" "fstat_pure (other_fstat X)"
  shows "\<exists>oks s'. chdirs X ps s = Some (oks, s') \<and> length oks = length ps \<and>
    proc_ok r s' \<and> registered (po s') = registered (po s) \<and> comps (cwd s') = walk (comps (cwd s)) (zip oks ps)"
  using assms(1,2)
proof (induction ps arbitrary: s)
  case Nil
  then show ?case by simp
next
  case (Cons p ps)
  then have p: "CHR 0x00 \<notin> set p" and ps: "list_all (\<lambda>p. CHR 0x00 \<notin> set p) ps" by simp_all
  note h = chdir_holds [OF Cons.prems(1) p assms(3-5)]
  show ?case
  proof (cases "chdir X p s")
    case (Ret u s1)
    with h have s1: "proc_ok r s1" "registered (po s1) = registered (po s)"
      "comps (cwd s1) = resolve (comps (cwd s)) p" by simp_all
    from Cons.IH [OF s1(1) ps] Ret s1 show ?thesis by auto
  next
    case (Err e s1)
    with h have s1: "proc_ok r s1" "registered (po s1) = registered (po s)" "cwd s1 = cwd s"
      by simp_all
    from Cons.IH [OF s1(1) ps] Err s1 show ?thesis by auto
  qed (use h in simp_all)
qed

section \<open>Properties\<close>

definition demo_cwd_env :: cwd_env where
  "demo_cwd_env = \<lparr>reentrant = False, realloc_str = (\<lambda>_. True), malloc_str = (\<lambda>_. True)\<rparr>"

text \<open>A host with directories everywhere but below one name.\<close>

definition demo_dir_calls :: "mem_state fs_calls" where
  "demo_dir_calls q h =
     (case q of
        Stat_at _ _ p \<Rightarrow>
          if p = map of_char ''nofile'' then (Inl FS_NO_ENTRY, h)
          else (Inr (A_stat \<lparr>ds_type = T_directory, ds_link_count = 1, ds_size = 0, ds_atim = None,
            ds_mtim = None, ds_ctim = None\<rparr>), h)
      | _ \<Rightarrow> demo_calls q h)"

definition demo_proc :: "mem_state proc_env" where
  "demo_proc = \<lparr>cwd_env = demo_cwd_env, dt = demo_fenv, calls = demo_dir_calls, streams = mem_host,
     file_alloc = demo_falloc, other_fstat = (\<lambda>_ _ s. Err ENOTSUP s), fill = demo_populate, chdir_linked = True\<rparr>"

definition demo_path :: "mem_state file_world dt_state path_state" where
  "demo_path = \<lparr>po = demo_po, cwd = ''/'', cwd_mallocd = False, make_absolute_len = 0,
     chdir_buf = \<lparr>rb_data = None, rb_len = 0\<rparr>\<rparr>"

lemma demo_path_ok: "path_ok demo_path" "proc_ok (\<lambda>_. 0) demo_path"
proof -
  have "po_inv demo_po" by code_simp
  then show "path_ok demo_path" by (simp add: path_ok_def demo_path_def cwd_ok_def c_at_def demo_po_eq(2))
  with demo_fs_inv show "proc_ok (\<lambda>_. 0) demo_path"
    by (simp add: proc_ok_def fs_inv_def demo_fs_def demo_path_def)
qed

lemma demo_dir_typed: "host_typed v demo_dir_calls"
  unfolding host_typed_def
proof (intro allI)
  fix q h
  have "case demo_calls q h of (Inl e, _) \<Rightarrow> translate_error v e \<noteq> None | (Inr a, _) \<Rightarrow> ans_ok q a"
    using demo_typed [of v] unfolding host_typed_def by (elim allE)
  then show "case demo_dir_calls q h of (Inl e, _) \<Rightarrow> translate_error v e \<noteq> None | (Inr a, _) \<Rightarrow> ans_ok q a"
    unfolding demo_dir_calls_def by (cases q) (simp_all add: translate_error_def)
qed

lemma demo_proc_ok: "fill demo_proc = populate_preopens (populate_list demo_alloc (\<lambda>_. True) mem_host demo_fenv demo_falloc demo_dirs)"
  "host_typed (version (dt demo_proc)) (calls demo_proc)" "fstat_pure (other_fstat demo_proc)"
  by (simp_all add: demo_proc_def demo_populate_def fstat_pure_def demo_dir_typed)

text \<open>C15: over every sequence of \<open>chdir\<close> calls, each of which may succeed or fail, the string kept as
  the working directory goes through exactly the components that the successful calls determine:
  an absolute path replaces the directory, a relative one is appended to it, and a failed call
  changes nothing; the descriptor table keeps its invariant with the references held before.\<close>

theorem chdir_refines_walk:
  assumes "proc_ok r s" "list_all (\<lambda>p. CHR 0x00 \<notin> set p) ps"
    "fill X = populate_preopens loop" "host_typed (version (dt X)) (calls X)" "fstat_pure (other_fstat X)"
  shows "\<exists>oks s'. chdirs X ps s = Some (oks, s') \<and> length oks = length ps \<and>
    comps (cwd s') = walk (comps (cwd s)) (zip oks ps) \<and> c_at (cwd s') 0 = CHR ''/'' \<and> dt_inv r (rest (po s'))"
  using chdirs_spec [OF assms] by (auto simp: proc_ok_def path_ok_def cwd_ok_def fs_inv_def)

theorem chdir_refines_walk_witness:
  "proc_ok (\<lambda>_. 0) demo_path \<and>
   (\<exists>oks s'. chdirs demo_proc [''usr/lib'', ''nofile'', ''./sub//dir'', ''/usr/.''] demo_path = Some (oks, s') \<and>
      comps (cwd s') = walk [] (zip oks [''usr/lib'', ''nofile'', ''./sub//dir'', ''/usr/.'']))"
  using chdir_refines_walk [OF demo_path_ok(2) _ demo_proc_ok, of "[''usr/lib'', ''nofile'', ''./sub//dir'', ''/usr/.'']"]
    demo_path_ok(2)
  by (auto simp: demo_path_def)



end
