(* ===== verification/Posix.thy ===== *)
theory Posix
  imports Cwd
begin

text \<open>
  The calls of a program on paths: \<^verbatim>\<open>libc-bottom-half/sources/posix.c\<close>, which resolves a path
  to a preopened directory and a path below it and makes the call of that directory,
  \<^verbatim>\<open>sources/at_fdcwd.c\<close>, which sorts the calls with a directory argument, and
  \<^verbatim>\<open>sources/truncate.c\<close>. The path below the directory stands in one of two static buffers of
  the library, which are part of the state: a call reads the buffer at the moment it is made, so that
  a second lookup into the same buffer would change the path of the first.
\<close>

section \<open>Definitions\<close>

record 'h posix_state =
  ps :: "'h fs_state path_state"
  relative_buf :: rel_buf
  relative_buf_alt :: rel_buf

text \<open>
  Without \<open>chdir\<close> in the program the pointer goes into the string of the caller and the length of the
  buffer stays.
\<close>

definition find_relpath2 :: "'h proc_env \<Rightarrow> string \<Rightarrow> 'h fs_state path_state \<times> rel_buf \<Rightarrow>
    (int, 'h fs_state path_state \<times> rel_buf) outcome" where
  "find_relpath2 X path = (\<lambda>(s, buf).
     if chdir_linked X then
       bindO (find_relpath_alloc (cwd_env X) (fill X) path True (s, buf)) (\<lambda>(fd, abs_prefix) s. Ret fd s)
     else
       (case find_relpath (cwd_env X) False (fill X) path (rb_len buf) s of
          Ret (fd, abs_prefix, rel) s \<Rightarrow> Ret fd (s, buf\<lparr>rb_data := Some rel\<rparr>)
        | Err e s \<Rightarrow> Err e (s, buf)
        | Trap \<Rightarrow> Trap
        | Diverge \<Rightarrow> Diverge))"

definition find_relpath_std :: "'h proc_env \<Rightarrow> string \<Rightarrow> 'h posix_state \<Rightarrow> (int, 'h posix_state) outcome" where
  "find_relpath_std X path s =
     lift_part (\<lambda>(p, buf). s\<lparr>ps := p, relative_buf := buf\<rparr>) (find_relpath2 X path (ps s, relative_buf s))"

definition find_relpath_alt :: "'h proc_env \<Rightarrow> string \<Rightarrow> 'h posix_state \<Rightarrow> (int, 'h posix_state) outcome" where
  "find_relpath_alt X path s =
     lift_part (\<lambda>(p, buf). s\<lparr>ps := p, relative_buf_alt := buf\<rparr>) (find_relpath2 X path (ps s, relative_buf_alt s))"

text \<open>The string a buffer holds, with its terminator.\<close>

definition rel_mem :: "rel_buf \<Rightarrow> byte list" where
  "rel_mem buf = c_mem (the (rb_data buf))"

definition on_fs :: "('h fs_state \<Rightarrow> ('a, 'h fs_state) outcome) \<Rightarrow> 'h posix_state \<Rightarrow> ('a, 'h posix_state) outcome" where
  "on_fs f s = lift_part (\<lambda>p. s\<lparr>ps := p\<rparr>) (on_rest f (ps s))"

text \<open>The common frame: a lookup, whose failure is \<open>ENOENT\<close> whatever went wrong, and a call.\<close>

definition in_dir :: "'h proc_env \<Rightarrow> string \<Rightarrow> (int \<Rightarrow> byte list \<Rightarrow> 'h fs_state \<Rightarrow> ('a, 'h fs_state) outcome) \<Rightarrow>
    'h posix_state \<Rightarrow> ('a, 'h posix_state) outcome" where
  "in_dir X path call s =
     bindO (on_err (find_relpath_std X path s) (\<lambda>_ s. Err ENOENT s))
       (\<lambda>dirfd s. on_fs (call dirfd (rel_mem (relative_buf s))) s)"

definition open_nomode :: "'h proc_env \<Rightarrow> string \<Rightarrow> 32 word \<Rightarrow> 'h posix_state \<Rightarrow> (nat, 'h posix_state) outcome" where
  "open_nomode X path oflags =
     in_dir X path (\<lambda>dirfd rel. openat (streams X) (dt X) (calls X) (file_alloc X) dirfd rel oflags)"

definition open_call :: "'h proc_env \<Rightarrow> string \<Rightarrow> 32 word \<Rightarrow> 'h posix_state \<Rightarrow> (nat, 'h posix_state) outcome" where
  "open_call X path oflags = open_nomode X path oflags"

definition access :: "'h proc_env \<Rightarrow> string \<Rightarrow> 32 word \<Rightarrow> 'h posix_state \<Rightarrow> (unit, 'h posix_state) outcome" where
  "access X path amode = in_dir X path (\<lambda>dirfd rel. faccessat (dt X) (calls X) dirfd rel amode 0)"

definition readlink :: "'h proc_env \<Rightarrow> string \<Rightarrow> nat \<Rightarrow> 'h posix_state \<Rightarrow> (byte list, 'h posix_state) outcome" where
  "readlink X path bufsize = in_dir X path (\<lambda>dirfd rel. readlinkat (dt X) (calls X) dirfd rel bufsize)"

definition stat_path :: "'h proc_env \<Rightarrow> string \<Rightarrow> 'h posix_state \<Rightarrow> (stat, 'h posix_state) outcome" where
  "stat_path X path s =
     (if c_at path 0 = CHR 0x00 then Err ENOENT s
      else in_dir X path (\<lambda>dirfd rel. fstatat (dt X) (calls X) (other_fstat X) dirfd rel 0) s)"

definition lstat :: "'h proc_env \<Rightarrow> string \<Rightarrow> 'h posix_state \<Rightarrow> (stat, 'h posix_state) outcome" where
  "lstat X path s =
     (if c_at path 0 = CHR 0x00 then Err ENOENT s
      else in_dir X path (\<lambda>dirfd rel. fstatat (dt X) (calls X) (other_fstat X) dirfd rel AT_SYMLINK_NOFOLLOW) s)"

text \<open>The two times of \<open>utimbuf\<close> are seconds; the nanoseconds of the initialiser are 0.\<close>

definition utime :: "'h proc_env \<Rightarrow> string \<Rightarrow> (64 word \<times> 64 word) option \<Rightarrow> 'h posix_state \<Rightarrow>
    (unit, 'h posix_state) outcome" where
  "utime X path tms =
     in_dir X path (\<lambda>dirfd rel. utimensat (dt X) (calls X) dirfd rel
       (map_option (\<lambda>(actime, modtime). (\<lparr>tv_sec = actime, tv_nsec = 0\<rparr>, \<lparr>tv_sec = modtime, tv_nsec = 0\<rparr>)) tms) 0)"

text \<open>The product is a 64-bit number, stored into the 32-bit \<open>tv_nsec\<close>.\<close>

definition timespec_of_timeval :: "timeval \<Rightarrow> timespec" where
  "timespec_of_timeval t = \<lparr>tv_sec = tvl_sec t, tv_nsec = ucast (tvl_usec t * 1000)\<rparr>"

definition utimes :: "'h proc_env \<Rightarrow> string \<Rightarrow> (timeval \<times> timeval) option \<Rightarrow> 'h posix_state \<Rightarrow>
    (unit, 'h posix_state) outcome" where
  "utimes X path tms =
     in_dir X path (\<lambda>dirfd rel. utimensat (dt X) (calls X) dirfd rel
       (map_option (map_prod timespec_of_timeval timespec_of_timeval) tms) 0)"

definition unlink :: "'h proc_env \<Rightarrow> string \<Rightarrow> 'h posix_state \<Rightarrow> (unit, 'h posix_state) outcome" where
  "unlink X path = in_dir X path (\<lambda>dirfd rel. unlinkat (dt X) (calls X) dirfd rel)"

definition rmdir :: "'h proc_env \<Rightarrow> string \<Rightarrow> 'h posix_state \<Rightarrow> (unit, 'h posix_state) outcome" where
  "rmdir X path = in_dir X path (\<lambda>dirfd rel. rmdirat (dt X) (calls X) dirfd rel)"

definition remove_path :: "'h proc_env \<Rightarrow> string \<Rightarrow> 'h posix_state \<Rightarrow> (unit, 'h posix_state) outcome" where
  "remove_path X path =
     in_dir X path (\<lambda>dirfd rel s.
       on_err (unlinkat (dt X) (calls X) dirfd rel s)
         (\<lambda>e s. if e = EISDIR \<or> e = ENOENT \<or> e = EACCES \<or> e = EPERM then
            on_err (rmdirat (dt X) (calls X) dirfd rel s)
              (\<lambda>e s. Err (if e = ENOTDIR then ENOENT else e) s)
          else Err e s))"

definition mkdir :: "'h proc_env \<Rightarrow> string \<Rightarrow> 'h posix_state \<Rightarrow> (unit, 'h posix_state) outcome" where
  "mkdir X path = in_dir X path (\<lambda>dirfd rel. mkdirat (dt X) (calls X) dirfd rel)"

definition symlink :: "'h proc_env \<Rightarrow> string \<Rightarrow> string \<Rightarrow> 'h posix_state \<Rightarrow> (unit, 'h posix_state) outcome" where
  "symlink X target linkpath =
     in_dir X linkpath (\<lambda>dirfd rel. symlinkat (dt X) (calls X) (c_mem target) dirfd rel)"

definition link :: "'h proc_env \<Rightarrow> string \<Rightarrow> string \<Rightarrow> 'h posix_state \<Rightarrow> (unit, 'h posix_state) outcome" where
  "link X old new s =
     bindO (on_err (find_relpath_alt X old s) (\<lambda>_ s. Err ENOENT s)) (\<lambda>old_dirfd s.
     bindO (on_err (find_relpath_std X new s) (\<lambda>_ s. Err ENOENT s)) (\<lambda>new_dirfd s.
       on_fs (linkat (dt X) (calls X) old_dirfd (rel_mem (relative_buf_alt s)) new_dirfd (rel_mem (relative_buf s)) 0) s))"

definition rename :: "'h proc_env \<Rightarrow> string \<Rightarrow> string \<Rightarrow> 'h posix_state \<Rightarrow> (unit, 'h posix_state) outcome" where
  "rename X old new s =
     bindO (on_err (find_relpath_alt X old s) (\<lambda>_ s. Err ENOENT s)) (\<lambda>old_dirfd s.
     bindO (on_err (find_relpath_std X new s) (\<lambda>_ s. Err ENOENT s)) (\<lambda>new_dirfd s.
       on_fs (renameat (dt X) (calls X) old_dirfd (rel_mem (relative_buf_alt s)) new_dirfd (rel_mem (relative_buf s))) s))"

text \<open>\<open>chmod\<close>, \<open>fchmod\<close>, \<open>fchmodat\<close>, \<open>statvfs\<close> and \<open>fstatvfs\<close>.\<close>

definition not_supported :: "'h posix_state \<Rightarrow> (unit, 'h posix_state) outcome" where
  "not_supported s = Err ENOSYS s"

subsection \<open>The forms with flags, for \<open>at_fdcwd.c\<close>\<close>

definition wasilibc_access :: "'h proc_env \<Rightarrow> string \<Rightarrow> 32 word \<Rightarrow> 32 word \<Rightarrow> 'h posix_state \<Rightarrow>
    (unit, 'h posix_state) outcome" where
  "wasilibc_access X path mode flags = in_dir X path (\<lambda>dirfd rel. faccessat (dt X) (calls X) dirfd rel mode flags)"

definition wasilibc_utimens :: "'h proc_env \<Rightarrow> string \<Rightarrow> (timespec \<times> timespec) option \<Rightarrow> 32 word \<Rightarrow> 'h posix_state \<Rightarrow>
    (unit, 'h posix_state) outcome" where
  "wasilibc_utimens X path tms flags = in_dir X path (\<lambda>dirfd rel. utimensat (dt X) (calls X) dirfd rel tms flags)"

definition wasilibc_stat :: "'h proc_env \<Rightarrow> string \<Rightarrow> 32 word \<Rightarrow> 'h posix_state \<Rightarrow> (stat, 'h posix_state) outcome" where
  "wasilibc_stat X path flags s =
     (if c_at path 0 = CHR 0x00 then Err ENOENT s
      else in_dir X path (\<lambda>dirfd rel. fstatat (dt X) (calls X) (other_fstat X) dirfd rel flags) s)"

text \<open>Here both lookups are made, whether or not the first succeeds.\<close>

definition wasilibc_link :: "'h proc_env \<Rightarrow> string \<Rightarrow> string \<Rightarrow> 32 word \<Rightarrow> 'h posix_state \<Rightarrow> (unit, 'h posix_state) outcome" where
  "wasilibc_link X oldpath newpath flags s =
     bindO (on_err (find_relpath_std X oldpath s) (\<lambda>_ s. Ret (-1) s)) (\<lambda>old_dirfd s.
     bindO (on_err (find_relpath_alt X newpath s) (\<lambda>_ s. Ret (-1) s)) (\<lambda>new_dirfd s.
       if old_dirfd = -1 \<or> new_dirfd = -1 then Err ENOENT s
       else on_fs (linkat (dt X) (calls X) old_dirfd (rel_mem (relative_buf s)) new_dirfd (rel_mem (relative_buf_alt s)) flags) s))"

definition link_oldat :: "'h proc_env \<Rightarrow> int \<Rightarrow> string \<Rightarrow> string \<Rightarrow> 32 word \<Rightarrow> 'h posix_state \<Rightarrow>
    (unit, 'h posix_state) outcome" where
  "link_oldat X olddirfd oldpath newpath flags =
     in_dir X newpath (\<lambda>new_dirfd rel. linkat (dt X) (calls X) olddirfd (c_mem oldpath) new_dirfd rel flags)"

definition link_newat :: "'h proc_env \<Rightarrow> string \<Rightarrow> int \<Rightarrow> string \<Rightarrow> 32 word \<Rightarrow> 'h posix_state \<Rightarrow>
    (unit, 'h posix_state) outcome" where
  "link_newat X oldpath newdirfd newpath flags =
     in_dir X oldpath (\<lambda>old_dirfd rel. linkat (dt X) (calls X) old_dirfd rel newdirfd (c_mem newpath) flags)"

definition rename_oldat :: "'h proc_env \<Rightarrow> int \<Rightarrow> string \<Rightarrow> string \<Rightarrow> 'h posix_state \<Rightarrow> (unit, 'h posix_state) outcome" where
  "rename_oldat X fromdirfd from_path to_path =
     in_dir X to_path (\<lambda>to_dirfd rel. renameat (dt X) (calls X) fromdirfd (c_mem from_path) to_dirfd rel)"

definition rename_newat :: "'h proc_env \<Rightarrow> string \<Rightarrow> int \<Rightarrow> string \<Rightarrow> 'h posix_state \<Rightarrow> (unit, 'h posix_state) outcome" where
  "rename_newat X from_path todirfd to_path =
     in_dir X from_path (\<lambda>from_dirfd rel. renameat (dt X) (calls X) from_dirfd rel todirfd (c_mem to_path))"

subsection \<open>\<open>at_fdcwd.c\<close>\<close>

definition AT_FDCWD :: int where "AT_FDCWD = -2"

definition from_cwd :: "int \<Rightarrow> string \<Rightarrow> bool" where
  "from_cwd dirfd pathname \<longleftrightarrow> dirfd = AT_FDCWD \<or> c_at pathname 0 = CHR ''/''"

definition at_openat :: "'h proc_env \<Rightarrow> int \<Rightarrow> string \<Rightarrow> 32 word \<Rightarrow> 'h posix_state \<Rightarrow> (nat, 'h posix_state) outcome" where
  "at_openat X dirfd pathname flags =
     (if from_cwd dirfd pathname then open_call X pathname flags
      else on_fs (openat (streams X) (dt X) (calls X) (file_alloc X) dirfd (c_mem pathname) flags))"

definition at_symlinkat :: "'h proc_env \<Rightarrow> string \<Rightarrow> int \<Rightarrow> string \<Rightarrow> 'h posix_state \<Rightarrow> (unit, 'h posix_state) outcome" where
  "at_symlinkat X target dirfd linkpath =
     (if from_cwd dirfd linkpath then symlink X target linkpath
      else on_fs (symlinkat (dt X) (calls X) (c_mem target) dirfd (c_mem linkpath)))"

definition at_readlinkat :: "'h proc_env \<Rightarrow> int \<Rightarrow> string \<Rightarrow> nat \<Rightarrow> 'h posix_state \<Rightarrow> (byte list, 'h posix_state) outcome" where
  "at_readlinkat X dirfd pathname bufsiz =
     (if from_cwd dirfd pathname then readlink X pathname bufsiz
      else on_fs (readlinkat (dt X) (calls X) dirfd (c_mem pathname) bufsiz))"

definition at_mkdirat :: "'h proc_env \<Rightarrow> int \<Rightarrow> string \<Rightarrow> 'h posix_state \<Rightarrow> (unit, 'h posix_state) outcome" where
  "at_mkdirat X dirfd pathname =
     (if from_cwd dirfd pathname then mkdir X pathname
      else on_fs (mkdirat (dt X) (calls X) dirfd (c_mem pathname)))"

definition at_faccessat :: "'h proc_env \<Rightarrow> int \<Rightarrow> string \<Rightarrow> 32 word \<Rightarrow> 32 word \<Rightarrow> 'h posix_state \<Rightarrow>
    (unit, 'h posix_state) outcome" where
  "at_faccessat X dirfd pathname mode flags =
     (if from_cwd dirfd pathname then wasilibc_access X pathname mode flags
      else on_fs (faccessat (dt X) (calls X) dirfd (c_mem pathname) mode flags))"

definition at_fstatat :: "'h proc_env \<Rightarrow> int \<Rightarrow> string \<Rightarrow> 32 word \<Rightarrow> 'h posix_state \<Rightarrow> (stat, 'h posix_state) outcome" where
  "at_fstatat X dirfd pathname flags =
     (if from_cwd dirfd pathname then wasilibc_stat X pathname flags
      else on_fs (fstatat (dt X) (calls X) (other_fstat X) dirfd (c_mem pathname) flags))"

definition at_utimensat :: "'h proc_env \<Rightarrow> int \<Rightarrow> string \<Rightarrow> (timespec \<times> timespec) option \<Rightarrow> 32 word \<Rightarrow> 'h posix_state \<Rightarrow>
    (unit, 'h posix_state) outcome" where
  "at_utimensat X dirfd pathname tms flags =
     (if from_cwd dirfd pathname then wasilibc_utimens X pathname tms flags
      else on_fs (utimensat (dt X) (calls X) dirfd (c_mem pathname) tms flags))"

definition at_linkat :: "'h proc_env \<Rightarrow> int \<Rightarrow> string \<Rightarrow> int \<Rightarrow> string \<Rightarrow> 32 word \<Rightarrow> 'h posix_state \<Rightarrow>
    (unit, 'h posix_state) outcome" where
  "at_linkat X olddirfd oldpath newdirfd newpath flags =
     (if from_cwd olddirfd oldpath \<and> from_cwd newdirfd newpath then wasilibc_link X oldpath newpath flags
      else if from_cwd olddirfd oldpath then link_newat X oldpath newdirfd newpath flags
      else if from_cwd newdirfd newpath then link_oldat X olddirfd oldpath newpath flags
      else on_fs (linkat (dt X) (calls X) olddirfd (c_mem oldpath) newdirfd (c_mem newpath) flags))"

definition at_renameat :: "'h proc_env \<Rightarrow> int \<Rightarrow> string \<Rightarrow> int \<Rightarrow> string \<Rightarrow> 'h posix_state \<Rightarrow>
    (unit, 'h posix_state) outcome" where
  "at_renameat X olddirfd oldpath newdirfd newpath =
     (if from_cwd olddirfd oldpath \<and> from_cwd newdirfd newpath then rename X oldpath newpath
      else if from_cwd olddirfd oldpath then rename_newat X oldpath newdirfd newpath
      else if from_cwd newdirfd newpath then rename_oldat X olddirfd oldpath newpath
      else on_fs (renameat (dt X) (calls X) olddirfd (c_mem oldpath) newdirfd (c_mem newpath)))"

definition wasilibc_unlinkat :: "'h proc_env \<Rightarrow> int \<Rightarrow> string \<Rightarrow> 'h posix_state \<Rightarrow> (unit, 'h posix_state) outcome" where
  "wasilibc_unlinkat X dirfd path =
     (if from_cwd dirfd path then unlink X path else on_fs (unlinkat (dt X) (calls X) dirfd (c_mem path)))"

definition wasilibc_rmdirat :: "'h proc_env \<Rightarrow> int \<Rightarrow> string \<Rightarrow> 'h posix_state \<Rightarrow> (unit, 'h posix_state) outcome" where
  "wasilibc_rmdirat X dirfd path =
     (if from_cwd dirfd path then rmdir X path else on_fs (rmdirat (dt X) (calls X) dirfd (c_mem path)))"

abbreviation (input) AT_REMOVEDIR :: "32 word" where "AT_REMOVEDIR \<equiv> 4"

definition at_unlinkat :: "'h proc_env \<Rightarrow> int \<Rightarrow> string \<Rightarrow> 32 word \<Rightarrow> 'h posix_state \<Rightarrow> (unit, 'h posix_state) outcome" where
  "at_unlinkat X fd path flag =
     (if flag AND AT_REMOVEDIR \<noteq> 0 then wasilibc_rmdirat X fd path else wasilibc_unlinkat X fd path)"

subsection \<open>\<open>truncate.c\<close>\<close>

definition close_fd :: "'h proc_env \<Rightarrow> int \<Rightarrow> 'h posix_state \<Rightarrow> (unit, 'h posix_state) outcome" where
  "close_fd X fd s =
     lift_part (\<lambda>p. s\<lparr>ps := (ps s)\<lparr>po := p\<rparr>\<rparr>) (close_p2 (dt X) (fill X) fd (po (ps s)))"

text \<open>\<open>O_CLOEXEC\<close> and \<open>O_NOCTTY\<close> are 0 in this library.\<close>

definition truncate :: "'h proc_env \<Rightarrow> string \<Rightarrow> off \<Rightarrow> 'h posix_state \<Rightarrow> (unit, 'h posix_state) outcome" where
  "truncate X path n s =
     bindO (open_nomode X path O_WRONLY s) (\<lambda>fd s.
       bindO
         (on_err (on_fs (ftruncate (dt X) (calls X) (int fd) n) s)
           (\<lambda>save_errno s. bindO (on_err (close_fd X (int fd) s) (\<lambda>_ s. Ret () s)) (\<lambda>_ s. Err save_errno s)))
         (\<lambda>_ s. close_fd X (int fd) s))"

section \<open>What a call asks of the host\<close>

text \<open>
  \<open>served r s x P Q\<close>: the call \<open>x\<close> from \<open>s\<close> returns, gives back what it borrowed, and leaves the
  table and the files alone; \<open>P\<close> and \<open>Q\<close> speak of the result or error and the state of the host.
\<close>

definition served :: "(data_ptr \<Rightarrow> nat) \<Rightarrow> 'h fs_state \<Rightarrow> ('a, 'h fs_state) outcome \<Rightarrow>
    ('a \<Rightarrow> 'h \<Rightarrow> bool) \<Rightarrow> (errno \<Rightarrow> 'h \<Rightarrow> bool) \<Rightarrow> bool" where
  "served r s x P Q \<longleftrightarrow> holds x
     (\<lambda>a s'. fs_inv r s' \<and> st_view s' = st_view s \<and> P a (fw_host (world s')))
     (\<lambda>e s'. fs_inv r s' \<and> st_view s' = st_view s \<and> Q e (fw_host (world s')))"

lemma served_quiet: "quiet r s x \<Longrightarrow> served r s x (\<lambda>_ _. True) (\<lambda>_ _. True)"
  by (simp add: served_def quiet_def)

lemma served_mono:
  assumes "served r s x P Q" "\<And>a h. P a h \<Longrightarrow> P' a h" "\<And>e h. Q e h \<Longrightarrow> Q' e h"
  shows "served r s x P' Q'"
  using assms(1) unfolding served_def by (rule holds_mono) (use assms(2,3) in auto)

lemma served_Ret: "fs_inv r s \<Longrightarrow> P a (fw_host (world s)) \<Longrightarrow> served r s (Ret a s) P Q"
  by (simp add: served_def)

lemma served_Err: "fs_inv r s \<Longrightarrow> Q e (fw_host (world s)) \<Longrightarrow> served r s (Err e s) P Q"
  by (simp add: served_def)

lemma handle_of_view: "st_view s' = st_view s \<Longrightarrow> handle_of s' n = handle_of s n"
  by (auto simp: lib_view_def handle_of_def split: option.splits)

lemma served_with_handle:
  fixes s :: "'h fs_state"
  assumes "fs_inv r s"
    and body: "\<And>r' fh s1. fs_inv r' s1 \<Longrightarrow> st_view s1 = st_view s \<Longrightarrow> fw_host (world s1) = fw_host (world s) \<Longrightarrow>
      0 \<le> fd \<Longrightarrow> handle_of s (nat fd) = Some fh \<Longrightarrow> served r' s1 (body fh s1) P Q"
    and err: "fd < 0 \<or> handle_of s (nat fd) = None \<Longrightarrow> Q EBADF (fw_host (world s)) \<and> Q EINVAL (fw_host (world s))"
  shows "served r s (with_file_handle env fd body s) P Q"
proof -
  have "holds (with_file_handle env fd body s)
      (\<lambda>a s'. (dt_inv r s' \<and> stdio_initialized s') \<and>
         (\<lambda>v. lib_view v = st_view s \<and> P a (fw_host (snd v))) (global_table s', world s'))
      (\<lambda>e s'. (dt_inv r s' \<and> stdio_initialized s') \<and>
         (\<lambda>v. lib_view v = st_view s \<and> Q e (fw_host (snd v))) (global_table s', world s'))"
    unfolding with_file_handle_def with_entry_def
  proof (rule dtb.borrow_holds, goal_cases)
    case (2 e s1)
    then have g: "global_table s1 = global_table s" "world s1 = world s" "0 \<le> fd"
      "fd_map (global_table s) (nat fd) = Some e" and inv: "fs_inv (r(e_data e := Suc (r (e_data e)))) s1"
      by (auto simp: fs_inv_def)
    show ?case
    proof (cases "e_vtable e = File_vtable")
      case False
      then have "handle_of s (nat fd) = None" using g by (simp add: handle_of_def)
      with False 2 g err show ?thesis by (simp add: lib_view_def)
    next
      case True
      then have "handle_of s (nat fd) = Some (file_handle (fw_files (world s) (e_data e)))"
        using g by (simp add: handle_of_def)
      from body [OF inv _ _ g(3) this] g True show ?thesis
        unfolding served_def by (auto simp: file_get_file_def fs_inv_def lib_view_def elim!: holds_mono)
    qed
  qed (use assms(1) err in \<open>auto simp: fs_inv_def lib_view_def handle_of_def\<close>)
  then show ?thesis by (simp add: served_def fs_inv_def)
qed

text \<open>The bytes of a string handed to the host, and the string as the host takes it.\<close>

definition bytes :: "string \<Rightarrow> byte list" where
  "bytes p = map of_char p"

lemma c_mem_bytes: "CHR 0x00 \<notin> set p \<Longrightarrow> c_mem p = bytes p @ 0 # [] \<and> 0 \<notin> set (bytes p)"
  by (auto simp: c_mem_def bytes_def zero_notin_bytes)

lemma served_string:
  assumes "CHR 0x00 \<notin> set p" "length p < 2 ^ 31" "fs_inv r s"
    and "is_utf8 (bytes p) \<Longrightarrow> served r s (body (bytes p) s) P Q"
    and "\<not> is_utf8 (bytes p) \<Longrightarrow> Q EILSEQ (fw_host (world s))"
  shows "served r s (with_string (c_mem p) body s) P Q"
proof -
  have "length (bytes p) < 2 ^ 31" using assms(2) by (simp add: bytes_def)
  with c_mem_bytes [OF assms(1)] have "with_string (c_mem p) body s = (if is_utf8 (bytes p) then body (bytes p) s else Err EILSEQ s)"
    by (intro with_string_cases) auto
  with assms(3-5) show ?thesis by (simp add: served_Err)
qed

lemma served_host:
  assumes "host_typed v C" "fs_inv r s" "\<And>a h. C q (fw_host (world s)) = (Inr a, h) \<Longrightarrow> P () h"
    and "\<And>e n h. C q (fw_host (world s)) = (Inl e, h) \<Longrightarrow> translate_error v e = Some n \<Longrightarrow> Q n h"
  shows "served r s (bindO (host_call v C q s) (\<lambda>_ s. Ret () s)) P Q"
proof (cases rule: host_call_cases [OF assms(1), of q s])
  case (1 a h)
  with assms(2,3) show ?thesis by (simp add: served_def on_host_def lib_view_def fs_inv_def dt_inv_def)
next
  case (2 e n h)
  with assms(2,4) show ?thesis by (simp add: served_def on_host_def lib_view_def fs_inv_def dt_inv_def)
qed

section \<open>Resolution in the state of the program\<close>

text \<open>A program without \<open>chdir\<close> stays in the root directory.\<close>

definition posix_ok :: "'h proc_env \<Rightarrow> (data_ptr \<Rightarrow> nat) \<Rightarrow> 'h posix_state \<Rightarrow> bool" where
  "posix_ok X r s \<longleftrightarrow> proc_ok r (ps s) \<and> (chdir_linked X \<or> comps (cwd (ps s)) = [])"

text \<open>What is documented of the surroundings: the answers of the host have the types of its interface.\<close>

definition env_ok :: "'h proc_env \<Rightarrow> bool" where
  "env_ok X \<longleftrightarrow> (\<exists>loop. fill X = populate_preopens loop) \<and> host_typed (version (dt X)) (calls X) \<and>
     fstat_pure (other_fstat X)"

abbreviation fs_of :: "'h posix_state \<Rightarrow> 'h fs_state" where
  "fs_of s \<equiv> rest (po (ps s))"

abbreviation host_of :: "'h posix_state \<Rightarrow> 'h" where
  "host_of s \<equiv> fw_host (world (fs_of s))"

text \<open>States that differ in the static buffers and in the host only.\<close>

definition alike :: "'h posix_state \<Rightarrow> 'h posix_state \<Rightarrow> bool" where
  "alike s s' \<longleftrightarrow> cwd (ps s') = cwd (ps s) \<and> registered (po (ps s')) = registered (po (ps s)) \<and>
     st_view (fs_of s') = st_view (fs_of s)"

lemma alike_refl [simp]: "alike s s"
  by (simp add: alike_def)

lemma alike_trans: "alike s s' \<Longrightarrow> alike s' s'' \<Longrightarrow> alike s s''"
  by (simp add: alike_def)

lemma below_alike: "alike s s' \<Longrightarrow> below (ps s') path q rel = below (ps s) path q rel"
  by (simp add: alike_def below_def)

definition pserved :: "'h proc_env \<Rightarrow> (data_ptr \<Rightarrow> nat) \<Rightarrow> 'h posix_state \<Rightarrow> ('a, 'h posix_state) outcome \<Rightarrow>
    ('a \<Rightarrow> 'h \<Rightarrow> bool) \<Rightarrow> (errno \<Rightarrow> 'h \<Rightarrow> bool) \<Rightarrow> bool" where
  "pserved X r s x P Q \<longleftrightarrow> holds x
     (\<lambda>a s'. posix_ok X r s' \<and> alike s s' \<and> P a (host_of s'))
     (\<lambda>e s'. posix_ok X r s' \<and> alike s s' \<and> Q e (host_of s'))"

lemma pserved_cases:
  "pserved X r s x P Q \<Longrightarrow> case x of Ret a s' \<Rightarrow> P a (host_of s') | Err e s' \<Rightarrow> Q e (host_of s') | _ \<Rightarrow> False"
  by (cases x) (simp_all add: pserved_def)

lemma find_relpath2_holds:
  assumes "path_ok s" "chdir_linked X \<or> comps (cwd s) = []" "CHR 0x00 \<notin> set path" "fill X = populate_preopens loop"
  shows "holds (find_relpath2 X path (s, buf))
    (\<lambda>fd (s', buf'). (\<exists>n. s' = s\<lparr>make_absolute_len := n\<rparr>) \<and>
       (\<exists>rel pfx. rb_data buf' = Some rel \<and> below s path (fd, pfx) rel))
    (\<lambda>_ (s', buf'). \<exists>n. s' = s\<lparr>make_absolute_len := n\<rparr>)"
proof (cases "chdir_linked X")
  case True
  then show ?thesis
    unfolding find_relpath2_def assms(4) prod.case
    by (auto intro!: holds_bind [OF find_relpath_alloc_holds [OF assms(1,3)]])
next
  case False
  have ok: "po_inv (po s)" "preopens_populated (po s)" "cwd s \<noteq> []"
    using assms(1) by (auto simp: path_ok_def cwd_ok_def c_at_def)
  have same: "\<exists>n. s = s\<lparr>make_absolute_len := n\<rparr>" by (rule exI [of _ "make_absolute_len s"]) simp
  from False assms(2) have "resolve (comps (cwd s)) path = comps path" by (simp add: resolve_def)
  with ok(3) find_abspath_populated [OF ok(1,2) assms(3), of loop] False same show ?thesis
    unfolding find_relpath2_def find_relpath_def assms(4)
    by (cases "wasilibc_find_abspath (populate_preopens loop) path (po s)")
      (fastforce simp: below_def last_longest_def Suc_le_eq)+
qed

lemma find_std_holds:
  assumes "posix_ok X r s" "CHR 0x00 \<notin> set path" "env_ok X"
  shows "holds (find_relpath_std X path s)
    (\<lambda>fd s'. posix_ok X r s' \<and> alike s s' \<and> host_of s' = host_of s \<and> relative_buf_alt s' = relative_buf_alt s \<and>
       (\<exists>rel pfx. rb_data (relative_buf s') = Some rel \<and> below (ps s) path (fd, pfx) rel))
    (\<lambda>_ s'. posix_ok X r s' \<and> alike s s' \<and> host_of s' = host_of s)"
proof -
  from assms(3) obtain loop where l: "fill X = populate_preopens loop" by (auto simp: env_ok_def)
  from assms(1) have "path_ok (ps s)" "chdir_linked X \<or> comps (cwd (ps s)) = []"
    by (auto simp: posix_ok_def proc_ok_def)
  from find_relpath2_holds [OF this assms(2) l, of "relative_buf s"] assms(1) show ?thesis
    unfolding find_relpath_std_def holds_lift_part
    by (elim holds_mono) (auto simp: posix_ok_def alike_def)
qed

lemma find_alt_holds:
  assumes "posix_ok X r s" "CHR 0x00 \<notin> set path" "env_ok X"
  shows "holds (find_relpath_alt X path s)
    (\<lambda>fd s'. posix_ok X r s' \<and> alike s s' \<and> host_of s' = host_of s \<and> relative_buf s' = relative_buf s \<and>
       (\<exists>rel pfx. rb_data (relative_buf_alt s') = Some rel \<and> below (ps s) path (fd, pfx) rel))
    (\<lambda>_ s'. posix_ok X r s' \<and> alike s s' \<and> host_of s' = host_of s)"
proof -
  from assms(3) obtain loop where l: "fill X = populate_preopens loop" by (auto simp: env_ok_def)
  from assms(1) have "path_ok (ps s)" "chdir_linked X \<or> comps (cwd (ps s)) = []"
    by (auto simp: posix_ok_def proc_ok_def)
  from find_relpath2_holds [OF this assms(2) l, of "relative_buf_alt s"] assms(1) show ?thesis
    unfolding find_relpath_alt_def holds_lift_part
    by (elim holds_mono) (auto simp: posix_ok_def alike_def)
qed

lemma on_fs_served:
  assumes "posix_ok X r s" "fs_inv r (fs_of s) \<Longrightarrow> served r (fs_of s) (f (fs_of s)) P Q"
  shows "pserved X r s (on_fs f s) P Q"
proof -
  from assms(1) have "fs_inv r (fs_of s)" by (simp add: posix_ok_def proc_ok_def)
  with assms(2) have "served r (fs_of s) (f (fs_of s)) P Q" by blast
  with assms(1) show ?thesis
    unfolding pserved_def on_fs_def on_rest_def holds_lift_part served_def
    by (elim holds_mono) (auto simp: posix_ok_def proc_ok_def alike_def)
qed

lemma pserved_from:
  assumes "pserved X r s' x P Q" "alike s s'"
  shows "pserved X r s x P Q"
  using assms(1) unfolding pserved_def by (rule holds_mono) (use assms(2) alike_trans in auto)

lemma or_noent:
  assumes "holds x P Q"
  shows "holds (on_err x (\<lambda>_ s. Err ENOENT s)) P (\<lambda>e s. e = ENOENT \<and> (\<exists>e'. Q e' s))"
  by (rule holds_on_err [OF assms]) auto

lemma in_dir_served:
  assumes "posix_ok X r s" "CHR 0x00 \<notin> set path" "env_ok X" "Q ENOENT (host_of s)"
    and call: "\<And>fd pfx rel w. below (ps s) path (fd, pfx) rel \<Longrightarrow> fs_inv r w \<Longrightarrow> st_view w = st_view (fs_of s) \<Longrightarrow>
      fw_host (world w) = host_of s \<Longrightarrow> served r w (call fd (c_mem rel) w) P Q"
  shows "pserved X r s (in_dir X path call s) P Q"
  unfolding pserved_def in_dir_def
proof (rule holds_bind [OF or_noent [OF find_std_holds [OF assms(1-3)]]], goal_cases)
  case (1 fd s')
  then obtain rel pfx where s': "posix_ok X r s'" "alike s s'" "host_of s' = host_of s"
    "rb_data (relative_buf s') = Some rel" "below (ps s) path (fd, pfx) rel" by auto
  have "pserved X r s' (on_fs (call fd (c_mem rel)) s') P Q"
    by (rule on_fs_served [OF s'(1)], rule call [OF s'(5)]) (use s' in \<open>auto simp: alike_def\<close>)
  with s'(2,4) show ?case unfolding rel_mem_def pserved_def [symmetric] by (simp add: pserved_from)
next
  case (2 e s')
  with assms(4) show ?case by auto
qed

section \<open>Requests\<close>

text \<open>The handle of a directory and a name as the host takes it.\<close>

definition target_of :: "'h fs_state \<Rightarrow> int \<Rightarrow> string \<Rightarrow> handle \<Rightarrow> byte list \<Rightarrow> bool" where
  "target_of s fd p fh str \<longleftrightarrow> 0 \<le> fd \<and> handle_of s (nat fd) = Some fh \<and> is_utf8 str \<and> str = bytes p"

text \<open>The same for a path: the handle of a preopened directory and a name below it that denote the path.\<close>

definition denotes :: "'h posix_state \<Rightarrow> string \<Rightarrow> handle \<Rightarrow> byte list \<Rightarrow> bool" where
  "denotes s path fh str \<longleftrightarrow> (\<exists>fd pfx rel. below (ps s) path (fd, pfx) rel \<and> target_of (fs_of s) fd rel fh str)"

text \<open>Errors that are found before the host is asked, by the call on a directory and by a call on a path.\<close>

definition call_error :: "errno \<Rightarrow> bool" where
  "call_error e \<longleftrightarrow> e = EBADF \<or> e = EINVAL \<or> e = EILSEQ"

definition local_error :: "errno \<Rightarrow> bool" where
  "local_error e \<longleftrightarrow> e = ENOENT \<or> call_error e"

lemma target_of_view: "st_view s' = st_view s \<Longrightarrow> target_of s' fd p fh str = target_of s fd p fh str"
  using handle_of_view [of s' s "nat fd"] by (simp add: target_of_def)

lemma served_named:
  assumes "fs_inv r s" "CHR 0x00 \<notin> set p" "length p < 2 ^ 31"
    and "\<And>r' fh s1. fs_inv r' s1 \<Longrightarrow> st_view s1 = st_view s \<Longrightarrow> fw_host (world s1) = fw_host (world s) \<Longrightarrow>
      target_of s fd p fh (bytes p) \<Longrightarrow> served r' s1 (body fh (bytes p) s1) P Q"
    and "\<And>e. call_error e \<Longrightarrow> \<forall>fh str. \<not> target_of s fd p fh str \<Longrightarrow> Q e (fw_host (world s))"
  shows "served r s (with_file_handle env fd (\<lambda>fh. with_string (c_mem p) (body fh)) s) P Q"
proof (rule served_with_handle [OF assms(1)], goal_cases)
  case (1 r' fh s1)
  show ?case
  proof (rule served_string [OF assms(2,3) 1(1)], goal_cases)
    case u: 1
    show ?case by (rule assms(4) [OF 1(1-3)]) (simp add: target_of_def 1 u)
  next
    case u: 2
    have "Q EILSEQ (fw_host (world s))" by (rule assms(5)) (use u in \<open>auto simp: call_error_def target_of_def\<close>)
    then show ?case by (simp add: 1)
  qed
next
  case 2
  then have "\<forall>fh str. \<not> target_of s fd p fh str" by (auto simp: target_of_def)
  from assms(5) [OF _ this] show ?case by (simp add: call_error_def)
qed

lemma path_call_served:
  assumes "host_typed (version env) C" "fs_inv r s" "CHR 0x00 \<notin> set p" "length p < 2 ^ 31"
  shows "served r s (path_call env C req fd (c_mem p) s)
    (\<lambda>_ h. \<exists>fh str a. target_of s fd p fh str \<and> C (req fh str) (fw_host (world s)) = (Inr a, h))
    (\<lambda>e h. (\<exists>fh str er. target_of s fd p fh str \<and> C (req fh str) (fw_host (world s)) = (Inl er, h) \<and>
         translate_error (version env) er = Some e) \<or>
       h = fw_host (world s) \<and> call_error e \<and> (\<forall>fh str. \<not> target_of s fd p fh str))"
  unfolding path_call_def
proof (rule served_named [OF assms(2-4)], goal_cases)
  case (1 r' fh s1)
  show ?case by (rule served_host [OF assms(1) 1(1)]) (use 1 in auto)
qed simp

lemma target_unique: "target_of s fd p fh str \<Longrightarrow> target_of s fd p fh' str' \<Longrightarrow> fh' = fh \<and> str' = str"
  by (simp add: target_of_def)

lemma renameat_served:
  assumes "host_typed (version env) C" "fs_inv r s" "CHR 0x00 \<notin> set p" "length p < 2 ^ 31"
    "CHR 0x00 \<notin> set q" "length q < 2 ^ 31"
  shows "served r s (renameat env C fd (c_mem p) fd' (c_mem q) s)
    (\<lambda>_ h. \<exists>fh str fh' str' a. target_of s fd p fh str \<and> target_of s fd' q fh' str' \<and>
       C (Rename_at fh str fh' str') (fw_host (world s)) = (Inr a, h))
    (\<lambda>e h. (\<exists>fh str fh' str' er. target_of s fd p fh str \<and> target_of s fd' q fh' str' \<and>
       C (Rename_at fh str fh' str') (fw_host (world s)) = (Inl er, h) \<and> translate_error (version env) er = Some e) \<or>
       h = fw_host (world s) \<and> local_error e)"
  unfolding renameat_def
proof (rule served_with_handle [OF assms(2)], goal_cases)
  case (1 r1 fh s1)
  have h: "handle_of s1 n = handle_of s n" for n using 1(2) by (rule handle_of_view)
  show ?case
  proof (rule served_with_handle [OF 1(1)], goal_cases)
    case 2: (1 r2 fh' s2)
    have host: "fw_host (world s2) = fw_host (world s)" using 1(3) 2(3) by simp
    show ?case
    proof (rule served_string [OF assms(3,4) 2(1)], goal_cases)
      case u: 1
      show ?case
      proof (rule served_string [OF assms(5,6) 2(1)], goal_cases)
        case u': 1
        have "target_of s fd p fh (bytes p)" "target_of s fd' q fh' (bytes q)"
          using 1(4,5) 2(4,5) u u' h by (simp_all add: target_of_def)
        then show ?case
          by (intro served_host [OF assms(1) 2(1)]) (simp_all only: host, blast+)
      qed (simp add: host local_error_def call_error_def)
    qed (simp add: host local_error_def call_error_def)
  next
    case 2
    with 1(3) show ?case by (simp add: local_error_def call_error_def)
  qed
qed (simp add: local_error_def call_error_def)

lemma below_fits:
  assumes "below s path q rel" "length (cwd s) + length path + 1 < 2 ^ 31"
  shows "CHR 0x00 \<notin> set rel" "length rel < 2 ^ 31"
  using assms by (auto simp: below_def)

lemma in_dir_path_call:
  assumes "posix_ok X r s" "CHR 0x00 \<notin> set path" "env_ok X" "length (cwd (ps s)) + length path + 1 < 2 ^ 31"
  shows "pserved X r s (in_dir X path (\<lambda>fd rel. path_call (dt X) (calls X) req fd rel) s)
    (\<lambda>_ h. \<exists>fh str a. denotes s path fh str \<and> calls X (req fh str) (host_of s) = (Inr a, h))
    (\<lambda>e h. (\<exists>fh str er. denotes s path fh str \<and> calls X (req fh str) (host_of s) = (Inl er, h) \<and>
         translate_error (version (dt X)) er = Some e) \<or>
       h = host_of s \<and> local_error e)"
proof (rule in_dir_served [OF assms(1-3)], goal_cases)
  case 1
  show ?case by (simp add: local_error_def)
next
  case (2 fd pfx rel w)
  have t: "denotes s path fh str" if "target_of w fd rel fh str" for fh str
    using that 2(1) target_of_view [OF 2(3)] by (auto simp: denotes_def)
  have "host_typed (version (dt X)) (calls X)" using assms(3) by (simp add: env_ok_def)
  from path_call_served [OF this 2(2) below_fits [OF 2(1) assms(4)], of req fd]
  show ?case unfolding 2(4) by (rule served_mono) (use t local_error_def in \<open>blast+\<close>)
qed

text \<open>Two lookups, each into a buffer of its own, followed by a call.\<close>

lemma two_paths_served:
  assumes "posix_ok X r s" "CHR 0x00 \<notin> set old" "CHR 0x00 \<notin> set new" "env_ok X" "Q ENOENT (host_of s)"
    and call: "\<And>fd pfx rel fd' pfx' rel' w. below (ps s) old (fd, pfx) rel \<Longrightarrow> below (ps s) new (fd', pfx') rel' \<Longrightarrow>
      fs_inv r w \<Longrightarrow> st_view w = st_view (fs_of s) \<Longrightarrow> fw_host (world w) = host_of s \<Longrightarrow>
      served r w (call fd (c_mem rel) fd' (c_mem rel') w) P Q"
  shows "pserved X r s
    (bindO (on_err (find_relpath_alt X old s) (\<lambda>_ s. Err ENOENT s)) (\<lambda>old_dirfd s.
     bindO (on_err (find_relpath_std X new s) (\<lambda>_ s. Err ENOENT s)) (\<lambda>new_dirfd s.
       on_fs (call old_dirfd (rel_mem (relative_buf_alt s)) new_dirfd (rel_mem (relative_buf s))) s))) P Q"
  unfolding pserved_def
proof (rule holds_bind [OF or_noent [OF find_alt_holds [OF assms(1,2,4)]]], goal_cases)
  case (1 fd s1)
  then obtain rel pfx where s1: "posix_ok X r s1" "alike s s1" "host_of s1 = host_of s"
    "rb_data (relative_buf_alt s1) = Some rel" "below (ps s) old (fd, pfx) rel" by auto
  show ?case
  proof (rule holds_bind [OF or_noent [OF find_std_holds [OF s1(1) assms(3,4)]]], goal_cases)
    case (1 fd' s2)
    then obtain rel' pfx' where s2: "posix_ok X r s2" "alike s1 s2" "host_of s2 = host_of s1"
      "rb_data (relative_buf s2) = Some rel'" "below (ps s1) new (fd', pfx') rel'"
      "relative_buf_alt s2 = relative_buf_alt s1" by auto
    have b: "below (ps s) new (fd', pfx') rel'" using s2(5) below_alike [OF s1(2)] by simp
    have a: "alike s s2" using s1(2) s2(2) by (rule alike_trans)
    have "pserved X r s2 (on_fs (call fd (c_mem rel) fd' (c_mem rel')) s2) P Q"
      by (rule on_fs_served [OF s2(1)], rule call [OF s1(5) b])
        (use a s1(3) s2(3) in \<open>auto simp: alike_def\<close>)
    then show ?case
      unfolding rel_mem_def s2(4,6) s1(4) option.sel pserved_def [symmetric] by (rule pserved_from [OF _ a])
  next
    case (2 e s2)
    with s1 assms(5) show ?case by (auto intro: alike_trans)
  qed
next
  case (2 e s1)
  with assms(5) show ?case by auto
qed

section \<open>All calls at once\<close>

text \<open>The calls on paths as data, with their results dropped; \<open>open\<close> and \<open>truncate\<close> are apart.\<close>

datatype (plugins only: code) path_op =
    O_access string "32 word" | O_readlink string nat | O_stat string | O_lstat string
  | O_utime string "(64 word \<times> 64 word) option" | O_utimes string "(timeval \<times> timeval) option"
  | O_unlink string | O_rmdir string | O_remove string | O_mkdir string | O_symlink string string
  | O_link string string | O_rename string string | O_chmod
  | O_symlinkat string int string | O_readlinkat int string nat | O_mkdirat int string
  | O_faccessat int string "32 word" "32 word" | O_fstatat int string "32 word"
  | O_utimensat int string "(timespec \<times> timespec) option" "32 word"
  | O_linkat int string int string "32 word" | O_renameat int string int string | O_unlinkat int string "32 word"

primrec run_op :: "'h proc_env \<Rightarrow> path_op \<Rightarrow> 'h posix_state \<Rightarrow> (unit, 'h posix_state) outcome" where
  "run_op X (O_access p m) s = access X p m s"
| "run_op X (O_readlink p n) s = dropO (readlink X p n s)"
| "run_op X (O_stat p) s = dropO (stat_path X p s)"
| "run_op X (O_lstat p) s = dropO (lstat X p s)"
| "run_op X (O_utime p t) s = utime X p t s"
| "run_op X (O_utimes p t) s = utimes X p t s"
| "run_op X (O_unlink p) s = unlink X p s"
| "run_op X (O_rmdir p) s = rmdir X p s"
| "run_op X (O_remove p) s = remove_path X p s"
| "run_op X (O_mkdir p) s = mkdir X p s"
| "run_op X (O_symlink p q) s = symlink X p q s"
| "run_op X (O_link p q) s = link X p q s"
| "run_op X (O_rename p q) s = rename X p q s"
| "run_op X O_chmod s = not_supported s"
| "run_op X (O_symlinkat p fd q) s = at_symlinkat X p fd q s"
| "run_op X (O_readlinkat fd p n) s = dropO (at_readlinkat X fd p n s)"
| "run_op X (O_mkdirat fd p) s = at_mkdirat X fd p s"
| "run_op X (O_faccessat fd p m fl) s = at_faccessat X fd p m fl s"
| "run_op X (O_fstatat fd p fl) s = dropO (at_fstatat X fd p fl s)"
| "run_op X (O_utimensat fd p t fl) s = at_utimensat X fd p t fl s"
| "run_op X (O_linkat fd p fd' q fl) s = at_linkat X fd p fd' q fl s"
| "run_op X (O_renameat fd p fd' q) s = at_renameat X fd p fd' q s"
| "run_op X (O_unlinkat fd p fl) s = at_unlinkat X fd p fl s"

primrec op_paths :: "path_op \<Rightarrow> string list" where
  "op_paths (O_access p m) = [p]"
| "op_paths (O_readlink p n) = [p]"
| "op_paths (O_stat p) = [p]"
| "op_paths (O_lstat p) = [p]"
| "op_paths (O_utime p t) = [p]"
| "op_paths (O_utimes p t) = [p]"
| "op_paths (O_unlink p) = [p]"
| "op_paths (O_rmdir p) = [p]"
| "op_paths (O_remove p) = [p]"
| "op_paths (O_mkdir p) = [p]"
| "op_paths (O_symlink p q) = [p, q]"
| "op_paths (O_link p q) = [p, q]"
| "op_paths (O_rename p q) = [p, q]"
| "op_paths O_chmod = []"
| "op_paths (O_symlinkat p fd q) = [p, q]"
| "op_paths (O_readlinkat fd p n) = [p]"
| "op_paths (O_mkdirat fd p) = [p]"
| "op_paths (O_faccessat fd p m fl) = [p]"
| "op_paths (O_fstatat fd p fl) = [p]"
| "op_paths (O_utimensat fd p t fl) = [p]"
| "op_paths (O_linkat fd p fd' q fl) = [p, q]"
| "op_paths (O_renameat fd p fd' q) = [p, q]"
| "op_paths (O_unlinkat fd p fl) = [p]"

abbreviation pquiet :: "'h proc_env \<Rightarrow> (data_ptr \<Rightarrow> nat) \<Rightarrow> 'h posix_state \<Rightarrow> ('a, 'h posix_state) outcome \<Rightarrow> bool" where
  "pquiet X r s x \<equiv> pserved X r s x (\<lambda>_ _. True) (\<lambda>_ _. True)"

lemma pquiet_in_dir:
  assumes "posix_ok X r s" "CHR 0x00 \<notin> set path" "env_ok X"
    and "\<And>fd p w. c_string p \<Longrightarrow> fs_inv r w \<Longrightarrow> quiet r w (call fd p w)"
  shows "pquiet X r s (in_dir X path call s)"
  by (rule in_dir_served [OF assms(1-3)])
    (auto simp: below_def intro!: served_quiet assms(4) c_string_mem)

lemma pquiet_on_fs:
  assumes "posix_ok X r s" "\<And>w. fs_inv r w \<Longrightarrow> quiet r w (f w)"
  shows "pquiet X r s (on_fs f s)"
  by (rule on_fs_served [OF assms(1)]) (use assms(2) in \<open>auto intro!: served_quiet\<close>)

lemma pquiet_drop: "pquiet X r s x \<Longrightarrow> pquiet X r s (dropO x)"
  unfolding pserved_def dropO_def by (rule holds_bind) auto

lemma pquiet_Err: "posix_ok X r s \<Longrightarrow> pquiet X r s (Err e s)"
  by (simp add: pserved_def)

lemma nocwd_quiet:
  assumes "env_ok X" "fs_inv r w"
  shows "c_string p \<Longrightarrow> quiet r w (unlinkat (dt X) (calls X) fd p w)"
    "c_string p \<Longrightarrow> quiet r w (rmdirat (dt X) (calls X) fd p w)"
    "c_string p \<Longrightarrow> quiet r w (mkdirat (dt X) (calls X) fd p w)"
    "c_string p \<Longrightarrow> quiet r w (faccessat (dt X) (calls X) fd p m fl w)"
    "c_string p \<Longrightarrow> quiet r w (utimensat (dt X) (calls X) fd p t fl w)"
    "c_string p \<Longrightarrow> quiet r w (fstatat (dt X) (calls X) (other_fstat X) fd p fl w)"
    "c_string p \<Longrightarrow> quiet r w (readlinkat (dt X) (calls X) fd p n w)"
    "c_string p \<Longrightarrow> c_string q \<Longrightarrow> quiet r w (symlinkat (dt X) (calls X) p fd q w)"
    "c_string p \<Longrightarrow> c_string q \<Longrightarrow> quiet r w (linkat (dt X) (calls X) fd p fd' q fl w)"
    "c_string p \<Longrightarrow> c_string q \<Longrightarrow> quiet r w (renameat (dt X) (calls X) fd p fd' q w)"
    "quiet r w (ftruncate (dt X) (calls X) fd k w)"
proof -
  have t: "host_typed (version (dt X)) (calls X)" and f: "fstat_pure (other_fstat X)"
    using assms(1) by (simp_all add: env_ok_def)
  note q = quiet_calls [OF t f assms(2)]
  show "c_string p \<Longrightarrow> quiet r w (unlinkat (dt X) (calls X) fd p w)" using q [of "C_unlinkat fd p"] by simp
  show "c_string p \<Longrightarrow> quiet r w (rmdirat (dt X) (calls X) fd p w)" using q [of "C_rmdirat fd p"] by simp
  show "c_string p \<Longrightarrow> quiet r w (mkdirat (dt X) (calls X) fd p w)" using q [of "C_mkdirat fd p"] by simp
  show "c_string p \<Longrightarrow> quiet r w (faccessat (dt X) (calls X) fd p m fl w)"
    by (rule quiet_faccessat [OF t assms(2)])
  show "c_string p \<Longrightarrow> quiet r w (utimensat (dt X) (calls X) fd p t fl w)"
    by (rule quiet_utimens(2) [OF t assms(2)])
  show "c_string p \<Longrightarrow> quiet r w (fstatat (dt X) (calls X) (other_fstat X) fd p fl w)"
    by (rule quiet_fstatat [OF t f assms(2)])
  show "c_string p \<Longrightarrow> quiet r w (readlinkat (dt X) (calls X) fd p n w)"
    unfolding readlinkat_def Let_def using t assms(2) by (auto intro!: quiet_intros)
  show "c_string p \<Longrightarrow> c_string q \<Longrightarrow> quiet r w (symlinkat (dt X) (calls X) p fd q w)"
    using q [of "C_symlinkat p fd q"] by simp
  show "c_string p \<Longrightarrow> c_string q \<Longrightarrow> quiet r w (linkat (dt X) (calls X) fd p fd' q fl w)"
    using q [of "C_linkat fd p fd' q fl"] by simp
  show "c_string p \<Longrightarrow> c_string q \<Longrightarrow> quiet r w (renameat (dt X) (calls X) fd p fd' q w)"
    using q [of "C_renameat fd p fd' q"] by simp
  show "quiet r w (ftruncate (dt X) (calls X) fd k w)" using q [of "C_ftruncate fd k"] by simp
qed

lemma pquiet_one_path:
  assumes "posix_ok X r s" "env_ok X" "CHR 0x00 \<notin> set p"
  shows "pquiet X r s (access X p m s)" "pquiet X r s (readlink X p n s)" "pquiet X r s (stat_path X p s)"
    "pquiet X r s (lstat X p s)" "pquiet X r s (utime X p t s)" "pquiet X r s (utimes X p t' s)"
    "pquiet X r s (unlink X p s)" "pquiet X r s (rmdir X p s)" "pquiet X r s (mkdir X p s)"
    "pquiet X r s (wasilibc_access X p m fl s)" "pquiet X r s (wasilibc_utimens X p ts fl s)"
    "pquiet X r s (wasilibc_stat X p fl s)"
  unfolding access_def readlink_def stat_path_def lstat_def utime_def utimes_def unlink_def rmdir_def mkdir_def
    wasilibc_access_def wasilibc_utimens_def wasilibc_stat_def
  using assms by (auto intro!: pquiet_in_dir pquiet_Err nocwd_quiet)

lemma pquiet_remove:
  assumes "posix_ok X r s" "env_ok X" "CHR 0x00 \<notin> set p"
  shows "pquiet X r s (remove_path X p s)"
  unfolding remove_path_def
  by (rule pquiet_in_dir [OF assms(1,3,2)])
    (auto intro!: quiet_on_err quiet_Err nocwd_quiet [OF assms(2)])

lemma pquiet_mixed:
  assumes "posix_ok X r s" "env_ok X" "CHR 0x00 \<notin> set p" "CHR 0x00 \<notin> set q"
  shows "pquiet X r s (symlink X p q s)" "pquiet X r s (link_oldat X fd p q fl s)" "pquiet X r s (link_newat X p fd q fl s)"
    "pquiet X r s (rename_oldat X fd p q s)" "pquiet X r s (rename_newat X p fd q s)"
  unfolding symlink_def link_oldat_def link_newat_def rename_oldat_def rename_newat_def
  using assms by (auto intro!: pquiet_in_dir nocwd_quiet c_string_mem)

lemma pquiet_two_paths:
  assumes "posix_ok X r s" "env_ok X" "CHR 0x00 \<notin> set p" "CHR 0x00 \<notin> set q"
  shows "pquiet X r s (link X p q s)" "pquiet X r s (rename X p q s)"
  unfolding link_def rename_def
  by (rule two_paths_served [OF assms(1,3,4,2)];
      auto simp: below_def intro!: served_quiet nocwd_quiet [OF assms(2)] c_string_mem)+

lemma pquiet_wasilibc_link:
  assumes "posix_ok X r s" "env_ok X" "CHR 0x00 \<notin> set p" "CHR 0x00 \<notin> set q"
  shows "pquiet X r s (wasilibc_link X p q fl s)"
  unfolding wasilibc_link_def pserved_def
proof (rule holds_bind [OF holds_on_err [OF find_std_holds [OF assms(1,3,2)],
      where P' = "\<lambda>fd s'. posix_ok X r s' \<and> alike s s' \<and>
        (fd \<noteq> -1 \<longrightarrow> (\<exists>rel pfx. rb_data (relative_buf s') = Some rel \<and> below (ps s) p (fd, pfx) rel))"
      and Q' = "\<lambda>_ _. False"]], goal_cases)
  case (3 fd s1)
  then have s1: "posix_ok X r s1" "alike s s1" by auto
  show ?case
  proof (rule holds_bind [OF holds_on_err [OF find_alt_holds [OF s1(1) assms(4,2)],
      where P' = "\<lambda>fd' s'. posix_ok X r s' \<and> alike s1 s' \<and>
        (fd' \<noteq> -1 \<longrightarrow> relative_buf s' = relative_buf s1 \<and>
           (\<exists>rel pfx. rb_data (relative_buf_alt s') = Some rel \<and> below (ps s1) q (fd', pfx) rel))"
      and Q' = "\<lambda>_ _. False"]], goal_cases)
    case (3 fd' s2)
    then have s2: "posix_ok X r s2" "alike s s2" using s1(2) alike_trans by auto
    have "pquiet X r s2 (on_fs (linkat (dt X) (calls X) fd (rel_mem (relative_buf s2)) fd' (rel_mem (relative_buf_alt s2)) fl) s2)"
      if "fd \<noteq> -1" "fd' \<noteq> -1"
      by (rule pquiet_on_fs [OF s2(1)])
        (use that 3 \<open>_ \<and> _ \<and> (fd \<noteq> -1 \<longrightarrow> _)\<close> in \<open>auto simp: rel_mem_def below_def intro!: nocwd_quiet [OF assms(2)] c_string_mem\<close>)
    from pserved_from [OF this s2(2)] s2 show ?case by (auto simp: pserved_def)
  qed auto
qed auto

lemma pquiet_ops:
  assumes "posix_ok X r s" "env_ok X" "list_all (\<lambda>p. CHR 0x00 \<notin> set p) (op_paths c)"
  shows "pquiet X r s (run_op X c s)"
  using assms
  by (cases c)
    (auto simp: not_supported_def at_symlinkat_def at_readlinkat_def at_mkdirat_def at_faccessat_def at_fstatat_def
      at_utimensat_def at_linkat_def at_renameat_def at_unlinkat_def wasilibc_unlinkat_def wasilibc_rmdirat_def
      intro!: pquiet_one_path pquiet_remove pquiet_mixed pquiet_two_paths pquiet_wasilibc_link pquiet_drop pquiet_Err
        pquiet_on_fs nocwd_quiet c_string_mem)

section \<open>Opening and closing\<close>

text \<open>The state after a call that may have changed the descriptors, with the descriptors it has then.\<close>

definition with_fds :: "'h proc_env \<Rightarrow> (data_ptr \<Rightarrow> nat) \<Rightarrow> 'h posix_state \<Rightarrow> (nat \<rightharpoonup> descriptor_table_entry) \<Rightarrow>
    'h posix_state \<Rightarrow> bool" where
  "with_fds X r s m s' \<longleftrightarrow> posix_ok X r s' \<and> cwd (ps s') = cwd (ps s) \<and> registered (po (ps s')) = registered (po (ps s)) \<and>
     fd_map (global_table (fs_of s')) = m"

abbreviation fds_of :: "'h posix_state \<Rightarrow> nat \<rightharpoonup> descriptor_table_entry" where
  "fds_of s \<equiv> fd_map (global_table (fs_of s))"

lemma posix_ok_rest:
  "posix_ok X r s \<Longrightarrow> dt_inv r w \<Longrightarrow> stdio_initialized w \<Longrightarrow> posix_ok X r (s\<lparr>ps := (ps s)\<lparr>po := (po (ps s))\<lparr>rest := w\<rparr>\<rparr>\<rparr>)"
  by (simp add: posix_ok_def proc_ok_def fs_inv_def)

lemma open_holds:
  assumes "posix_ok X r s" "env_ok X" "CHR 0x00 \<notin> set path" "fresh_alloc (dt X) (file_alloc X)"
  shows "holds (open_nomode X path oflags s)
    (\<lambda>n s'. fds_of s n = None \<and> (\<exists>e. with_fds X r s ((fds_of s)(n \<mapsto> e)) s'))
    (\<lambda>_ s'. with_fds X r s (fds_of s) s')"
  unfolding open_nomode_def in_dir_def
proof (rule holds_bind [OF or_noent [OF find_std_holds [OF assms(1,3,2)]]], goal_cases)
  case (1 fd s1)
  then obtain rel pfx where s1: "posix_ok X r s1" "alike s s1" "rb_data (relative_buf s1) = Some rel"
    "below (ps s) path (fd, pfx) rel" by auto
  have t: "global_table (fs_of s1) = global_table (fs_of s)"
    using s1(2) by (simp add: alike_def lib_view_def)
  have host: "host_typed (version (dt X)) (calls X)" using assms(2) by (simp add: env_ok_def)
  have inv: "fs_inv r (fs_of s1)" using s1(1) by (simp add: posix_ok_def proc_ok_def)
  then have free: "fds_of s1 (LEAST i. fds_of s1 i = None) = None"
    by (intro least_free) (simp add: fs_inv_def dt_inv_def)
  have str: "c_string (c_mem rel)" using s1(4) by (auto simp: below_def intro: c_string_mem)
  have "holds (openat (streams X) (dt X) (calls X) (file_alloc X) fd (c_mem rel) oflags (fs_of s1))
      (\<lambda>n w. dt_inv r w \<and> stdio_initialized w \<and> fds_of s n = None \<and>
         (\<exists>e. fd_map (global_table w) = (fds_of s)(n \<mapsto> e)))
      (\<lambda>_ w. dt_inv r w \<and> stdio_initialized w \<and> fd_map (global_table w) = fds_of s)"
  proof (cases "fs_flags_of oflags")
    case None
    with inv t show ?thesis by (simp add: openat_def fs_inv_def)
  next
    case (Some ff)
    from openat_holds [OF host inv str assms(4) Some, of "streams X" fd] show ?thesis
      by (rule holds_mono) (use free in \<open>auto simp: t\<close>)
  qed
  then show ?case
    unfolding on_fs_def on_rest_def holds_lift_part rel_mem_def s1(3) option.sel
    by (rule holds_mono) (use s1(1,2) in \<open>auto simp: with_fds_def alike_def intro: posix_ok_rest\<close>)
next
  case (2 e s1)
  then show ?case by (auto simp: with_fds_def alike_def lib_view_def)
qed

lemma close_holds:
  assumes "posix_ok X r s" "env_ok X" "fds_of s n = Some e"
  shows "holds (close_fd X (int n) s) (\<lambda>_ s'. with_fds X r s ((fds_of s)(n := None)) s') (\<lambda>_ _. False)"
proof -
  from assms(2) obtain loop where l: "fill X = populate_preopens loop" by (auto simp: env_ok_def)
  have inv: "dt_inv r (fs_of s)" "stdio_initialized (fs_of s)" "preopens_populated (po (ps s))"
    using assms(1) by (simp_all add: posix_ok_def proc_ok_def fs_inv_def path_ok_def)
  then have "stdio_ready (dt X) (fs_of s)" by (simp add: stdio_ready_def)
  from remove_holds [OF inv(1) this, of "int n"] have
    "holds (descriptor_table_remove (dt X) (int n) (fs_of s))
      (\<lambda>_ w. dt_inv r w \<and> stdio_initialized w \<and> fd_map (global_table w) = (fds_of s)(n := None)) (\<lambda>_ _. False)"
    by (rule holds_mono) (use inv assms(3) in auto)
  then have "holds (close_p2 (dt X) (fill X) (int n) (po (ps s)))
      (\<lambda>_ p. \<exists>w. p = (po (ps s))\<lparr>rest := w\<rparr> \<and> dt_inv r w \<and> stdio_initialized w \<and> fd_map (global_table w) = (fds_of s)(n := None))
      (\<lambda>_ _. False)"
    using inv(3) by (auto simp: close_p2_def l populate_preopens_def holds_lift_part elim!: holds_mono)
  then show ?thesis
    unfolding close_fd_def holds_lift_part
    by (rule holds_mono) (use assms(1) in \<open>auto simp: with_fds_def intro: posix_ok_rest\<close>)
qed

lemma truncate_holds:
  assumes "posix_ok X r s" "env_ok X" "CHR 0x00 \<notin> set path" "fresh_alloc (dt X) (file_alloc X)"
  shows "holds (truncate X path n s) (\<lambda>_ s'. with_fds X r s (fds_of s) s') (\<lambda>_ s'. with_fds X r s (fds_of s) s')"
  unfolding truncate_def
proof (rule holds_bind [OF open_holds [OF assms]], goal_cases)
  case (1 fd s1)
  then obtain e where s1: "posix_ok X r s1" "fds_of s fd = None" "with_fds X r s ((fds_of s)(fd \<mapsto> e)) s1"
    by (auto simp: with_fds_def)
  have close: "holds (close_fd X (int fd) s2) (\<lambda>_ s'. with_fds X r s (fds_of s) s') (\<lambda>_ _. False)"
    if "posix_ok X r s2" "alike s1 s2" for s2
  proof -
    have m: "fds_of s2 = (fds_of s)(fd \<mapsto> e)"
      using that(2) s1(3) by (simp add: alike_def with_fds_def lib_view_def)
    then have "fds_of s2 fd = Some e" by simp
    from close_holds [OF that(1) assms(2) this] show ?thesis
      by (rule holds_mono) (use that s1 m in \<open>auto simp: with_fds_def alike_def fun_upd_idem\<close>)
  qed
  have "pquiet X r s1 (on_fs (ftruncate (dt X) (calls X) (int fd) n) s1)"
    by (intro pquiet_on_fs [OF s1(1)] nocwd_quiet(11) [OF assms(2)])
  then have ft: "holds (on_fs (ftruncate (dt X) (calls X) (int fd) n) s1)
      (\<lambda>_ s'. posix_ok X r s' \<and> alike s1 s') (\<lambda>_ s'. posix_ok X r s' \<and> alike s1 s')" by (simp add: pserved_def)
  show ?case
  proof (rule holds_bind [OF holds_on_err [OF ft, where P' = "\<lambda>_ s'. posix_ok X r s' \<and> alike s1 s'"
      and Q' = "\<lambda>_ s'. with_fds X r s (fds_of s) s'"]], goal_cases)
    case (2 er s2)
    then have "holds (on_err (close_fd X (int fd) s2) (\<lambda>_ s. Ret () s)) (\<lambda>_ s'. with_fds X r s (fds_of s) s') (\<lambda>_ _. False)"
      by (intro holds_on_err [OF close]) auto
    then show ?case by (rule holds_bind) auto
  next
    case (3 u s2)
    with close [of s2] show ?case by (auto elim: holds_mono)
  qed auto
qed

section \<open>Removal\<close>

definition retries :: "errno \<Rightarrow> bool" where
  "retries e \<longleftrightarrow> e = EISDIR \<or> e = ENOENT \<or> e = EACCES \<or> e = EPERM"

lemma remove_served:
  assumes "host_typed (version env) C" "fs_inv r s" "CHR 0x00 \<notin> set p" "length p < 2 ^ 31"
  shows "served r s
    (on_err (unlinkat env C fd (c_mem p) s)
      (\<lambda>e s. if e = EISDIR \<or> e = ENOENT \<or> e = EACCES \<or> e = EPERM then
         on_err (rmdirat env C fd (c_mem p) s) (\<lambda>e s. Err (if e = ENOTDIR then ENOENT else e) s)
       else Err e s))
    (\<lambda>_ h. \<exists>fh str a. target_of s fd p fh str \<and>
       (C (Unlink_file_at fh str) (fw_host (world s)) = (Inr a, h) \<or>
        (\<exists>er e h1. C (Unlink_file_at fh str) (fw_host (world s)) = (Inl er, h1) \<and>
           translate_error (version env) er = Some e \<and> retries e \<and> C (Remove_directory_at fh str) h1 = (Inr a, h))))
    (\<lambda>e h. h = fw_host (world s) \<and> call_error e \<or>
       (\<exists>fh str er e1 h1. target_of s fd p fh str \<and>
         C (Unlink_file_at fh str) (fw_host (world s)) = (Inl er, h1) \<and> translate_error (version env) er = Some e1 \<and>
         (\<not> retries e1 \<and> e = e1 \<and> h = h1 \<or>
          retries e1 \<and> (\<exists>er e2. C (Remove_directory_at fh str) h1 = (Inl er, h) \<and>
            translate_error (version env) er = Some e2 \<and> e = (if e2 = ENOTDIR then ENOENT else e2)))))"
  unfolding served_def unlinkat_def rmdirat_def
proof (rule holds_on_err [OF path_call_served [OF assms, unfolded served_def]], goal_cases)
  case (1 a s1)
  then show ?case by blast
next
  case (2 e s1)
  then have s1: "fs_inv r s1" "st_view s1 = st_view s" by auto
  have v: "target_of s1 fd p fh str = target_of s fd p fh str" for fh str by (rule target_of_view [OF s1(2)])
  from 2 have e: "(\<exists>fh str er. target_of s fd p fh str \<and>
        C (Unlink_file_at fh str) (fw_host (world s)) = (Inl er, fw_host (world s1)) \<and> translate_error (version env) er = Some e) \<or>
      fw_host (world s1) = fw_host (world s) \<and> call_error e" by auto
  show ?case
  proof (cases "retries e")
    case False
    then have r: "(e = EISDIR \<or> e = ENOENT \<or> e = EACCES \<or> e = EPERM) = False" by (simp add: retries_def)
    from e s1 False show ?thesis unfolding r if_False holds.simps by blast
  next
    case True
    then have "\<not> call_error e" by (auto simp: retries_def call_error_def)
    with e obtain fh str er where u: "target_of s fd p fh str"
      "C (Unlink_file_at fh str) (fw_host (world s)) = (Inl er, fw_host (world s1))" "translate_error (version env) er = Some e"
      by blast
    from True have r: "(e = EISDIR \<or> e = ENOENT \<or> e = EACCES \<or> e = EPERM) = True" by (simp add: retries_def)
    show ?thesis
      unfolding r if_True
    proof (rule holds_on_err [OF path_call_served [OF assms(1) s1(1) assms(3,4), unfolded served_def]], goal_cases)
      case (1 x s2)
      then obtain fh' str' a where "target_of s1 fd p fh' str'"
        "C (Remove_directory_at fh' str') (fw_host (world s1)) = (Inr a, fw_host (world s2))" by blast
      with target_unique [OF u(1)] v have "C (Remove_directory_at fh str) (fw_host (world s1)) = (Inr a, fw_host (world s2))"
        by metis
      with 1 s1 u True show ?case by (intro conjI) (simp, simp, blast)
    next
      case (2 e2 s2)
      with u(1) v obtain fh' str' er' where "target_of s1 fd p fh' str'"
        "C (Remove_directory_at fh' str') (fw_host (world s1)) = (Inl er', fw_host (world s2))"
        "translate_error (version env) er' = Some e2" by blast
      moreover with target_unique [OF u(1)] v have "fh' = fh" "str' = str" by blast+
      ultimately have "C (Remove_directory_at fh str) (fw_host (world s1)) = (Inl er', fw_host (world s2))"
        "translate_error (version env) er' = Some e2" by simp_all
      with 2 s1 u True show ?case unfolding holds.simps by (intro conjI disjI2) (simp, simp, blast)
    qed
  qed
qed

section \<open>Properties\<close>

text \<open>A host for the witnesses: one file to rename, directories where files were expected, files to open.\<close>

definition demo_px_calls :: "mem_state fs_calls" where
  "demo_px_calls q h =
     (case q of
        Rename_at fh p fh' p' \<Rightarrow>
          if (fh, p, fh', p') = (6, bytes ''a'', 8, bytes ''b'') then (Inr Done, h) else (Inl FS_NO_ENTRY, h)
      | Unlink_file_at _ _ \<Rightarrow> (Inl FS_IS_DIRECTORY, h)
      | Open_at _ _ _ _ _ \<Rightarrow> (Inr (A_handle 9), h)
      | _ \<Rightarrow> demo_dir_calls q h)"

definition demo_px :: "mem_state proc_env" where
  "demo_px = demo_proc\<lparr>calls := demo_px_calls\<rparr>"

definition demo_posix :: "mem_state posix_state" where
  "demo_posix = \<lparr>ps = demo_path\<lparr>cwd := ''/usr''\<rparr>, relative_buf = \<lparr>rb_data = None, rb_len = 0\<rparr>,
     relative_buf_alt = \<lparr>rb_data = None, rb_len = 0\<rparr>\<rparr>"

lemma demo_px_typed: "host_typed v demo_px_calls"
  unfolding host_typed_def
proof (intro allI)
  fix q h
  have "case demo_dir_calls q h of (Inl e, _) \<Rightarrow> translate_error v e \<noteq> None | (Inr a, _) \<Rightarrow> ans_ok q a"
    using demo_dir_typed [of v] unfolding host_typed_def by (elim allE)
  then show "case demo_px_calls q h of (Inl e, _) \<Rightarrow> translate_error v e \<noteq> None | (Inr a, _) \<Rightarrow> ans_ok q a"
    unfolding demo_px_calls_def by (cases q) (simp_all add: translate_error_def)
qed

lemma demo_px_env: "env_ok demo_px" "fresh_alloc (dt demo_px) (file_alloc demo_px)"
  using demo_proc_ok demo_px_typed demo_falloc_fresh
  by (auto simp: env_ok_def demo_px_def demo_proc_def demo_populate_def)

lemma demo_posix_ok: "posix_ok demo_px (\<lambda>_. 0) demo_posix"
  using demo_path_ok
  by (simp add: posix_ok_def demo_posix_def demo_px_def demo_proc_def proc_ok_def path_ok_def cwd_ok_def c_at_def)

text \<open>C20: Every call of \<open>posix.c\<close> and of \<open>at_fdcwd.c\<close> that does not open a file returns, whatever
  the host answers and whatever the allocator refuses, with the descriptor table and the files as they
  were, the references it took given back, the preopened directories and the working directory
  unchanged, and the invariant of the whole state kept.\<close>

theorem path_calls_give_back:
  assumes "posix_ok X r s" "env_ok X" "list_all (\<lambda>p. CHR 0x00 \<notin> set p) (op_paths c)"
  shows "case run_op X c s of
      Ret _ s' \<Rightarrow> posix_ok X r s' \<and> alike s s'
    | Err _ s' \<Rightarrow> posix_ok X r s' \<and> alike s s'
    | _ \<Rightarrow> False"
  using pquiet_ops [OF assms] by (cases "run_op X c s") (simp_all add: pserved_def)

theorem path_calls_give_back_witness:
  "\<exists>s'. run_op demo_px (O_linkat 4 ''x'' AT_FDCWD ''../y'' 0) demo_posix = Ret () s' \<and>
     posix_ok demo_px (\<lambda>_. 0) s' \<and> alike demo_posix s'"
proof -
  have "ret_val (run_op demo_px (O_linkat 4 ''x'' AT_FDCWD ''../y'' 0) demo_posix) = Some ()" by code_simp
  note eq = ret_val_Ret [OF this]
  have c: "list_all (\<lambda>p. CHR 0x00 \<notin> set p) (op_paths (O_linkat 4 ''x'' AT_FDCWD ''../y'' 0))" by simp
  from path_calls_give_back [OF demo_posix_ok demo_px_env(1) c] show ?thesis
    by (subst (asm) eq, subst eq) simp
qed

text \<open>C8: From the path of the program to the request of the host: \<open>mkdir\<close>, \<open>unlink\<close> and \<open>rmdir\<close>
  make one request, with the handle of a preopened directory and a name below it whose components,
  behind those of the directory, are the components of the path in the working directory; success is the
  answer of the host, and so is every error but those found before: no such directory, a
  preopened directory that was closed, a name that is not UTF-8.\<close>

theorem path_calls_resolve:
  assumes "posix_ok X r s" "env_ok X" "CHR 0x00 \<notin> set path" "length (cwd (ps s)) + length path + 1 < 2 ^ 31"
    "(call, req) \<in> {(mkdir X path s, Create_directory_at), (unlink X path s, Unlink_file_at),
       (rmdir X path s, Remove_directory_at)}"
  shows "case call of
      Ret _ s' \<Rightarrow> \<exists>fh str a. denotes s path fh str \<and> calls X (req fh str) (host_of s) = (Inr a, host_of s')
    | Err e s' \<Rightarrow> (\<exists>fh str er. denotes s path fh str \<and> calls X (req fh str) (host_of s) = (Inl er, host_of s') \<and>
        translate_error (version (dt X)) er = Some e) \<or> host_of s' = host_of s \<and> local_error e
    | _ \<Rightarrow> False"
proof -
  have "call = in_dir X path (\<lambda>fd rel. path_call (dt X) (calls X) req fd rel) s"
    using assms(5) by (auto simp: mkdir_def unlink_def rmdir_def mkdirat_def unlinkat_def rmdirat_def)
  then show ?thesis
    by (simp only:) (rule pserved_cases [OF in_dir_path_call [OF assms(1,3,2,4)]])
qed

theorem path_calls_resolve_witness:
  "\<exists>fh str a s'. mkdir demo_px ''lib/new'' demo_posix = Ret () s' \<and> denotes demo_posix ''lib/new'' fh str \<and>
     demo_px_calls (Create_directory_at fh str) (host_of demo_posix) = (Inr a, host_of s')"
proof -
  have "ret_val (mkdir demo_px ''lib/new'' demo_posix) = Some ()" by code_simp
  note eq = ret_val_Ret [OF this]
  have len: "length (cwd (ps demo_posix)) + length ''lib/new'' + 1 < 2 ^ 31" by (simp add: demo_posix_def)
  have path: "CHR 0x00 \<notin> set ''lib/new''" by simp
  have call: "(mkdir demo_px ''lib/new'' demo_posix, Create_directory_at) \<in>
      {(mkdir demo_px ''lib/new'' demo_posix, Create_directory_at), (unlink demo_px ''lib/new'' demo_posix, Unlink_file_at),
       (rmdir demo_px ''lib/new'' demo_posix, Remove_directory_at)}" by simp
  from path_calls_resolve [OF demo_posix_ok demo_px_env(1) path len call]
  show ?thesis by (subst (asm) eq, subst eq) (auto simp: demo_px_def)
qed

text \<open>C9: \<open>rename\<close> resolves its two paths independently: the request of the host has, for each of
  them, a directory and a name that denote it, although both names stand in static buffers of the
  library when the request is made.\<close>

theorem rename_resolves_both:
  assumes "posix_ok X r s" "env_ok X" "CHR 0x00 \<notin> set old" "CHR 0x00 \<notin> set new"
    "length (cwd (ps s)) + length old + 1 < 2 ^ 31" "length (cwd (ps s)) + length new + 1 < 2 ^ 31"
  shows "case rename X old new s of
      Ret _ s' \<Rightarrow> \<exists>fh str fh' str' a. denotes s old fh str \<and> denotes s new fh' str' \<and>
        calls X (Rename_at fh str fh' str') (host_of s) = (Inr a, host_of s')
    | Err e s' \<Rightarrow> (\<exists>fh str fh' str' er. denotes s old fh str \<and> denotes s new fh' str' \<and>
        calls X (Rename_at fh str fh' str') (host_of s) = (Inl er, host_of s') \<and>
        translate_error (version (dt X)) er = Some e) \<or> host_of s' = host_of s \<and> local_error e
    | _ \<Rightarrow> False"
proof -
  have host: "host_typed (version (dt X)) (calls X)" using assms(2) by (simp add: env_ok_def)
  have "pserved X r s (rename X old new s)
    (\<lambda>_ h. \<exists>fh str fh' str' a. denotes s old fh str \<and> denotes s new fh' str' \<and>
       calls X (Rename_at fh str fh' str') (host_of s) = (Inr a, h))
    (\<lambda>e h. (\<exists>fh str fh' str' er. denotes s old fh str \<and> denotes s new fh' str' \<and>
       calls X (Rename_at fh str fh' str') (host_of s) = (Inl er, h) \<and>
       translate_error (version (dt X)) er = Some e) \<or> h = host_of s \<and> local_error e)"
    unfolding rename_def
  proof (rule two_paths_served [OF assms(1,3,4,2)], goal_cases)
    case 1
    show ?case by (simp add: local_error_def)
  next
    case (2 fd pfx rel fd' pfx' rel' w)
    have t: "target_of w fd rel fh str \<Longrightarrow> denotes s old fh str" "target_of w fd' rel' fh str \<Longrightarrow> denotes s new fh str"
      for fh str using 2(1,2) target_of_view [OF 2(4)] by (auto simp: denotes_def)
    from renameat_served [OF host 2(3) below_fits [OF 2(1) assms(5)] below_fits [OF 2(2) assms(6)], of fd fd']
    show ?case unfolding 2(5) by (rule served_mono) (use t in \<open>blast+\<close>)
  qed
  from pserved_cases [OF this] show ?thesis .
qed

theorem rename_resolves_both_witness:
  "\<exists>fh str fh' str' a s'. rename demo_px ''lib/a'' ''b'' demo_posix = Ret () s' \<and>
     denotes demo_posix ''lib/a'' fh str \<and> denotes demo_posix ''b'' fh' str' \<and>
     demo_px_calls (Rename_at fh str fh' str') (host_of demo_posix) = (Inr a, host_of s')"
proof -
  have "ret_val (rename demo_px ''lib/a'' ''b'' demo_posix) = Some ()" by code_simp
  note eq = ret_val_Ret [OF this]
  have len: "length (cwd (ps demo_posix)) + length ''lib/a'' + 1 < 2 ^ 31"
    "length (cwd (ps demo_posix)) + length ''b'' + 1 < 2 ^ 31" by (simp_all add: demo_posix_def)
  have path: "CHR 0x00 \<notin> set ''lib/a''" "CHR 0x00 \<notin> set ''b''" by simp_all
  from rename_resolves_both [OF demo_posix_ok demo_px_env(1) path len]
  show ?thesis by (subst (asm) eq, subst eq) (auto simp: demo_px_def)
qed

text \<open>C32: \<open>remove\<close> succeeds exactly when the host unlinks the file, or refuses that with \<open>EISDIR\<close>,
  \<open>ENOENT\<close>, \<open>EACCES\<close> or \<open>EPERM\<close> and then removes the directory; its error is that of the last
  request made, with \<open>ENOENT\<close> for \<open>ENOTDIR\<close> from the second one, or one found before any request.\<close>

theorem remove_falls_back:
  assumes "posix_ok X r s" "env_ok X" "CHR 0x00 \<notin> set path" "length (cwd (ps s)) + length path + 1 < 2 ^ 31"
  shows "case remove_path X path s of
      Ret _ s' \<Rightarrow> \<exists>fh str a. denotes s path fh str \<and>
        (calls X (Unlink_file_at fh str) (host_of s) = (Inr a, host_of s') \<or>
         (\<exists>er e h. calls X (Unlink_file_at fh str) (host_of s) = (Inl er, h) \<and>
            translate_error (version (dt X)) er = Some e \<and> retries e \<and>
            calls X (Remove_directory_at fh str) h = (Inr a, host_of s')))
    | Err e s' \<Rightarrow> host_of s' = host_of s \<and> local_error e \<or>
        (\<exists>fh str er e1 h. denotes s path fh str \<and> calls X (Unlink_file_at fh str) (host_of s) = (Inl er, h) \<and>
           translate_error (version (dt X)) er = Some e1 \<and>
           (\<not> retries e1 \<and> e = e1 \<and> host_of s' = h \<or>
            retries e1 \<and> (\<exists>er e2. calls X (Remove_directory_at fh str) h = (Inl er, host_of s') \<and>
              translate_error (version (dt X)) er = Some e2 \<and> e = (if e2 = ENOTDIR then ENOENT else e2))))
    | _ \<Rightarrow> False"
proof -
  have host: "host_typed (version (dt X)) (calls X)" using assms(2) by (simp add: env_ok_def)
  have "pserved X r s (remove_path X path s)
    (\<lambda>_ h'. \<exists>fh str a. denotes s path fh str \<and>
        (calls X (Unlink_file_at fh str) (host_of s) = (Inr a, h') \<or>
         (\<exists>er e h. calls X (Unlink_file_at fh str) (host_of s) = (Inl er, h) \<and>
            translate_error (version (dt X)) er = Some e \<and> retries e \<and>
            calls X (Remove_directory_at fh str) h = (Inr a, h'))))
    (\<lambda>e h'. h' = host_of s \<and> local_error e \<or>
        (\<exists>fh str er e1 h. denotes s path fh str \<and> calls X (Unlink_file_at fh str) (host_of s) = (Inl er, h) \<and>
           translate_error (version (dt X)) er = Some e1 \<and>
           (\<not> retries e1 \<and> e = e1 \<and> h' = h \<or>
            retries e1 \<and> (\<exists>er e2. calls X (Remove_directory_at fh str) h = (Inl er, h') \<and>
              translate_error (version (dt X)) er = Some e2 \<and> e = (if e2 = ENOTDIR then ENOENT else e2)))))"
    unfolding remove_path_def
  proof (rule in_dir_served [OF assms(1,3,2)], goal_cases)
    case 1
    show ?case by (simp add: local_error_def)
  next
    case (2 fd pfx rel w)
    have t: "denotes s path fh str" if "target_of w fd rel fh str" for fh str
      using that 2(1) target_of_view [OF 2(3)] by (auto simp: denotes_def)
    have le: "call_error e \<Longrightarrow> local_error e" for e by (simp add: local_error_def)
    from remove_served [OF host 2(2) below_fits [OF 2(1) assms(4)], of fd]
    show ?case unfolding 2(4) by (rule served_mono) (use t le in \<open>blast+\<close>)
  qed
  from pserved_cases [OF this] show ?thesis .
qed

theorem remove_falls_back_witness:
  "\<exists>s'. remove_path demo_px ''lib'' demo_posix = Ret () s' \<and>
     (\<exists>fh str a. denotes demo_posix ''lib'' fh str \<and>
        demo_px_calls (Remove_directory_at fh str) (host_of demo_posix) = (Inr a, host_of s'))"
proof -
  have "ret_val (remove_path demo_px ''lib'' demo_posix) = Some ()" by code_simp
  note eq = ret_val_Ret [OF this]
  have len: "length (cwd (ps demo_posix)) + length ''lib'' + 1 < 2 ^ 31" by (simp add: demo_posix_def)
  have path: "CHR 0x00 \<notin> set ''lib''" by simp
  from remove_falls_back [OF demo_posix_ok demo_px_env(1) path len]
  show ?thesis by (subst (asm) eq, subst eq) (auto simp: demo_px_def demo_px_calls_def)
qed

text \<open>C10: \<open>truncate\<close>, which opens the file, truncates it and closes it, leaves no descriptor behind:
  on every path, whether opening, truncating or closing fails, the open descriptors afterwards are those
  before, and no reference is left.\<close>

theorem truncate_closes:
  assumes "posix_ok X r s" "env_ok X" "CHR 0x00 \<notin> set path" "fresh_alloc (dt X) (file_alloc X)"
  shows "case truncate X path n s of
      Ret _ s' \<Rightarrow> fds_of s' = fds_of s \<and> dt_inv r (fs_of s')
    | Err _ s' \<Rightarrow> fds_of s' = fds_of s \<and> dt_inv r (fs_of s')
    | _ \<Rightarrow> False"
  using truncate_holds [OF assms, of n]
  by (cases "truncate X path n s") (simp_all add: with_fds_def posix_ok_def proc_ok_def fs_inv_def)

theorem truncate_closes_witness:
  "\<exists>s' s''. truncate demo_px ''lib/a'' 7 demo_posix = Ret () s' \<and> fds_of s' = fds_of demo_posix \<and>
     truncate demo_px ''lib/a'' (-1) demo_posix = Err EINVAL s'' \<and> fds_of s'' = fds_of demo_posix"
proof -
  have "ret_val (truncate demo_px ''lib/a'' 7 demo_posix) = Some ()" by code_simp
  note eq = ret_val_Ret [OF this]
  have "err_val (truncate demo_px ''lib/a'' (-1) demo_posix) = Some EINVAL" by code_simp
  note eq' = err_val_Err [OF this]
  have path: "CHR 0x00 \<notin> set ''lib/a''" by simp
  from truncate_closes [OF demo_posix_ok demo_px_env(1) path demo_px_env(2), of 7]
    truncate_closes [OF demo_posix_ok demo_px_env(1) path demo_px_env(2), of "-1"]
  show ?thesis by (subst (asm) eq, subst (asm) eq', subst eq, subst eq') simp
qed

end
