(* ===== verification/Pipe.thy ===== *)
theory Pipe
  imports Descriptor_Table File Stat_Impl
begin

text \<open>
  Pipes of the WASIp3 build: \<^verbatim>\<open>libc-bottom-half/sources/pipe.c\<close>. A pipe is a buffer that two
  descriptors share, with six flags and a stream of the component model over which a waiting thread is
  woken. The stream is the host's: its operations are an argument, and what the component model
  documents of them is the predicate \<open>stream_laws\<close>. A call that has to wait gives up the lock of the
  pipe, so the calls are cut there: \<open>Waits\<close> is the point at which the thread sleeps.
\<close>

unbundle bit_operations_syntax

section \<open>Definitions\<close>

abbreviation (input) PIPE_READER_ALIVE :: "32 word" where "PIPE_READER_ALIVE \<equiv> 1"
abbreviation (input) PIPE_WRITER_ALIVE :: "32 word" where "PIPE_WRITER_ALIVE \<equiv> 2"
abbreviation (input) PIPE_READER_BLOCKED :: "32 word" where "PIPE_READER_BLOCKED \<equiv> 4"
abbreviation (input) PIPE_WRITER_BLOCKED :: "32 word" where "PIPE_WRITER_BLOCKED \<equiv> 8"
abbreviation (input) PIPE_READER_WOKEN :: "32 word" where "PIPE_READER_WOKEN \<equiv> 16"
abbreviation (input) PIPE_WRITER_WOKEN :: "32 word" where "PIPE_WRITER_WOKEN \<equiv> 32"

definition PIPE_BUF :: nat where "PIPE_BUF = 4096"

text \<open>\<open>w & f\<close> as a condition, \<open>w |= f\<close> and \<open>w &= ~f\<close>.\<close>

definition has :: "32 word \<Rightarrow> 32 word \<Rightarrow> bool" where
  "has f w \<longleftrightarrow> w AND f \<noteq> 0"

definition setf :: "32 word \<Rightarrow> 32 word \<Rightarrow> 32 word" where
  "setf f w = w OR f"

definition clearf :: "32 word \<Rightarrow> 32 word \<Rightarrow> 32 word" where
  "clearf f w = w AND NOT f"

record pipe_state =
  flags :: "32 word"
  buffer :: "byte list option"
  buffer_len :: nat
  buffer_cap :: nat
  stream_reader :: "32 word"
  stream_writer :: "32 word"

record pipe_half =
  is_reader :: bool
  blocking :: bool

text \<open>
  The operations of the host on unit streams. \<open>us_wait\<close> stands for waiting for the event of one end,
  and gives the code of the event. \<open>us_ends\<close> is what an observer sees of the two ends of a stream: an
  end is at rest, has an operation in flight, or one that completed without its event being taken;
  \<open>None\<close> when the two handles are not the ends of one stream.
\<close>

datatype end_state = At_rest | In_flight | Completed

record 'h unit_stream =
  us_new :: "'h \<Rightarrow> 64 word \<times> 'h"
  us_drop_readable :: "32 word \<Rightarrow> 'h \<Rightarrow> 'h"
  us_drop_writable :: "32 word \<Rightarrow> 'h \<Rightarrow> 'h"
  us_cancel_read :: "32 word \<Rightarrow> 'h \<Rightarrow> 32 word \<times> 'h"
  us_cancel_write :: "32 word \<Rightarrow> 'h \<Rightarrow> 32 word \<times> 'h"
  us_read :: "32 word \<Rightarrow> 'h \<Rightarrow> 32 word \<times> 'h"
  us_write :: "32 word \<Rightarrow> 'h \<Rightarrow> 32 word \<times> 'h"
  us_wait :: "32 word \<Rightarrow> 'h \<Rightarrow> 32 word \<times> 'h"
  us_ends :: "32 word \<Rightarrow> 32 word \<Rightarrow> 'h \<Rightarrow> (end_state \<times> end_state) option"

abbreviation (input) STATUS_BLOCKED :: "32 word" where "STATUS_BLOCKED \<equiv> -1"

definition waitable_state :: "32 word \<Rightarrow> 32 word" where
  "waitable_state status = status AND 0xf"

definition waitable_count :: "32 word \<Rightarrow> 32 word" where
  "waitable_count status = drop_bit 4 status"

abbreviation (input) COMPLETED :: "32 word" where "COMPLETED \<equiv> 0"
abbreviation (input) DROPPED :: "32 word" where "DROPPED \<equiv> 1"
abbreviation (input) CANCELLED :: "32 word" where "CANCELLED \<equiv> 2"

type_synonym ('a, 'h) pipe_op = "pipe_state \<times> 'h \<Rightarrow> ('a, pipe_state \<times> 'h) outcome"

definition pipe_state_free :: "'h unit_stream \<Rightarrow> (unit, 'h) pipe_op" where
  "pipe_state_free S = (\<lambda>(p, h).
     assertO (\<not> has PIPE_READER_ALIVE (flags p)) (assertO (\<not> has PIPE_WRITER_ALIVE (flags p))
       (let h = (if stream_reader p \<noteq> 0 then us_drop_readable S (stream_reader p) h else h);
            h = (if stream_writer p \<noteq> 0 then us_drop_writable S (stream_writer p) h else h) in
        Ret () (p\<lparr>buffer := None\<rparr>, h))))"

definition pipe_ensure_stream :: "'h unit_stream \<Rightarrow> (unit, 'h) pipe_op" where
  "pipe_ensure_stream S = (\<lambda>(p, h).
     if stream_reader p \<noteq> 0 then Ret () (p, h)
     else let (stream, h) = us_new S h;
              p = p\<lparr>stream_reader := ucast stream, stream_writer := ucast (drop_bit 32 stream)\<rparr> in
       assertO (stream_reader p \<noteq> 0) (assertO (stream_writer p \<noteq> 0) (Ret () (p, h))))"

definition pipe_unblock_writer :: "'h unit_stream \<Rightarrow> (unit, 'h) pipe_op" where
  "pipe_unblock_writer S = (\<lambda>(p, h).
     if \<not> has PIPE_WRITER_BLOCKED (flags p) then Ret () (p, h)
     else assertO (stream_writer p \<noteq> 0)
       (if has PIPE_WRITER_WOKEN (flags p) then Ret () (p, h)
        else let p = p\<lparr>flags := setf PIPE_WRITER_WOKEN (flags p)\<rparr>;
                 (status, h) = us_read S (stream_reader p) h in
          assertO (waitable_state status = COMPLETED) (assertO (waitable_count status = 1) (Ret () (p, h)))))"

definition pipe_unblock_reader :: "'h unit_stream \<Rightarrow> (unit, 'h) pipe_op" where
  "pipe_unblock_reader S = (\<lambda>(p, h).
     if \<not> has PIPE_READER_BLOCKED (flags p) then Ret () (p, h)
     else assertO (stream_reader p \<noteq> 0)
       (if has PIPE_READER_WOKEN (flags p) then Ret () (p, h)
        else let p = p\<lparr>flags := setf PIPE_READER_WOKEN (flags p)\<rparr>;
                 (status, h) = us_write S (stream_writer p) h in
          assertO (waitable_state status = COMPLETED) (assertO (waitable_count status = 1) (Ret () (p, h)))))"

definition pipe_block_enter :: "32 word \<Rightarrow> 32 word \<Rightarrow> (unit, 'h) pipe_op" where
  "pipe_block_enter blocked woken = (\<lambda>(p, h).
     if has blocked (flags p) then Err EOPNOTSUPP (p, h)
     else assertO (\<not> has woken (flags p)) (Ret () (p\<lparr>flags := setf blocked (flags p)\<rparr>, h)))"

definition pipe_block_exit :: "32 word \<Rightarrow> 32 word \<Rightarrow> (bool, 'h) pipe_op" where
  "pipe_block_exit blocked woken = (\<lambda>(p, h).
     let ret = has woken (flags p);
         p = p\<lparr>flags := clearf woken (flags p)\<rparr>;
         p = p\<lparr>flags := clearf blocked (flags p)\<rparr> in
     Ret ret (p, h))"

definition pipe_block_reader_enter :: "'h unit_stream \<Rightarrow> (unit, 'h) pipe_op" where
  "pipe_block_reader_enter S s =
     bindO (pipe_block_enter PIPE_READER_BLOCKED PIPE_READER_WOKEN s) (\<lambda>_ s.
     bindO (pipe_ensure_stream S s) (\<lambda>_ (p, h).
       let (status, h) = us_read S (stream_reader p) h in
       assertO (status = STATUS_BLOCKED) (Ret () (p, h))))"

definition pipe_block_reader_exit :: "'h unit_stream \<Rightarrow> (bool, 'h) pipe_op" where
  "pipe_block_reader_exit S s =
     bindO (pipe_block_exit PIPE_READER_BLOCKED PIPE_READER_WOKEN s) (\<lambda>woken (p, h).
       if woken then Ret woken (p, h)
       else let (status, h) = us_cancel_read S (stream_reader p) h in
         assertO (waitable_state status = CANCELLED) (assertO (waitable_count status = 0) (Ret woken (p, h))))"

definition pipe_block_writer_enter :: "'h unit_stream \<Rightarrow> (unit, 'h) pipe_op" where
  "pipe_block_writer_enter S s =
     bindO (pipe_block_enter PIPE_WRITER_BLOCKED PIPE_WRITER_WOKEN s) (\<lambda>_ s.
     bindO (pipe_ensure_stream S s) (\<lambda>_ (p, h).
       let (status, h) = us_write S (stream_writer p) h in
       assertO (status = STATUS_BLOCKED) (Ret () (p, h))))"

definition pipe_block_writer_exit :: "'h unit_stream \<Rightarrow> (bool, 'h) pipe_op" where
  "pipe_block_writer_exit S s =
     bindO (pipe_block_exit PIPE_WRITER_BLOCKED PIPE_WRITER_WOKEN s) (\<lambda>woken (p, h).
       if woken then Ret woken (p, h)
       else let (status, h) = us_cancel_write S (stream_writer p) h in
         assertO (waitable_state status = CANCELLED) (assertO (waitable_count status = 0) (Ret woken (p, h))))"

text \<open>
  \<open>pipe_block_thread\<close>, from the moment the event arrives: \<open>__wasilibc_stream_block_on\<close> takes
  the code of the event, whose count has to be 1 and whose state is not that of a dropped stream.
\<close>

definition pipe_block_thread :: "'h unit_stream \<Rightarrow> 32 word \<Rightarrow> (unit, 'h) pipe_op" where
  "pipe_block_thread S stream = (\<lambda>(p, h).
     let (status, h) = us_wait S stream h in
     assertO (waitable_state status = COMPLETED \<or> waitable_state status = DROPPED \<or> waitable_state status = CANCELLED)
       (assertO (waitable_count status = 1) (assertO (waitable_state status \<noteq> DROPPED) (Ret () (p, h)))))"

text \<open>\<open>pipe_free\<close> says whether the shared state was freed with the half.\<close>

definition pipe_free :: "'h unit_stream \<Rightarrow> pipe_half \<Rightarrow> (bool, 'h) pipe_op" where
  "pipe_free S pipe = (\<lambda>(p, h).
     let p = p\<lparr>flags := clearf (if is_reader pipe then PIPE_READER_ALIVE else PIPE_WRITER_ALIVE) (flags p)\<rparr> in
     if \<not> has (PIPE_READER_ALIVE OR PIPE_WRITER_ALIVE) (flags p)
     then bindO (pipe_state_free S (p, h)) (\<lambda>_ s. Ret True s)
     else if is_reader pipe then bindO (pipe_unblock_writer S (p, h)) (\<lambda>_ s. Ret False s)
     else bindO (pipe_unblock_reader S (p, h)) (\<lambda>_ s. Ret False s))"

definition pipe_fstat :: stat where
  "pipe_fstat = (let z = \<lparr>tv_sec = 0, tv_nsec = 0\<rparr> in
     \<lparr>st_dev = 0, st_ino = 0, st_nlink = 1, st_mode = S_IFIFO OR 0x180, st_size = 0, st_atim = z, st_mtim = z, st_ctim = z\<rparr>)"

definition pipe_fcntl_getfl :: "pipe_half \<Rightarrow> 32 word" where
  "pipe_fcntl_getfl pipe =
     (let ret = (if is_reader pipe then O_RDONLY else O_WRONLY) in
      if \<not> blocking pipe then ret OR O_NONBLOCK else ret)"

definition pipe_fcntl_setfl :: "32 word \<Rightarrow> pipe_half \<Rightarrow> pipe_half" where
  "pipe_fcntl_setfl fl pipe = pipe\<lparr>blocking := \<not> has O_NONBLOCK fl\<rparr>"

definition pipe_set_blocking :: "bool \<Rightarrow> pipe_half \<Rightarrow> pipe_half" where
  "pipe_set_blocking b pipe = pipe\<lparr>blocking := b\<rparr>"

subsection \<open>Reading and writing\<close>

datatype 'a progress = Returns 'a | Waits

text \<open>One round of the loop of \<open>pipe_recvfrom\<close>; the bytes are those stored into the caller's buffer.\<close>

definition pipe_recv_round :: "'h unit_stream \<Rightarrow> pipe_half \<Rightarrow> nat \<Rightarrow> (byte list progress, 'h) pipe_op" where
  "pipe_recv_round S pipe length' = (\<lambda>(p, h).
     if buffer_len p \<noteq> 0 then
       let amt = (if length' < buffer_len p then length' else buffer_len p);
           buf = the (buffer p);
           bytes = take amt buf;
           rest_len = buffer_len p - amt;
           p = p\<lparr>buffer := Some (take rest_len (drop amt buf) @ drop rest_len buf), buffer_len := rest_len\<rparr> in
       bindO (pipe_unblock_writer S (p, h)) (\<lambda>_ s. Ret (Returns bytes) s)
     else if \<not> has PIPE_WRITER_ALIVE (flags p) then Ret (Returns []) (p, h)
     else if \<not> blocking pipe then Err EWOULDBLOCK (p, h)
     else bindO (pipe_block_reader_enter S (p, h)) (\<lambda>_ s. Ret Waits s))"

text \<open>\<open>bad\<close>: some argument that belongs to sockets was given.\<close>

definition pipe_recvfrom :: "'h unit_stream \<Rightarrow> pipe_half \<Rightarrow> bool \<Rightarrow> nat \<Rightarrow> (byte list progress, 'h) pipe_op" where
  "pipe_recvfrom S pipe bad length' s =
     (if bad then Err EINVAL s
      else if \<not> is_reader pipe then Err EBADF s
      else if length' = 0 then Ret (Returns []) s
      else pipe_recv_round S pipe length' s)"

definition pipe_recv_resume :: "'h unit_stream \<Rightarrow> pipe_half \<Rightarrow> nat \<Rightarrow> (byte list progress, 'h) pipe_op" where
  "pipe_recv_resume S pipe length' = (\<lambda>(p, h).
     bindO (pipe_block_thread S (stream_reader p) (p, h)) (\<lambda>_ s.
     bindO (pipe_block_reader_exit S s) (\<lambda>_ s. pipe_recv_round S pipe length' s)))"

text \<open>One round of the loop of \<open>pipe_sendto\<close>, which returns the number of bytes taken.\<close>

definition pipe_send_round :: "'h unit_stream \<Rightarrow> pipe_half \<Rightarrow> byte list \<Rightarrow> (nat progress, 'h) pipe_op" where
  "pipe_send_round S pipe bytes = (\<lambda>(p, h).
     if \<not> has PIPE_READER_ALIVE (flags p) then Err EPIPE (p, h)
     else let remaining = buffer_cap p - buffer_len p;
              atomic = (length bytes \<le> PIPE_BUF) in
       if 0 < remaining \<and> (\<not> atomic \<or> length bytes \<le> remaining) then
         let amt = (if length bytes < remaining then length bytes else remaining);
             buf = the (buffer p);
             p = p\<lparr>buffer := Some (take (buffer_len p) buf @ take amt bytes @ drop (buffer_len p + amt) buf),
                   buffer_len := buffer_len p + amt\<rparr> in
         bindO (pipe_unblock_reader S (p, h)) (\<lambda>_ s. Ret (Returns amt) s)
       else if \<not> blocking pipe then Err EWOULDBLOCK (p, h)
       else bindO (pipe_block_writer_enter S (p, h)) (\<lambda>_ s. Ret Waits s))"

text \<open>\<open>block\<close> is what \<open>malloc(PIPE_BUF)\<close> returns: a block of that many bytes, or nothing.\<close>

definition pipe_sendto :: "'h unit_stream \<Rightarrow> pipe_half \<Rightarrow> bool \<Rightarrow> byte list option \<Rightarrow> byte list \<Rightarrow> (nat progress, 'h) pipe_op" where
  "pipe_sendto S pipe bad block bytes = (\<lambda>(p, h).
     if bad then Err EINVAL (p, h)
     else if is_reader pipe then Err EBADF (p, h)
     else if bytes = [] then Ret (Returns 0) (p, h)
     else if buffer p = None then
       let p = p\<lparr>buffer_cap := PIPE_BUF, buffer := block\<rparr> in
       if block = None then Err ENOMEM (p, h) else pipe_send_round S pipe bytes (p, h)
     else pipe_send_round S pipe bytes (p, h))"

definition pipe_send_resume :: "'h unit_stream \<Rightarrow> pipe_half \<Rightarrow> byte list \<Rightarrow> (nat progress, 'h) pipe_op" where
  "pipe_send_resume S pipe bytes = (\<lambda>(p, h).
     bindO (pipe_block_thread S (stream_writer p) (p, h)) (\<lambda>_ s.
     bindO (pipe_block_writer_exit S s) (\<lambda>_ s. pipe_send_round S pipe bytes s)))"

subsection \<open>Polling\<close>

text \<open>
  An event of the host is the waitable and the code; its kind is that of the end that waits.
  \<open>pipe_read_ready\<close> and \<open>pipe_write_ready\<close>: without an event the poll ended for another reason. The
  result is whether \<open>__wasilibc_poll_ready\<close> is called.
\<close>

definition pipe_read_ready :: "'h unit_stream \<Rightarrow> (32 word \<times> 32 word) option \<Rightarrow> (bool, 'h) pipe_op" where
  "pipe_read_ready S event s =
     bindO (pipe_block_reader_exit S s) (\<lambda>woken (p, h).
       case event of
         None \<Rightarrow> Ret False (p, h)
       | Some (waitable, code) \<Rightarrow>
           assertO woken (assertO (waitable = stream_reader p) (assertO (waitable_state code = COMPLETED)
             (assertO (waitable_count code = 1) (Ret True (p, h))))))"

definition pipe_write_ready :: "'h unit_stream \<Rightarrow> (32 word \<times> 32 word) option \<Rightarrow> (bool, 'h) pipe_op" where
  "pipe_write_ready S event s =
     bindO (pipe_block_writer_exit S s) (\<lambda>woken (p, h).
       case event of
         None \<Rightarrow> Ret False (p, h)
       | Some (waitable, code) \<Rightarrow>
           assertO woken (assertO (waitable = stream_writer p) (assertO (waitable_state code = COMPLETED)
             (assertO (waitable_count code = 1) (Ret True (p, h))))))"

abbreviation (input) POLLRDNORM :: "32 word" where "POLLRDNORM \<equiv> 1"
abbreviation (input) POLLWRNORM :: "32 word" where "POLLWRNORM \<equiv> 2"

text \<open>
  \<open>pipe_poll_register\<close>: \<open>Returns True\<close> when the pipe is ready at once, \<open>Returns False\<close> when nothing was
  asked of this half, \<open>Waits\<close> when it was added to the poll; \<open>room\<close> is whether \<open>__wasilibc_poll_add\<close>
  finds room.
\<close>

definition pipe_poll_register :: "'h unit_stream \<Rightarrow> pipe_half \<Rightarrow> bool \<Rightarrow> 32 word \<Rightarrow> (bool progress, 'h) pipe_op" where
  "pipe_poll_register S pipe room events = (\<lambda>(p, h).
     if has POLLRDNORM events \<and> is_reader pipe then
       if buffer_len p \<noteq> 0 \<or> \<not> has PIPE_WRITER_ALIVE (flags p) then Ret (Returns True) (p, h)
       else bindO (pipe_block_reader_enter S (p, h)) (\<lambda>_ s.
         if room then Ret Waits s else bindO (pipe_block_reader_exit S s) (\<lambda>_ s. Err ENOMEM s))
     else if has POLLWRNORM events \<and> \<not> is_reader pipe then
       if buffer_cap p = 0 \<or> buffer_len p < buffer_cap p \<or> \<not> has PIPE_READER_ALIVE (flags p) then Ret (Returns True) (p, h)
       else bindO (pipe_block_writer_enter S (p, h)) (\<lambda>_ s.
         if room then Ret Waits s else bindO (pipe_block_writer_exit S s) (\<lambda>_ s. Err ENOMEM s))
     else Ret (Returns False) (p, h))"

subsection \<open>Creation\<close>

text \<open>The memory of the pipes: the halves by their data pointers, the shared states by their addresses.\<close>

record 'h pipe_world =
  pw_half :: "data_ptr \<Rightarrow> (pipe_half \<times> nat) option"
  pw_state :: "nat \<Rightarrow> pipe_state option"
  pw_host :: 'h

definition pipe_init :: pipe_state where
  "pipe_init = \<lparr>flags = setf PIPE_WRITER_ALIVE (setf PIPE_READER_ALIVE 0), buffer = None, buffer_len = 0, buffer_cap = 0,
     stream_reader = 0, stream_writer = 0\<rparr>"

text \<open>The destructor in the table of pipes; a failed assertion leaves the memory as it is.\<close>

definition pipe_vt_free :: "'h unit_stream \<Rightarrow> data_ptr \<Rightarrow> 'h pipe_world \<Rightarrow> 'h pipe_world" where
  "pipe_vt_free S d w =
     (case pw_half w d of
        None \<Rightarrow> w
      | Some (pipe, a) \<Rightarrow>
          (case pw_state w a of
             None \<Rightarrow> w
           | Some p \<Rightarrow>
               (case pipe_free S pipe (p, pw_host w) of
                  Ret freed (p', h) \<Rightarrow>
                    w\<lparr>pw_half := (pw_half w)(d := None),
                      pw_state := (pw_state w)(a := if freed then None else Some p'), pw_host := h\<rparr>
                | _ \<Rightarrow> w)))"

text \<open>\<open>pipe2\<close>; the three allocations are arguments. \<open>O_CLOEXEC\<close> is 0.\<close>

definition pipe2 :: "'h pipe_world dt_env \<Rightarrow> data_ptr option \<Rightarrow> data_ptr option \<Rightarrow> nat option \<Rightarrow> 32 word \<Rightarrow>
    'h pipe_world dt_state \<Rightarrow> (nat \<times> nat, 'h pipe_world dt_state) outcome" where
  "pipe2 env ralloc walloc salloc fl s =
     (if fl AND NOT (0 OR O_NONBLOCK) \<noteq> 0 then Err EINVAL s
      else if version env \<noteq> P3 then Err ENOTSUP s
      else case (ralloc, walloc, salloc) of
        (Some rd, Some wr, Some a) \<Rightarrow>
          let b = (\<not> has O_NONBLOCK fl);
              w = world s;
              w = w\<lparr>pw_state := (pw_state w)(a \<mapsto> pipe_init),
                    pw_half := (pw_half w)(rd \<mapsto> (\<lparr>is_reader = True, blocking = b\<rparr>, a),
                                           wr \<mapsto> (\<lparr>is_reader = False, blocking = b\<rparr>, a))\<rparr>;
              s = s\<lparr>world := w\<rparr> in
          bindO (on_err (bindO (descriptor_table_insert env \<lparr>e_data = rd, e_vtable = Pipe_vtable\<rparr> s) (\<lambda>n s. Ret (Inr n) s))
                   (\<lambda>e s. Ret (Inl e) s)) (\<lambda>rfd s.
          bindO (on_err (bindO (descriptor_table_insert env \<lparr>e_data = wr, e_vtable = Pipe_vtable\<rparr> s) (\<lambda>n s. Ret (Inr n) s))
                   (\<lambda>e s. Ret (Inl e) s)) (\<lambda>wfd s.
            case (rfd, wfd) of
              (Inr r, Inr w) \<Rightarrow> Ret (r, w) s
            | (Inr r, Inl e) \<Rightarrow>
                bindO (on_err (descriptor_table_remove env (int r) s) (\<lambda>_ s. Ret () s)) (\<lambda>_ s. Err e s)
            | (Inl e, Inr w) \<Rightarrow>
                bindO (on_err (descriptor_table_remove env (int w) s) (\<lambda>_ s. Ret () s)) (\<lambda>_ s. Err e s)
            | (Inl _, Inl e) \<Rightarrow> Err e s))
      | _ \<Rightarrow> Err ENOMEM s)"

definition pipe_default :: "'h pipe_world dt_env \<Rightarrow> data_ptr option \<Rightarrow> data_ptr option \<Rightarrow> nat option \<Rightarrow>
    'h pipe_world dt_state \<Rightarrow> (nat \<times> nat, 'h pipe_world dt_state) outcome" where
  "pipe_default env ralloc walloc salloc s = pipe2 env ralloc walloc salloc 0 s"

section \<open>The stream\<close>

text \<open>
  What the component model documents: an operation on an end at rest meets the one in flight at the
  other end, if there is one, and both complete with one item; otherwise it is in flight itself. An
  operation in flight can be cancelled, and the event of a completed one can be taken.
\<close>

definition stream_laws :: "'h unit_stream \<Rightarrow> bool" where
  "stream_laws S \<longleftrightarrow>
     (\<forall>h v h'. us_new S h = (v, h') \<longrightarrow> ucast v \<noteq> (0 :: 32 word) \<and> ucast (drop_bit 32 v) \<noteq> (0 :: 32 word) \<and>
        us_ends S (ucast v) (ucast (drop_bit 32 v)) h' = Some (At_rest, At_rest)) \<and>
     (\<forall>r w h re we. us_ends S r w h = Some (re, we) \<longrightarrow>
        (re = At_rest \<longrightarrow> (\<exists>h'. us_read S r h = (if we = In_flight then 16 else STATUS_BLOCKED, h') \<and>
           us_ends S r w h' = Some (if we = In_flight then (At_rest, Completed) else (In_flight, we)))) \<and>
        (we = At_rest \<longrightarrow> (\<exists>h'. us_write S w h = (if re = In_flight then 16 else STATUS_BLOCKED, h') \<and>
           us_ends S r w h' = Some (if re = In_flight then (Completed, At_rest) else (re, In_flight)))) \<and>
        (re = In_flight \<longrightarrow> (\<exists>h'. us_cancel_read S r h = (CANCELLED, h') \<and> us_ends S r w h' = Some (At_rest, we))) \<and>
        (we = In_flight \<longrightarrow> (\<exists>h'. us_cancel_write S w h = (CANCELLED, h') \<and> us_ends S r w h' = Some (re, At_rest))) \<and>
        (re = Completed \<longrightarrow> (\<exists>h'. us_wait S r h = (16, h') \<and> us_ends S r w h' = Some (At_rest, we))) \<and>
        (we = Completed \<longrightarrow> (\<exists>h'. us_wait S w h = (16, h') \<and> us_ends S r w h' = Some (re, At_rest))))"

lemma stream_newD:
  assumes "stream_laws S"
  obtains v h' where "us_new S h = (v, h')" "ucast v \<noteq> (0 :: 32 word)" "ucast (drop_bit 32 v) \<noteq> (0 :: 32 word)"
    "us_ends S (ucast v) (ucast (drop_bit 32 v)) h' = Some (At_rest, At_rest)"
proof -
  obtain v h' where "us_new S h = (v, h')" by fastforce
  with assms that show thesis unfolding stream_laws_def by blast
qed

lemma stream_endsD:
  assumes "stream_laws S" "us_ends S r w h = Some (re, we)"
  shows "re = At_rest \<Longrightarrow> \<exists>h'. us_read S r h = (if we = In_flight then 16 else STATUS_BLOCKED, h') \<and>
           us_ends S r w h' = Some (if we = In_flight then (At_rest, Completed) else (In_flight, we))"
    "we = At_rest \<Longrightarrow> \<exists>h'. us_write S w h = (if re = In_flight then 16 else STATUS_BLOCKED, h') \<and>
           us_ends S r w h' = Some (if re = In_flight then (Completed, At_rest) else (re, In_flight))"
    "re = In_flight \<Longrightarrow> \<exists>h'. us_cancel_read S r h = (CANCELLED, h') \<and> us_ends S r w h' = Some (At_rest, we)"
    "we = In_flight \<Longrightarrow> \<exists>h'. us_cancel_write S w h = (CANCELLED, h') \<and> us_ends S r w h' = Some (re, At_rest)"
    "re = Completed \<Longrightarrow> \<exists>h'. us_wait S r h = (16, h') \<and> us_ends S r w h' = Some (At_rest, we)"
    "we = Completed \<Longrightarrow> \<exists>h'. us_wait S w h = (16, h') \<and> us_ends S r w h' = Some (re, At_rest)"
  using assms unfolding stream_laws_def by blast+

lemma status_values [simp]: "waitable_state 16 = 0" "waitable_count 16 = 1" "waitable_state 2 = 2" "waitable_count 2 = 0"
  by (simp_all add: waitable_state_def waitable_count_def drop_bit_eq_div)

section \<open>The flags and the ends of the stream\<close>

lemma has_set [simp]: "a AND b = 0 \<Longrightarrow> has b (setf a w) = has b w"
  by (simp add: has_def setf_def bit.conj_disj_distrib2)

lemma has_set_same [simp]: "a \<noteq> 0 \<Longrightarrow> has a (setf a w)"
  by (simp add: has_def setf_def)

lemma has_clear [simp]:
  assumes "a AND b = 0"
  shows "has b (clearf a w) = has b w"
proof -
  have "b = (a OR NOT a) AND b" by simp
  also have "\<dots> = (a AND b) OR (NOT a AND b)" by (simp only: bit.conj_disj_distrib2)
  also have "\<dots> = NOT a AND b" using assms by simp
  finally have "NOT a AND b = b" by simp
  then show ?thesis by (simp add: has_def clearf_def and.assoc)
qed

lemma has_clear_same [simp]: "\<not> has a (clearf a w)"
  by (simp add: has_def clearf_def and.assoc)

lemma has_or: "has (a OR b) w = (has a w \<or> has b w)"
  unfolding has_def bit.conj_disj_distrib by (simp add: or_eq_0_iff)

lemma has_zero [simp]: "\<not> has f 0"
  by (simp add: has_def)

abbreviation r_alive :: "pipe_state \<Rightarrow> bool" where "r_alive p \<equiv> has PIPE_READER_ALIVE (flags p)"
abbreviation w_alive :: "pipe_state \<Rightarrow> bool" where "w_alive p \<equiv> has PIPE_WRITER_ALIVE (flags p)"
abbreviation r_blocked :: "pipe_state \<Rightarrow> bool" where "r_blocked p \<equiv> has PIPE_READER_BLOCKED (flags p)"
abbreviation w_blocked :: "pipe_state \<Rightarrow> bool" where "w_blocked p \<equiv> has PIPE_WRITER_BLOCKED (flags p)"
abbreviation r_woken :: "pipe_state \<Rightarrow> bool" where "r_woken p \<equiv> has PIPE_READER_WOKEN (flags p)"
abbreviation w_woken :: "pipe_state \<Rightarrow> bool" where "w_woken p \<equiv> has PIPE_WRITER_WOKEN (flags p)"

text \<open>The end a half waits at, by its two flags.\<close>

definition end_of :: "bool \<Rightarrow> bool \<Rightarrow> end_state" where
  "end_of blocked woken = (if \<not> blocked then At_rest else if woken then Completed else In_flight)"

text \<open>The flags agree with the stream.\<close>

definition ends_ok :: "'h unit_stream \<Rightarrow> pipe_state \<Rightarrow> 'h \<Rightarrow> bool" where
  "ends_ok S p h \<longleftrightarrow> (r_woken p \<longrightarrow> r_blocked p) \<and> (w_woken p \<longrightarrow> w_blocked p) \<and>
     (if stream_reader p = 0 then stream_writer p = 0 \<and> \<not> r_blocked p \<and> \<not> w_blocked p
      else stream_writer p \<noteq> 0 \<and>
        us_ends S (stream_reader p) (stream_writer p) h =
          Some (end_of (r_blocked p) (r_woken p), end_of (w_blocked p) (w_woken p)))"

text \<open>States with the same buffer and the same halves alive.\<close>

definition same_data :: "pipe_state \<Rightarrow> pipe_state \<Rightarrow> bool" where
  "same_data p p' \<longleftrightarrow> buffer p' = buffer p \<and> buffer_len p' = buffer_len p \<and> buffer_cap p' = buffer_cap p \<and>
     r_alive p' = r_alive p \<and> w_alive p' = w_alive p"

lemma unblock_writer_holds:
  assumes "stream_laws S" "ends_ok S p h" "\<not> r_blocked p"
  shows "holds (pipe_unblock_writer S (p, h))
    (\<lambda>_ (p', h'). ends_ok S p' h' \<and> same_data p p' \<and> r_blocked p' = r_blocked p \<and> r_woken p' = r_woken p \<and>
       w_blocked p' = w_blocked p \<and> w_woken p' = w_blocked p) (\<lambda>_ _. False)"
proof (cases "w_blocked p \<and> \<not> w_woken p")
  case False
  with assms(2) show ?thesis
    by (auto simp: pipe_unblock_writer_def ends_ok_def same_data_def holds_assert split: if_splits)
next
  case True
  with assms(2,3) have e: "us_ends S (stream_reader p) (stream_writer p) h = Some (At_rest, In_flight)"
    "stream_reader p \<noteq> 0" "stream_writer p \<noteq> 0" by (auto simp: ends_ok_def end_of_def split: if_splits)
  from stream_endsD(1) [OF assms(1) e(1)] obtain h' where "us_read S (stream_reader p) h = (16, h')"
    "us_ends S (stream_reader p) (stream_writer p) h' = Some (At_rest, Completed)" by auto
  with True e assms(2,3) show ?thesis
    by (auto simp: pipe_unblock_writer_def ends_ok_def same_data_def end_of_def holds_assert)
qed

lemma unblock_reader_holds:
  assumes "stream_laws S" "ends_ok S p h" "\<not> w_blocked p"
  shows "holds (pipe_unblock_reader S (p, h))
    (\<lambda>_ (p', h'). ends_ok S p' h' \<and> same_data p p' \<and> r_blocked p' = r_blocked p \<and> r_woken p' = r_blocked p \<and>
       w_blocked p' = w_blocked p \<and> w_woken p' = w_woken p) (\<lambda>_ _. False)"
proof (cases "r_blocked p \<and> \<not> r_woken p")
  case False
  with assms(2) show ?thesis
    by (auto simp: pipe_unblock_reader_def ends_ok_def same_data_def holds_assert split: if_splits)
next
  case True
  with assms(2,3) have e: "us_ends S (stream_reader p) (stream_writer p) h = Some (In_flight, At_rest)"
    "stream_reader p \<noteq> 0" "stream_writer p \<noteq> 0" by (auto simp: ends_ok_def end_of_def split: if_splits)
  from stream_endsD(2) [OF assms(1) e(1)] obtain h' where "us_write S (stream_writer p) h = (16, h')"
    "us_ends S (stream_reader p) (stream_writer p) h' = Some (Completed, At_rest)" by auto
  with True e assms(2,3) show ?thesis
    by (auto simp: pipe_unblock_reader_def ends_ok_def same_data_def end_of_def holds_assert)
qed

lemma ensure_stream_holds:
  assumes "stream_laws S" "stream_reader p = 0 \<Longrightarrow> stream_writer p = 0"
    "stream_reader p \<noteq> 0 \<Longrightarrow> stream_writer p \<noteq> 0 \<and> us_ends S (stream_reader p) (stream_writer p) h = Some (re, we)"
    "stream_reader p = 0 \<Longrightarrow> re = At_rest \<and> we = At_rest"
  shows "holds (pipe_ensure_stream S (p, h))
    (\<lambda>_ (p', h'). same_data p p' \<and> flags p' = flags p \<and> stream_reader p' \<noteq> 0 \<and> stream_writer p' \<noteq> 0 \<and>
       us_ends S (stream_reader p') (stream_writer p') h' = Some (re, we)) (\<lambda>_ _. False)"
proof (cases "stream_reader p = 0")
  case False
  with assms(3) show ?thesis by (simp add: pipe_ensure_stream_def same_data_def)
next
  case True
  obtain v h' where "us_new S h = (v, h')" "ucast v \<noteq> (0 :: 32 word)" "ucast (drop_bit 32 v) \<noteq> (0 :: 32 word)"
    "us_ends S (ucast v) (ucast (drop_bit 32 v)) h' = Some (At_rest, At_rest)" by (rule stream_newD [OF assms(1)])
  with True assms(4) show ?thesis by (simp add: pipe_ensure_stream_def same_data_def holds_assert)
qed

lemma reader_enter_holds:
  assumes "stream_laws S" "ends_ok S p h" "\<not> r_blocked p" "w_blocked p \<Longrightarrow> w_woken p"
  shows "holds (pipe_block_reader_enter S (p, h))
    (\<lambda>_ (p', h'). ends_ok S p' h' \<and> same_data p p' \<and> r_blocked p' \<and> \<not> r_woken p' \<and>
       w_blocked p' = w_blocked p \<and> w_woken p' = w_woken p) (\<lambda>_ _. False)"
proof -
  let ?p = "p\<lparr>flags := setf PIPE_READER_BLOCKED (flags p)\<rparr>" and ?we = "end_of (w_blocked p) (w_woken p)"
  have enter: "pipe_block_enter PIPE_READER_BLOCKED PIPE_READER_WOKEN (p, h) = Ret () (?p, h)"
    using assms(2,3) by (auto simp: pipe_block_enter_def ends_ok_def)
  have we: "?we \<noteq> In_flight" using assms(4) by (simp add: end_of_def)
  have "holds (pipe_ensure_stream S (?p, h))
    (\<lambda>_ (p', h'). same_data ?p p' \<and> flags p' = flags ?p \<and> stream_reader p' \<noteq> 0 \<and> stream_writer p' \<noteq> 0 \<and>
       us_ends S (stream_reader p') (stream_writer p') h' = Some (At_rest, ?we)) (\<lambda>_ _. False)"
    using assms(2,3) by (intro ensure_stream_holds [OF assms(1)]) (auto simp: ends_ok_def end_of_def)
  then show ?thesis
    unfolding pipe_block_reader_enter_def enter bindO.simps
  proof (rule holds_bind, goal_cases)
    case (1 u t)
    obtain p' h' where t: "t = (p', h')" by fastforce
    with 1 have p': "same_data ?p p'" "flags p' = flags ?p" "stream_reader p' \<noteq> 0" "stream_writer p' \<noteq> 0"
      "us_ends S (stream_reader p') (stream_writer p') h' = Some (At_rest, ?we)" by auto
    from stream_endsD(1) [OF assms(1) p'(5)] we obtain h'' where
      "us_read S (stream_reader p') h' = (STATUS_BLOCKED, h'')"
      "us_ends S (stream_reader p') (stream_writer p') h'' = Some (In_flight, ?we)" by auto
    with p' assms(2,3) show ?case
      by (auto simp: t holds_assert ends_ok_def end_of_def same_data_def)
  qed simp
qed

lemma writer_enter_holds:
  assumes "stream_laws S" "ends_ok S p h" "\<not> w_blocked p" "r_blocked p \<Longrightarrow> r_woken p"
  shows "holds (pipe_block_writer_enter S (p, h))
    (\<lambda>_ (p', h'). ends_ok S p' h' \<and> same_data p p' \<and> w_blocked p' \<and> \<not> w_woken p' \<and>
       r_blocked p' = r_blocked p \<and> r_woken p' = r_woken p) (\<lambda>_ _. False)"
proof -
  let ?p = "p\<lparr>flags := setf PIPE_WRITER_BLOCKED (flags p)\<rparr>" and ?re = "end_of (r_blocked p) (r_woken p)"
  have enter: "pipe_block_enter PIPE_WRITER_BLOCKED PIPE_WRITER_WOKEN (p, h) = Ret () (?p, h)"
    using assms(2,3) by (auto simp: pipe_block_enter_def ends_ok_def)
  have re: "?re \<noteq> In_flight" using assms(4) by (simp add: end_of_def)
  have "holds (pipe_ensure_stream S (?p, h))
    (\<lambda>_ (p', h'). same_data ?p p' \<and> flags p' = flags ?p \<and> stream_reader p' \<noteq> 0 \<and> stream_writer p' \<noteq> 0 \<and>
       us_ends S (stream_reader p') (stream_writer p') h' = Some (?re, At_rest)) (\<lambda>_ _. False)"
    using assms(2,3) by (intro ensure_stream_holds [OF assms(1)]) (auto simp: ends_ok_def end_of_def)
  then show ?thesis
    unfolding pipe_block_writer_enter_def enter bindO.simps
  proof (rule holds_bind, goal_cases)
    case (1 u t)
    obtain p' h' where t: "t = (p', h')" by fastforce
    with 1 have p': "same_data ?p p'" "flags p' = flags ?p" "stream_reader p' \<noteq> 0" "stream_writer p' \<noteq> 0"
      "us_ends S (stream_reader p') (stream_writer p') h' = Some (?re, At_rest)" by auto
    from stream_endsD(2) [OF assms(1) p'(5)] re obtain h'' where
      "us_write S (stream_writer p') h' = (STATUS_BLOCKED, h'')"
      "us_ends S (stream_reader p') (stream_writer p') h'' = Some (?re, In_flight)" by auto
    with p' assms(2,3) show ?case
      by (auto simp: t holds_assert ends_ok_def end_of_def same_data_def)
  qed simp
qed

lemma reader_exit_holds:
  assumes "stream_laws S" "r_blocked p" "stream_reader p \<noteq> 0" "stream_writer p \<noteq> 0" "w_woken p \<longrightarrow> w_blocked p"
    "us_ends S (stream_reader p) (stream_writer p) h =
       Some (if r_woken p then At_rest else In_flight, end_of (w_blocked p) (w_woken p))"
  shows "holds (pipe_block_reader_exit S (p, h))
    (\<lambda>w (p', h'). w = r_woken p \<and> ends_ok S p' h' \<and> same_data p p' \<and> \<not> r_blocked p' \<and> stream_reader p' = stream_reader p \<and>
       w_blocked p' = w_blocked p \<and> w_woken p' = w_woken p) (\<lambda>_ _. False)"
proof (cases "r_woken p")
  case True
  with assms show ?thesis
    by (simp add: pipe_block_reader_exit_def pipe_block_exit_def ends_ok_def same_data_def end_of_def)
next
  case False
  with assms(6) have "us_ends S (stream_reader p) (stream_writer p) h = Some (In_flight, end_of (w_blocked p) (w_woken p))" by simp
  from stream_endsD(3) [OF assms(1) this] obtain h' where "us_cancel_read S (stream_reader p) h = (CANCELLED, h')"
    "us_ends S (stream_reader p) (stream_writer p) h' = Some (At_rest, end_of (w_blocked p) (w_woken p))" by auto
  with False assms show ?thesis
    by (simp add: pipe_block_reader_exit_def pipe_block_exit_def ends_ok_def same_data_def end_of_def holds_assert)
qed

lemma writer_exit_holds:
  assumes "stream_laws S" "w_blocked p" "stream_reader p \<noteq> 0" "stream_writer p \<noteq> 0" "r_woken p \<longrightarrow> r_blocked p"
    "us_ends S (stream_reader p) (stream_writer p) h =
       Some (end_of (r_blocked p) (r_woken p), if w_woken p then At_rest else In_flight)"
  shows "holds (pipe_block_writer_exit S (p, h))
    (\<lambda>w (p', h'). w = w_woken p \<and> ends_ok S p' h' \<and> same_data p p' \<and> \<not> w_blocked p' \<and> stream_writer p' = stream_writer p \<and>
       r_blocked p' = r_blocked p \<and> r_woken p' = r_woken p) (\<lambda>_ _. False)"
proof (cases "w_woken p")
  case True
  with assms show ?thesis
    by (simp add: pipe_block_writer_exit_def pipe_block_exit_def ends_ok_def same_data_def end_of_def)
next
  case False
  with assms(6) have "us_ends S (stream_reader p) (stream_writer p) h = Some (end_of (r_blocked p) (r_woken p), In_flight)" by simp
  from stream_endsD(4) [OF assms(1) this] obtain h' where "us_cancel_write S (stream_writer p) h = (CANCELLED, h')"
    "us_ends S (stream_reader p) (stream_writer p) h' = Some (end_of (r_blocked p) (r_woken p), At_rest)" by auto
  with False assms show ?thesis
    by (simp add: pipe_block_writer_exit_def pipe_block_exit_def ends_ok_def same_data_def end_of_def holds_assert)
qed

section \<open>The invariant of a pipe\<close>

definition buf_ok :: "pipe_state \<Rightarrow> bool" where
  "buf_ok p \<longleftrightarrow> (buffer_cap p = 0 \<or> buffer_cap p = PIPE_BUF) \<and>
     (case buffer p of
        None \<Rightarrow> buffer_len p = 0
      | Some b \<Rightarrow> length b = PIPE_BUF \<and> buffer_cap p = PIPE_BUF \<and> buffer_len p \<le> PIPE_BUF)"

text \<open>The bytes in the pipe.\<close>

definition data :: "pipe_state \<Rightarrow> byte list" where
  "data p = (case buffer p of None \<Rightarrow> [] | Some b \<Rightarrow> take (buffer_len p) b)"

text \<open>
  A reader that sleeps and was not woken has nothing to read and a writer to wait for; a writer that
  sleeps and was not woken has a reader to wait for that will find something to read; a reader that was
  woken will not have to sleep again, and a writer that was woken finds room, or no reader.
\<close>

definition pipe_ok :: "'h unit_stream \<Rightarrow> pipe_state \<times> 'h \<Rightarrow> bool" where
  "pipe_ok S = (\<lambda>(p, h). ends_ok S p h \<and> buf_ok p \<and>
     (r_blocked p \<and> \<not> r_woken p \<longrightarrow> data p = [] \<and> w_alive p) \<and>
     (w_blocked p \<and> \<not> w_woken p \<longrightarrow> data p \<noteq> [] \<and> r_alive p) \<and>
     (r_blocked p \<and> r_woken p \<longrightarrow> data p \<noteq> [] \<or> \<not> w_alive p) \<and>
     (w_blocked p \<and> w_woken p \<longrightarrow> length (data p) < PIPE_BUF \<or> \<not> r_alive p))"

lemma same_data_eq: "same_data p p' \<Longrightarrow> data p' = data p \<and> buf_ok p' = buf_ok p"
  by (cases "buffer p") (simp_all add: same_data_def data_def buf_ok_def)

lemma data_len: "buf_ok p \<Longrightarrow> length (data p) = buffer_len p"
  by (auto simp: buf_ok_def data_def split: option.splits)

lemma data_empty: "buf_ok p \<Longrightarrow> (data p = []) = (buffer_len p = 0)"
  using data_len [of p] by (metis length_0_conv)

lemma recv_round_holds:
  assumes "stream_laws S" "pipe_ok S (p, h)" "\<not> r_blocked p" "0 < n"
  shows "holds (pipe_recv_round S pipe n (p, h))
    (\<lambda>r (p', h'). pipe_ok S (p', h') \<and> r_alive p' = r_alive p \<and> w_alive p' = w_alive p \<and> w_blocked p' = w_blocked p \<and>
       (buffer p' = None) = (buffer p = None) \<and>
       (case r of
          Returns bs \<Rightarrow> \<not> r_blocked p' \<and> data p = bs @ data p' \<and> length bs \<le> n \<and> (bs = [] \<longrightarrow> data p = [] \<and> \<not> w_alive p)
        | Waits \<Rightarrow> r_blocked p' \<and> data p = [] \<and> data p' = [] \<and> w_alive p))
    (\<lambda>e s'. e = EWOULDBLOCK \<and> s' = (p, h) \<and> \<not> blocking pipe \<and> data p = [] \<and> w_alive p)"
proof (cases "buffer_len p = 0")
  case True
  have ok: "buf_ok p" using assms(2) by (simp add: pipe_ok_def)
  then have d: "data p = []" using True by (simp add: data_empty)
  have enter: "holds (pipe_block_reader_enter S (p, h))
    (\<lambda>_ (p', h'). ends_ok S p' h' \<and> same_data p p' \<and> r_blocked p' \<and> \<not> r_woken p' \<and>
       w_blocked p' = w_blocked p \<and> w_woken p' = w_woken p) (\<lambda>_ _. False)"
    by (rule reader_enter_holds) (use assms d in \<open>auto simp: pipe_ok_def\<close>)
  have "holds (bindO (pipe_block_reader_enter S (p, h)) (\<lambda>_ s. Ret Waits s))
    (\<lambda>r (p', h'). pipe_ok S (p', h') \<and> r_alive p' = r_alive p \<and> w_alive p' = w_alive p \<and> w_blocked p' = w_blocked p \<and>
       (buffer p' = None) = (buffer p = None) \<and> r = Waits \<and> r_blocked p' \<and> data p' = []) (\<lambda>_ _. False)" if "w_alive p"
  proof (rule holds_bind [OF enter], goal_cases)
    case (1 u t)
    obtain p' h' where t: "t = (p', h')" by fastforce
    with 1 have sd: "same_data p p'" by simp
    from same_data_eq [OF sd] sd have "data p' = []" "buf_ok p'" "buffer p' = buffer p" "r_alive p' = r_alive p"
      "w_alive p' = w_alive p" using d ok by (simp_all add: same_data_def)
    with 1 that assms(2) d show ?case by (simp add: t pipe_ok_def)
  qed simp
  note sleeps = this
  show ?thesis
  proof (cases "w_alive p \<and> blocking pipe")
    case wait: True
    then have eq: "pipe_recv_round S pipe n (p, h) = bindO (pipe_block_reader_enter S (p, h)) (\<lambda>_ s. Ret Waits s)"
      using True by (simp add: pipe_recv_round_def)
    from wait d show ?thesis unfolding eq by (intro holds_mono [OF sleeps]) auto
  next
    case False
    with assms(2,3) True d show ?thesis by (auto simp: pipe_recv_round_def)
  qed
next
  case False
  with assms(2) obtain b where b: "buffer p = Some b" "length b = PIPE_BUF" "buffer_len p \<le> PIPE_BUF" "buffer_cap p = PIPE_BUF"
    by (auto simp: pipe_ok_def buf_ok_def split: option.splits)
  define amt where "amt = (if n < buffer_len p then n else buffer_len p)"
  let ?k = "buffer_len p - amt"
  let ?p = "p\<lparr>buffer := Some (take ?k (drop amt b) @ drop ?k b), buffer_len := ?k\<rparr>"
  have amt: "amt \<le> buffer_len p" "0 < amt" "amt \<le> n" using False assms(4) by (auto simp: amt_def)
  have len: "length (take ?k (drop amt b)) = ?k" using b amt by simp
  have d: "data p = take amt b @ data ?p"
    using b amt len by (simp add: data_def flip: take_add)
  have ends: "ends_ok S ?p h" using assms(2) by (simp add: pipe_ok_def ends_ok_def)
  have buf: "buf_ok ?p" using b amt len by (simp add: buf_ok_def)
  have room: "length (data ?p) < PIPE_BUF" using data_len [OF buf] b(3) amt by simp
  have "holds (pipe_unblock_writer S (?p, h))
    (\<lambda>_ (p', h'). ends_ok S p' h' \<and> same_data ?p p' \<and> r_blocked p' = r_blocked ?p \<and> r_woken p' = r_woken ?p \<and>
       w_blocked p' = w_blocked ?p \<and> w_woken p' = w_blocked ?p) (\<lambda>_ _. False)"
    by (rule unblock_writer_holds [OF assms(1) ends]) (use assms(3) in simp)
  then have got: "holds (bindO (pipe_unblock_writer S (?p, h)) (\<lambda>_ s. Ret (Returns (take amt b)) s))
    (\<lambda>r (p', h'). pipe_ok S (p', h') \<and> r_alive p' = r_alive p \<and> w_alive p' = w_alive p \<and> w_blocked p' = w_blocked p \<and>
       (buffer p' = None) = (buffer p = None) \<and> r = Returns (take amt b) \<and> \<not> r_blocked p' \<and> data p = take amt b @ data p')
    (\<lambda>_ _. False)"
  proof (rule holds_bind, goal_cases)
    case (1 u t)
    obtain p' h' where t: "t = (p', h')" by fastforce
    with 1 have sd: "same_data ?p p'" by simp
    from same_data_eq [OF sd] sd have "data p' = data ?p" "buf_ok p'" "buffer p' \<noteq> None" "r_alive p' = r_alive p"
      "w_alive p' = w_alive p" using buf by (simp_all add: same_data_def)
    with 1 assms(3) d b(1) room show ?case by (simp add: t pipe_ok_def)
  qed simp
  have "take amt b \<noteq> []" "length (take amt b) \<le> n" using amt b by auto
  moreover have eq: "pipe_recv_round S pipe n (p, h) = bindO (pipe_unblock_writer S (?p, h)) (\<lambda>_ s. Ret (Returns (take amt b)) s)"
    using False b(1) by (simp add: pipe_recv_round_def Let_def amt_def)
  ultimately show ?thesis unfolding eq by (intro holds_mono [OF got]) auto
qed

lemma send_round_holds:
  assumes "stream_laws S" "pipe_ok S (p, h)" "\<not> w_blocked p" "bytes \<noteq> []" "buffer p \<noteq> None"
  shows "holds (pipe_send_round S pipe bytes (p, h))
    (\<lambda>r (p', h'). pipe_ok S (p', h') \<and> r_alive p' = r_alive p \<and> w_alive p' = w_alive p \<and> r_blocked p' = r_blocked p \<and>
       buffer p' \<noteq> None \<and>
       (case r of
          Returns n \<Rightarrow> \<not> w_blocked p' \<and> data p' = data p @ take n bytes \<and> 0 < n \<and> n \<le> length bytes \<and>
            (length bytes \<le> PIPE_BUF \<longrightarrow> n = length bytes)
        | Waits \<Rightarrow> w_blocked p' \<and> data p' = data p \<and> data p \<noteq> [] \<and> r_alive p))
    (\<lambda>e s'. s' = (p, h) \<and> (e = EPIPE \<and> \<not> r_alive p \<or> e = EWOULDBLOCK \<and> \<not> blocking pipe \<and> data p \<noteq> [] \<and> r_alive p))"
proof -
  from assms(2,5) obtain b where b: "buffer p = Some b" "length b = PIPE_BUF" "buffer_len p \<le> PIPE_BUF" "buffer_cap p = PIPE_BUF"
    by (auto simp: pipe_ok_def buf_ok_def split: option.splits)
  have ok: "buf_ok p" using assms(2) by (simp add: pipe_ok_def)
  let ?room = "PIPE_BUF - buffer_len p"
  let ?fits = "0 < ?room \<and> (\<not> length bytes \<le> PIPE_BUF \<or> length bytes \<le> ?room)"
  define amt where "amt = (if length bytes < ?room then length bytes else ?room)"
  let ?p = "p\<lparr>buffer := Some (take (buffer_len p) b @ take amt bytes @ drop (buffer_len p + amt) b), buffer_len := buffer_len p + amt\<rparr>"
  show ?thesis
  proof (cases "r_alive p \<and> ?fits")
    case True
    then have amt: "0 < amt" "amt \<le> length bytes" "buffer_len p + amt \<le> PIPE_BUF"
      "length bytes \<le> PIPE_BUF \<longrightarrow> amt = length bytes" using assms(4) by (auto simp: amt_def)
    have buf: "buf_ok ?p" using b amt by (simp add: buf_ok_def)
    have d: "data ?p = data p @ take amt bytes" using b amt by (simp add: data_def)
    have ends: "ends_ok S ?p h" using assms(2) by (simp add: pipe_ok_def ends_ok_def)
    have "holds (pipe_unblock_reader S (?p, h))
      (\<lambda>_ (p', h'). ends_ok S p' h' \<and> same_data ?p p' \<and> r_blocked p' = r_blocked ?p \<and> r_woken p' = r_blocked ?p \<and>
         w_blocked p' = w_blocked ?p \<and> w_woken p' = w_woken ?p) (\<lambda>_ _. False)"
      by (rule unblock_reader_holds [OF assms(1) ends]) (use assms(3) in simp)
    then have put: "holds (bindO (pipe_unblock_reader S (?p, h)) (\<lambda>_ s. Ret (Returns amt) s))
      (\<lambda>r (p', h'). pipe_ok S (p', h') \<and> r_alive p' = r_alive p \<and> w_alive p' = w_alive p \<and> r_blocked p' = r_blocked p \<and>
         buffer p' \<noteq> None \<and> r = Returns amt \<and> \<not> w_blocked p' \<and> data p' = data p @ take amt bytes) (\<lambda>_ _. False)"
    proof (rule holds_bind, goal_cases)
      case (1 u t)
      obtain p' h' where t: "t = (p', h')" by fastforce
      with 1 have sd: "same_data ?p p'" by simp
      from same_data_eq [OF sd] sd have "data p' = data p @ take amt bytes" "buf_ok p'" "buffer p' \<noteq> None" "r_alive p' = r_alive p"
        "w_alive p' = w_alive p" using buf d by (simp_all add: same_data_def)
      moreover have "take amt bytes \<noteq> []" using amt assms(4) by simp
      ultimately show ?case using 1 assms(3) by (simp add: t pipe_ok_def)
    qed simp
    have eq: "pipe_send_round S pipe bytes (p, h) = bindO (pipe_unblock_reader S (?p, h)) (\<lambda>_ s. Ret (Returns amt) s)"
      using True b by (simp add: pipe_send_round_def Let_def amt_def)
    from amt show ?thesis unfolding eq by (intro holds_mono [OF put]) auto
  next
    case False
    show ?thesis
    proof (cases "r_alive p \<and> blocking pipe")
      case wait: True
      with False have nf: "\<not> ?fits" by simp
      then have "buffer_len p \<noteq> 0" using assms(4) b by (auto simp: PIPE_BUF_def)
      then have d: "data p \<noteq> []" using ok by (simp add: data_empty)
      have "r_blocked p \<Longrightarrow> r_woken p" using assms(2) d by (auto simp: pipe_ok_def)
      from writer_enter_holds [OF assms(1) _ assms(3) this] assms(2)
      have enter: "holds (pipe_block_writer_enter S (p, h))
        (\<lambda>_ (p', h'). ends_ok S p' h' \<and> same_data p p' \<and> w_blocked p' \<and> \<not> w_woken p' \<and>
           r_blocked p' = r_blocked p \<and> r_woken p' = r_woken p) (\<lambda>_ _. False)" by (simp add: pipe_ok_def)
      have "pipe_send_round S pipe bytes (p, h) = bindO (pipe_block_writer_enter S (p, h)) (\<lambda>_ s. Ret Waits s)"
        using wait nf b by (auto simp: pipe_send_round_def Let_def)
      then show ?thesis
      proof (simp only:, intro holds_bind [OF enter], goal_cases)
        case (1 u t)
        obtain p' h' where t: "t = (p', h')" by fastforce
        with 1 have sd: "same_data p p'" by simp
        from same_data_eq [OF sd] sd have "data p' = data p" "buf_ok p'" "buffer p' \<noteq> None" "r_alive p' = r_alive p"
          "w_alive p' = w_alive p" using b(1) ok by (simp_all add: same_data_def)
        with 1 assms(2) d wait show ?case by (simp add: t pipe_ok_def)
      qed simp
    next
      case stop: False
      have "buffer_len p \<noteq> 0" if "\<not> ?fits" using that assms(4) b by (auto simp: PIPE_BUF_def)
      with False stop b ok show ?thesis by (auto simp: pipe_send_round_def Let_def data_empty)
    qed
  qed
qed

text \<open>The event of the end that waits is taken.\<close>

lemma block_thread_reader:
  assumes "stream_laws S" "pipe_ok S (p, h)" "r_blocked p" "r_woken p"
  obtains h' where "pipe_block_thread S (stream_reader p) (p, h) = Ret () (p, h')" "us_wait S (stream_reader p) h = (16, h')"
    "stream_reader p \<noteq> 0" "stream_writer p \<noteq> 0"
    "us_ends S (stream_reader p) (stream_writer p) h' = Some (At_rest, end_of (w_blocked p) (w_woken p))"
proof -
  from assms have e: "us_ends S (stream_reader p) (stream_writer p) h = Some (Completed, end_of (w_blocked p) (w_woken p))"
    "stream_reader p \<noteq> 0" "stream_writer p \<noteq> 0" by (auto simp: pipe_ok_def ends_ok_def end_of_def split: if_splits)
  from stream_endsD(5) [OF assms(1) e(1)] that e(2,3) show thesis by (auto simp: pipe_block_thread_def)
qed

lemma block_thread_writer:
  assumes "stream_laws S" "pipe_ok S (p, h)" "w_blocked p" "w_woken p"
  obtains h' where "pipe_block_thread S (stream_writer p) (p, h) = Ret () (p, h')" "us_wait S (stream_writer p) h = (16, h')"
    "stream_reader p \<noteq> 0" "stream_writer p \<noteq> 0"
    "us_ends S (stream_reader p) (stream_writer p) h' = Some (end_of (r_blocked p) (r_woken p), At_rest)"
proof -
  from assms have e: "us_ends S (stream_reader p) (stream_writer p) h = Some (end_of (r_blocked p) (r_woken p), Completed)"
    "stream_reader p \<noteq> 0" "stream_writer p \<noteq> 0" by (auto simp: pipe_ok_def ends_ok_def end_of_def split: if_splits)
  from stream_endsD(6) [OF assms(1) e(1)] that e(2,3) show thesis by (auto simp: pipe_block_thread_def)
qed

text \<open>After a wait the half is as before it; \<open>h'\<close> is the host after its event was taken, if there was one.\<close>

lemma reader_back:
  assumes "stream_laws S" "pipe_ok S (p, h)" "r_blocked p" "stream_reader p \<noteq> 0" "stream_writer p \<noteq> 0"
    "us_ends S (stream_reader p) (stream_writer p) h' =
       Some (if r_woken p then At_rest else In_flight, end_of (w_blocked p) (w_woken p))"
  shows "holds (pipe_block_reader_exit S (p, h'))
    (\<lambda>w (p', h''). w = r_woken p \<and> pipe_ok S (p', h'') \<and> same_data p p' \<and> \<not> r_blocked p' \<and> w_blocked p' = w_blocked p \<and>
       stream_reader p' = stream_reader p) (\<lambda>_ _. False)"
proof (rule holds_mono [OF reader_exit_holds [OF assms(1,3,4,5) _ assms(6)]], goal_cases)
  case 1
  show ?case using assms(2) by (simp add: pipe_ok_def ends_ok_def)
next
  case (2 w t)
  obtain p' h'' where t: "t = (p', h'')" by fastforce
  with 2 have sd: "same_data p p'" by simp
  from same_data_eq [OF sd] sd have "data p' = data p" "buf_ok p' = buf_ok p" "r_alive p' = r_alive p" by (simp_all add: same_data_def)
  with 2 assms(2) show ?case by (auto simp: t pipe_ok_def)
qed simp

lemma writer_back:
  assumes "stream_laws S" "pipe_ok S (p, h)" "w_blocked p" "stream_reader p \<noteq> 0" "stream_writer p \<noteq> 0"
    "us_ends S (stream_reader p) (stream_writer p) h' =
       Some (end_of (r_blocked p) (r_woken p), if w_woken p then At_rest else In_flight)"
  shows "holds (pipe_block_writer_exit S (p, h'))
    (\<lambda>w (p', h''). w = w_woken p \<and> pipe_ok S (p', h'') \<and> same_data p p' \<and> \<not> w_blocked p' \<and> r_blocked p' = r_blocked p \<and>
       stream_writer p' = stream_writer p) (\<lambda>_ _. False)"
proof (rule holds_mono [OF writer_exit_holds [OF assms(1,3,4,5) _ assms(6)]], goal_cases)
  case 1
  show ?case using assms(2) by (simp add: pipe_ok_def ends_ok_def)
next
  case (2 w t)
  obtain p' h'' where t: "t = (p', h'')" by fastforce
  with 2 have sd: "same_data p p'" by simp
  from same_data_eq [OF sd] sd have "data p' = data p" "buf_ok p' = buf_ok p" "w_alive p' = w_alive p" by (simp_all add: same_data_def)
  with 2 assms(2) show ?case by (auto simp: t pipe_ok_def)
qed simp

end
