(* ===== verification/Pipe_System.thy ===== *)
theory Pipe_System
  imports Pipe "HOL-Library.Sublist"
begin

text \<open>
  A pipe in use: a thread that reads and one that writes, as a transition system over the calls of
  \<^verbatim>\<open>libc-bottom-half/sources/pipe.c\<close>, with a thread asleep between the two parts of a call that waits.
  The invariant ties the flags to the stream of the host and the bytes in the buffer to the bytes sent
  and received, and every call keeps it.
\<close>

unbundle bit_operations_syntax

section \<open>A reader and a writer\<close>

text \<open>
  A pipe with one thread at each half. A thread is between calls, or sleeps in a call or in a poll;
  \<open>sent\<close> and \<open>received\<close> record the bytes that the calls said were transferred.
\<close>

datatype reader_at = R_idle | R_read nat | R_poll
datatype writer_at = W_idle | W_write "byte list" | W_poll

record 'h pipe_sys =
  pst :: pipe_state
  phost :: 'h
  rhalf :: pipe_half
  whalf :: pipe_half
  ropen :: bool
  wopen :: bool
  rthread :: reader_at
  wthread :: writer_at
  sent :: "byte list"
  received :: "byte list"

datatype pipe_event =
    E_read bool nat | E_read_wake | E_write bool "byte list option" "byte list" | E_write_wake
  | E_rsetfl "32 word" | E_wsetfl "32 word" | E_rpoll bool "32 word" | E_wpoll bool "32 word"
  | E_rpoll_end | E_wpoll_end | E_rclose | E_wclose

datatype pipe_result = Got "byte list" | Took nat | Sleeps | Ready bool | Done_with

text \<open>Whether the host has an event for a sleeping half.\<close>

definition r_event :: "'h unit_stream \<Rightarrow> 'h pipe_sys \<Rightarrow> bool" where
  "r_event S s \<longleftrightarrow> (case us_ends S (stream_reader (pst s)) (stream_writer (pst s)) (phost s) of
     Some (Completed, _) \<Rightarrow> True | _ \<Rightarrow> False)"

definition w_event :: "'h unit_stream \<Rightarrow> 'h pipe_sys \<Rightarrow> bool" where
  "w_event S s \<longleftrightarrow> (case us_ends S (stream_reader (pst s)) (stream_writer (pst s)) (phost s) of
     Some (_, Completed) \<Rightarrow> True | _ \<Rightarrow> False)"

fun enabled :: "'h unit_stream \<Rightarrow> pipe_event \<Rightarrow> 'h pipe_sys \<Rightarrow> bool" where
  "enabled S (E_read _ _) s = (ropen s \<and> rthread s = R_idle)"
| "enabled S E_read_wake s = ((case rthread s of R_read _ \<Rightarrow> True | _ \<Rightarrow> False) \<and> r_event S s)"
| "enabled S (E_write _ block _) s =
     (wopen s \<and> wthread s = W_idle \<and> (case block of None \<Rightarrow> True | Some b \<Rightarrow> length b = PIPE_BUF))"
| "enabled S E_write_wake s = ((case wthread s of W_write _ \<Rightarrow> True | _ \<Rightarrow> False) \<and> w_event S s)"
| "enabled S (E_rsetfl _) s = ropen s"
| "enabled S (E_wsetfl _) s = wopen s"
| "enabled S (E_rpoll _ _) s = (ropen s \<and> rthread s = R_idle)"
| "enabled S (E_wpoll _ _) s = (wopen s \<and> wthread s = W_idle)"
| "enabled S E_rpoll_end s = (rthread s = R_poll)"
| "enabled S E_wpoll_end s = (wthread s = W_poll)"
| "enabled S E_rclose s = (ropen s \<and> rthread s = R_idle)"
| "enabled S E_wclose s = (wopen s \<and> wthread s = W_idle)"

definition on_pipe :: "('a, 'h) pipe_op \<Rightarrow> 'h pipe_sys \<Rightarrow> ('a, 'h pipe_sys) outcome" where
  "on_pipe f s = lift_part (\<lambda>(p, h). s\<lparr>pst := p, phost := h\<rparr>) (f (pst s, phost s))"

fun read_result :: "nat \<Rightarrow> byte list progress \<Rightarrow> 'h pipe_sys \<Rightarrow> (pipe_result, 'h pipe_sys) outcome" where
  "read_result n (Returns bs) s = Ret (Got bs) (s\<lparr>received := received s @ bs\<rparr>)"
| "read_result n Waits s = Ret Sleeps (s\<lparr>rthread := R_read n\<rparr>)"

fun write_result :: "byte list \<Rightarrow> nat progress \<Rightarrow> 'h pipe_sys \<Rightarrow> (pipe_result, 'h pipe_sys) outcome" where
  "write_result bs (Returns n) s = Ret (Took n) (s\<lparr>sent := sent s @ take n bs\<rparr>)"
| "write_result bs Waits s = Ret Sleeps (s\<lparr>wthread := W_write bs\<rparr>)"

text \<open>The end of a poll: the event is handed over when there is one.\<close>

definition rpoll_end :: "'h unit_stream \<Rightarrow> bool \<Rightarrow> (bool, 'h) pipe_op" where
  "rpoll_end S ev = (\<lambda>(p, h).
     if ev then let (code, h) = us_wait S (stream_reader p) h in pipe_read_ready S (Some (stream_reader p, code)) (p, h)
     else pipe_read_ready S None (p, h))"

definition wpoll_end :: "'h unit_stream \<Rightarrow> bool \<Rightarrow> (bool, 'h) pipe_op" where
  "wpoll_end S ev = (\<lambda>(p, h).
     if ev then let (code, h) = us_wait S (stream_writer p) h in pipe_write_ready S (Some (stream_writer p, code)) (p, h)
     else pipe_write_ready S None (p, h))"

fun run_event :: "'h unit_stream \<Rightarrow> pipe_event \<Rightarrow> 'h pipe_sys \<Rightarrow> (pipe_result, 'h pipe_sys) outcome" where
  "run_event S (E_read bad n) s = bindO (on_pipe (pipe_recvfrom S (rhalf s) bad n) s) (read_result n)"
| "run_event S E_read_wake s =
     (case rthread s of
        R_read n \<Rightarrow> bindO (on_pipe (pipe_recv_resume S (rhalf s) n) (s\<lparr>rthread := R_idle\<rparr>)) (read_result n)
      | _ \<Rightarrow> Ret Done_with s)"
| "run_event S (E_write bad block bs) s = bindO (on_pipe (pipe_sendto S (whalf s) bad block bs) s) (write_result bs)"
| "run_event S E_write_wake s =
     (case wthread s of
        W_write bs \<Rightarrow> bindO (on_pipe (pipe_send_resume S (whalf s) bs) (s\<lparr>wthread := W_idle\<rparr>)) (write_result bs)
      | _ \<Rightarrow> Ret Done_with s)"
| "run_event S (E_rsetfl fl) s = Ret Done_with (s\<lparr>rhalf := pipe_fcntl_setfl fl (rhalf s)\<rparr>)"
| "run_event S (E_wsetfl fl) s = Ret Done_with (s\<lparr>whalf := pipe_fcntl_setfl fl (whalf s)\<rparr>)"
| "run_event S (E_rpoll room ev) s =
     bindO (on_pipe (pipe_poll_register S (rhalf s) room ev) s)
       (\<lambda>r s. case r of Returns b \<Rightarrow> Ret (Ready b) s | Waits \<Rightarrow> Ret Sleeps (s\<lparr>rthread := R_poll\<rparr>))"
| "run_event S (E_wpoll room ev) s =
     bindO (on_pipe (pipe_poll_register S (whalf s) room ev) s)
       (\<lambda>r s. case r of Returns b \<Rightarrow> Ret (Ready b) s | Waits \<Rightarrow> Ret Sleeps (s\<lparr>wthread := W_poll\<rparr>))"
| "run_event S E_rpoll_end s = bindO (on_pipe (rpoll_end S (r_event S s)) (s\<lparr>rthread := R_idle\<rparr>)) (\<lambda>b s. Ret (Ready b) s)"
| "run_event S E_wpoll_end s = bindO (on_pipe (wpoll_end S (w_event S s)) (s\<lparr>wthread := W_idle\<rparr>)) (\<lambda>b s. Ret (Ready b) s)"
| "run_event S E_rclose s = bindO (on_pipe (pipe_free S (rhalf s)) s) (\<lambda>_ s. Ret Done_with (s\<lparr>ropen := False\<rparr>))"
| "run_event S E_wclose s = bindO (on_pipe (pipe_free S (whalf s)) s) (\<lambda>_ s. Ret Done_with (s\<lparr>wopen := False\<rparr>))"

text \<open>The states a new pipe can come to.\<close>

inductive pipe_reach :: "'h unit_stream \<Rightarrow> 'h pipe_sys \<Rightarrow> bool" for S where
  start: "pipe_reach S \<lparr>pst = pipe_init, phost = h, rhalf = \<lparr>is_reader = True, blocking = b\<rparr>,
      whalf = \<lparr>is_reader = False, blocking = b\<rparr>, ropen = True, wopen = True, rthread = R_idle, wthread = W_idle,
      sent = [], received = []\<rparr>"
| event: "pipe_reach S s \<Longrightarrow> enabled S ev s \<Longrightarrow> after (run_event S ev s) s' \<Longrightarrow> pipe_reach S s'"

definition sys_inv :: "'h unit_stream \<Rightarrow> 'h pipe_sys \<Rightarrow> bool" where
  "sys_inv S s \<longleftrightarrow> is_reader (rhalf s) \<and> \<not> is_reader (whalf s) \<and>
     (rthread s \<noteq> R_idle \<longrightarrow> ropen s) \<and> (wthread s \<noteq> W_idle \<longrightarrow> wopen s) \<and>
     (case rthread s of R_read n \<Rightarrow> 0 < n | _ \<Rightarrow> True) \<and>
     (case wthread s of W_write bs \<Rightarrow> bs \<noteq> [] \<and> buffer (pst s) \<noteq> None | _ \<Rightarrow> True) \<and>
     (if ropen s \<or> wopen s
      then pipe_ok S (pst s, phost s) \<and> r_alive (pst s) = ropen s \<and> w_alive (pst s) = wopen s \<and>
        r_blocked (pst s) = (rthread s \<noteq> R_idle) \<and> w_blocked (pst s) = (wthread s \<noteq> W_idle) \<and>
        sent s = received s @ data (pst s)
      else prefix (received s) (sent s))"

section \<open>Every event keeps the invariant\<close>

text \<open>What may change of the state in a call of the reader, and in one of the writer.\<close>

definition r_frame :: "'h unit_stream \<Rightarrow> pipe_state \<Rightarrow> pipe_state \<times> 'h \<Rightarrow> bool" where
  "r_frame S p = (\<lambda>(p', h'). pipe_ok S (p', h') \<and> r_alive p' = r_alive p \<and> w_alive p' = w_alive p \<and>
     w_blocked p' = w_blocked p \<and> (buffer p' = None) = (buffer p = None))"

definition w_frame :: "'h unit_stream \<Rightarrow> pipe_state \<Rightarrow> pipe_state \<times> 'h \<Rightarrow> bool" where
  "w_frame S p = (\<lambda>(p', h'). pipe_ok S (p', h') \<and> r_alive p' = r_alive p \<and> w_alive p' = w_alive p \<and>
     r_blocked p' = r_blocked p \<and> (buffer p \<noteq> None \<longrightarrow> buffer p' \<noteq> None))"

lemma reader_call:
  assumes inv: "sys_inv S s" "ropen s"
    and h: "holds (f (pst s, phost s))
      (\<lambda>r t. r_frame S (pst s) t \<and>
         (case r of
            Returns bs \<Rightarrow> \<not> r_blocked (fst t) \<and> data (pst s) = bs @ data (fst t) \<and> P bs
          | Waits \<Rightarrow> r_blocked (fst t) \<and> data (fst t) = data (pst s) \<and> 0 < n \<and> W))
      (\<lambda>e t. r_frame S (pst s) t \<and> \<not> r_blocked (fst t) \<and> data (fst t) = data (pst s) \<and> Q e)"
  shows "holds (bindO (on_pipe f (s\<lparr>rthread := R_idle\<rparr>)) (read_result n))
    (\<lambda>r s'. sys_inv S s' \<and> (case r of
        Got bs \<Rightarrow> data (pst s) = bs @ data (pst s') \<and> P bs
      | Sleeps \<Rightarrow> data (pst s') = data (pst s) \<and> W
      | _ \<Rightarrow> False))
    (\<lambda>e s'. sys_inv S s' \<and> data (pst s') = data (pst s) \<and> Q e)"
proof -
  have g: "holds (on_pipe f (s\<lparr>rthread := R_idle\<rparr>))
    (\<lambda>r s'. s' = s\<lparr>rthread := R_idle, pst := pst s', phost := phost s'\<rparr> \<and> r_frame S (pst s) (pst s', phost s') \<and>
       (case r of
          Returns bs \<Rightarrow> \<not> r_blocked (pst s') \<and> data (pst s) = bs @ data (pst s') \<and> P bs
        | Waits \<Rightarrow> r_blocked (pst s') \<and> data (pst s') = data (pst s) \<and> 0 < n \<and> W))
    (\<lambda>e s'. s' = s\<lparr>rthread := R_idle, pst := pst s', phost := phost s'\<rparr> \<and> r_frame S (pst s) (pst s', phost s') \<and>
       \<not> r_blocked (pst s') \<and> data (pst s') = data (pst s) \<and> Q e)"
    unfolding on_pipe_def holds_lift_part by (simp, rule holds_mono [OF h]) (auto split: progress.splits)
  show ?thesis
  proof (rule holds_bind [OF g], goal_cases)
    case (1 r s')
    define p h where "p = pst s'" and "h = phost s'"
    from 1 have s': "s' = s\<lparr>rthread := R_idle, pst := p, phost := h\<rparr>" "r_frame S (pst s) (p, h)"
      "case r of Returns bs \<Rightarrow> \<not> r_blocked p \<and> data (pst s) = bs @ data p \<and> P bs
        | Waits \<Rightarrow> r_blocked p \<and> data p = data (pst s) \<and> 0 < n \<and> W" unfolding p_def h_def by blast+
    show ?case
    proof (cases r)
      case (Returns bs)
      with s' inv show ?thesis
        by (auto simp: sys_inv_def r_frame_def split: reader_at.splits writer_at.splits)
    next
      case Waits
      with s' inv show ?thesis
        by (auto simp: sys_inv_def r_frame_def split: reader_at.splits writer_at.splits)
    qed
  next
    case (2 e s')
    define p h where "p = pst s'" and "h = phost s'"
    from 2 have s': "s' = s\<lparr>rthread := R_idle, pst := p, phost := h\<rparr>" "r_frame S (pst s) (p, h)"
      "\<not> r_blocked p" "data p = data (pst s)" "Q e" unfolding p_def h_def by blast+
    with inv show ?case by (auto simp: sys_inv_def r_frame_def split: reader_at.splits writer_at.splits)
  qed
qed

lemma writer_call:
  assumes inv: "sys_inv S s" "wopen s"
    and h: "holds (f (pst s, phost s))
      (\<lambda>r t. w_frame S (pst s) t \<and>
         (case r of
            Returns k \<Rightarrow> \<not> w_blocked (fst t) \<and> data (fst t) = data (pst s) @ take k bs \<and> P k
          | Waits \<Rightarrow> w_blocked (fst t) \<and> data (fst t) = data (pst s) \<and> bs \<noteq> [] \<and> buffer (fst t) \<noteq> None \<and> W))
      (\<lambda>e t. w_frame S (pst s) t \<and> \<not> w_blocked (fst t) \<and> data (fst t) = data (pst s) \<and> Q e)"
  shows "holds (bindO (on_pipe f (s\<lparr>wthread := W_idle\<rparr>)) (write_result bs))
    (\<lambda>r s'. sys_inv S s' \<and> (case r of
        Took k \<Rightarrow> data (pst s') = data (pst s) @ take k bs \<and> P k
      | Sleeps \<Rightarrow> data (pst s') = data (pst s) \<and> W
      | _ \<Rightarrow> False))
    (\<lambda>e s'. sys_inv S s' \<and> data (pst s') = data (pst s) \<and> Q e)"
proof -
  have g: "holds (on_pipe f (s\<lparr>wthread := W_idle\<rparr>))
    (\<lambda>r s'. s' = s\<lparr>wthread := W_idle, pst := pst s', phost := phost s'\<rparr> \<and> w_frame S (pst s) (pst s', phost s') \<and>
       (case r of
          Returns k \<Rightarrow> \<not> w_blocked (pst s') \<and> data (pst s') = data (pst s) @ take k bs \<and> P k
        | Waits \<Rightarrow> w_blocked (pst s') \<and> data (pst s') = data (pst s) \<and> bs \<noteq> [] \<and> buffer (pst s') \<noteq> None \<and> W))
    (\<lambda>e s'. s' = s\<lparr>wthread := W_idle, pst := pst s', phost := phost s'\<rparr> \<and> w_frame S (pst s) (pst s', phost s') \<and>
       \<not> w_blocked (pst s') \<and> data (pst s') = data (pst s) \<and> Q e)"
    unfolding on_pipe_def holds_lift_part by (simp, rule holds_mono [OF h]) (auto split: progress.splits)
  show ?thesis
  proof (rule holds_bind [OF g], goal_cases)
    case (1 r s')
    define p h where "p = pst s'" and "h = phost s'"
    from 1 have s': "s' = s\<lparr>wthread := W_idle, pst := p, phost := h\<rparr>" "w_frame S (pst s) (p, h)"
      "case r of Returns k \<Rightarrow> \<not> w_blocked p \<and> data p = data (pst s) @ take k bs \<and> P k
        | Waits \<Rightarrow> w_blocked p \<and> data p = data (pst s) \<and> bs \<noteq> [] \<and> buffer p \<noteq> None \<and> W" unfolding p_def h_def by blast+
    show ?case
    proof (cases r)
      case (Returns k)
      with s' inv show ?thesis
        by (auto simp: sys_inv_def w_frame_def split: reader_at.splits writer_at.splits)
    next
      case Waits
      with s' inv show ?thesis
        by (auto simp: sys_inv_def w_frame_def split: reader_at.splits writer_at.splits)
    qed
  next
    case (2 e s')
    define p h where "p = pst s'" and "h = phost s'"
    from 2 have s': "s' = s\<lparr>wthread := W_idle, pst := p, phost := h\<rparr>" "w_frame S (pst s) (p, h)"
      "\<not> w_blocked p" "data p = data (pst s)" "Q e" unfolding p_def h_def by blast+
    with inv show ?case by (auto simp: sys_inv_def w_frame_def split: reader_at.splits writer_at.splits)
  qed
qed

lemma sys_ok:
  assumes "sys_inv S s" "ropen s \<or> wopen s"
  shows "pipe_ok S (pst s, phost s)" "r_alive (pst s) = ropen s" "w_alive (pst s) = wopen s"
    "r_blocked (pst s) = (rthread s \<noteq> R_idle)" "w_blocked (pst s) = (wthread s \<noteq> W_idle)"
  using assms by (simp_all add: sys_inv_def)

lemma r_event_iff:
  assumes "pipe_ok S (pst s, phost s)" "r_blocked (pst s)"
  shows "r_event S s = r_woken (pst s)"
  using assms by (auto simp: r_event_def pipe_ok_def ends_ok_def end_of_def split: if_splits)

lemma w_event_iff:
  assumes "pipe_ok S (pst s, phost s)" "w_blocked (pst s)"
  shows "w_event S s = w_woken (pst s)"
  using assms by (auto simp: w_event_def pipe_ok_def ends_ok_def end_of_def split: if_splits)

lemma idle_same: "rthread s = R_idle \<Longrightarrow> s\<lparr>rthread := R_idle\<rparr> = s" "wthread s = W_idle \<Longrightarrow> s\<lparr>wthread := W_idle\<rparr> = s"
  by simp_all

text \<open>What a read and a write of a system may answer, and the errors they may give.\<close>

definition read_gives :: "'h pipe_sys \<Rightarrow> nat \<Rightarrow> byte list \<Rightarrow> bool" where
  "read_gives s n bs \<longleftrightarrow> length bs \<le> n \<and> (bs = [] \<longrightarrow> n = 0 \<or> data (pst s) = [] \<and> \<not> wopen s)"

definition read_fails :: "'h pipe_sys \<Rightarrow> errno \<Rightarrow> bool" where
  "read_fails s e \<longleftrightarrow> e = EWOULDBLOCK \<and> \<not> blocking (rhalf s) \<and> data (pst s) = [] \<and> wopen s"

definition write_takes :: "byte list \<Rightarrow> nat \<Rightarrow> bool" where
  "write_takes bs k \<longleftrightarrow> k \<le> length bs \<and> (bs \<noteq> [] \<longrightarrow> 0 < k) \<and> (length bs \<le> PIPE_BUF \<longrightarrow> k = length bs)"

definition write_fails :: "'h pipe_sys \<Rightarrow> errno \<Rightarrow> bool" where
  "write_fails s e \<longleftrightarrow> e = EPIPE \<and> \<not> ropen s \<or> e = EWOULDBLOCK \<and> \<not> blocking (whalf s) \<and> data (pst s) \<noteq> [] \<and> ropen s"

lemma recv_round_frame:
  assumes laws: "stream_laws S" and ok: "pipe_ok S (p, h)" and rb: "\<not> r_blocked p" and n: "0 < n"
    and same: "data p = data (pst s)" "w_alive p = wopen s" "r_alive p = r_alive (pst s)" "w_alive (pst s) = wopen s"
      "w_blocked p = w_blocked (pst s)" "(buffer p = None) = (buffer (pst s) = None)"
  shows "holds (pipe_recv_round S (rhalf s) n (p, h))
      (\<lambda>r t. r_frame S (pst s) t \<and>
         (case r of
            Returns bs \<Rightarrow> \<not> r_blocked (fst t) \<and> data (pst s) = bs @ data (fst t) \<and> read_gives s n bs
          | Waits \<Rightarrow> r_blocked (fst t) \<and> data (fst t) = data (pst s) \<and> 0 < n \<and> data (pst s) = [] \<and> wopen s))
      (\<lambda>e t. r_frame S (pst s) t \<and> \<not> r_blocked (fst t) \<and> data (fst t) = data (pst s) \<and> read_fails s e)"
proof (rule holds_mono [OF recv_round_holds [OF laws ok rb n, of "rhalf s"]], goal_cases)
  case (1 r t)
  obtain p' h' where t: "t = (p', h')" by fastforce
  from 1 same n show ?case by (auto simp: t r_frame_def read_gives_def split: progress.splits)
next
  case (2 e t)
  with same ok rb show ?case by (simp add: r_frame_def read_fails_def)
qed

lemma send_round_frame:
  assumes laws: "stream_laws S" and ok: "pipe_ok S (p, h)" and wb: "\<not> w_blocked p" and bs: "bs \<noteq> []" "buffer p \<noteq> None"
    and same: "data p = data (pst s)" "w_alive p = w_alive (pst s)" "r_alive p = ropen s" "r_alive (pst s) = ropen s"
      "r_blocked p = r_blocked (pst s)"
  shows "holds (pipe_send_round S (whalf s) bs (p, h))
      (\<lambda>r t. w_frame S (pst s) t \<and>
         (case r of
            Returns k \<Rightarrow> \<not> w_blocked (fst t) \<and> data (fst t) = data (pst s) @ take k bs \<and> write_takes bs k
          | Waits \<Rightarrow> w_blocked (fst t) \<and> data (fst t) = data (pst s) \<and> bs \<noteq> [] \<and> buffer (fst t) \<noteq> None \<and>
              data (pst s) \<noteq> [] \<and> ropen s))
      (\<lambda>e t. w_frame S (pst s) t \<and> \<not> w_blocked (fst t) \<and> data (fst t) = data (pst s) \<and> write_fails s e)"
proof (rule holds_mono [OF send_round_holds [OF laws ok wb bs, of "whalf s"]], goal_cases)
  case (1 r t)
  obtain p' h' where t: "t = (p', h')" by fastforce
  from 1 same bs show ?case by (auto simp: t w_frame_def write_takes_def split: progress.splits)
next
  case (2 e t)
  with same ok wb bs show ?case by (auto simp: w_frame_def write_fails_def)
qed

lemma read_event:
  assumes laws: "stream_laws S" and inv: "sys_inv S s" and en: "ropen s" "rthread s = R_idle"
  shows "holds (run_event S (E_read bad n) s)
    (\<lambda>r s'. sys_inv S s' \<and> (case r of
        Got bs \<Rightarrow> data (pst s) = bs @ data (pst s') \<and> read_gives s n bs
      | Sleeps \<Rightarrow> data (pst s') = data (pst s) \<and> data (pst s) = [] \<and> wopen s
      | _ \<Rightarrow> False))
    (\<lambda>e s'. sys_inv S s' \<and> data (pst s') = data (pst s) \<and> (read_fails s e \<or> bad \<and> e = EINVAL))"
proof -
  note ok = sys_ok [OF inv disjI1, OF en(1)]
  have half: "is_reader (rhalf s)" using inv by (simp add: sys_inv_def)
  have "holds (pipe_recvfrom S (rhalf s) bad n (pst s, phost s))
      (\<lambda>r t. r_frame S (pst s) t \<and>
         (case r of
            Returns bs \<Rightarrow> \<not> r_blocked (fst t) \<and> data (pst s) = bs @ data (fst t) \<and> read_gives s n bs
          | Waits \<Rightarrow> r_blocked (fst t) \<and> data (fst t) = data (pst s) \<and> 0 < n \<and> data (pst s) = [] \<and> wopen s))
      (\<lambda>e t. r_frame S (pst s) t \<and> \<not> r_blocked (fst t) \<and> data (fst t) = data (pst s) \<and> (read_fails s e \<or> bad \<and> e = EINVAL))"
  proof (cases "bad \<or> n = 0")
    case True
    then show ?thesis using ok en half by (auto simp: pipe_recvfrom_def r_frame_def read_gives_def)
  next
    case False
    then have eq: "pipe_recvfrom S (rhalf s) bad n (pst s, phost s) = pipe_recv_round S (rhalf s) n (pst s, phost s)"
      using half by (simp add: pipe_recvfrom_def)
    have "holds (pipe_recv_round S (rhalf s) n (pst s, phost s))
      (\<lambda>r t. r_frame S (pst s) t \<and>
         (case r of
            Returns bs \<Rightarrow> \<not> r_blocked (fst t) \<and> data (pst s) = bs @ data (fst t) \<and> read_gives s n bs
          | Waits \<Rightarrow> r_blocked (fst t) \<and> data (fst t) = data (pst s) \<and> 0 < n \<and> data (pst s) = [] \<and> wopen s))
      (\<lambda>e t. r_frame S (pst s) t \<and> \<not> r_blocked (fst t) \<and> data (fst t) = data (pst s) \<and> read_fails s e)"
      by (rule recv_round_frame [OF laws ok(1)]) (use ok en False in simp_all)
    then show ?thesis unfolding eq by (rule holds_mono) simp_all
  qed
  from reader_call [where f = "pipe_recvfrom S (rhalf s) bad n", OF inv en(1) this] show ?thesis by (simp add: idle_same en)
qed

lemma write_event:
  assumes laws: "stream_laws S" and inv: "sys_inv S s" and en: "wopen s" "wthread s = W_idle"
    and blk: "\<forall>b. block = Some b \<longrightarrow> length b = PIPE_BUF"
  shows "holds (run_event S (E_write bad block bs) s)
    (\<lambda>r s'. sys_inv S s' \<and> (case r of
        Took k \<Rightarrow> data (pst s') = data (pst s) @ take k bs \<and> write_takes bs k
      | Sleeps \<Rightarrow> data (pst s') = data (pst s) \<and> data (pst s) \<noteq> [] \<and> ropen s
      | _ \<Rightarrow> False))
    (\<lambda>e s'. sys_inv S s' \<and> data (pst s') = data (pst s) \<and>
       (write_fails s e \<or> bad \<and> e = EINVAL \<or> e = ENOMEM \<and> block = None \<and> data (pst s) = []))"
proof -
  note ok = sys_ok [OF inv disjI2, OF en(1)]
  have half: "\<not> is_reader (whalf s)" using inv by (simp add: sys_inv_def)
  let ?post = "\<lambda>r t. w_frame S (pst s) t \<and>
         (case r of
            Returns k \<Rightarrow> \<not> w_blocked (fst t) \<and> data (fst t) = data (pst s) @ take k bs \<and> write_takes bs k
          | Waits \<Rightarrow> w_blocked (fst t) \<and> data (fst t) = data (pst s) \<and> bs \<noteq> [] \<and> buffer (fst t) \<noteq> None \<and>
              data (pst s) \<noteq> [] \<and> ropen s)"
  have "holds (pipe_sendto S (whalf s) bad block bs (pst s, phost s)) ?post
      (\<lambda>e t. w_frame S (pst s) t \<and> \<not> w_blocked (fst t) \<and> data (fst t) = data (pst s) \<and>
         (write_fails s e \<or> bad \<and> e = EINVAL \<or> e = ENOMEM \<and> block = None \<and> data (pst s) = []))"
  proof (cases "bad \<or> bs = []")
    case True
    then show ?thesis using ok en half by (auto simp: pipe_sendto_def w_frame_def write_takes_def)
  next
    case args: False
    show ?thesis
    proof (cases "buffer (pst s)")
      case None
      define p where "p = pst s\<lparr>buffer_cap := PIPE_BUF, buffer := block\<rparr>"
      have p: "pipe_ok S (p, phost s)" "data p = []" "data (pst s) = []"
        using ok(1) None blk by (auto simp: pipe_ok_def p_def ends_ok_def buf_ok_def data_def split: option.splits)
      have f: "flags p = flags (pst s)" by (simp add: p_def)
      show ?thesis
      proof (cases block)
        case none: None
        then show ?thesis using args half None p en ok by (simp add: pipe_sendto_def w_frame_def flip: p_def) (simp add: p_def)
      next
        case (Some b)
        then have eq: "pipe_sendto S (whalf s) bad block bs (pst s, phost s) = pipe_send_round S (whalf s) bs (p, phost s)"
          using args half None by (simp add: pipe_sendto_def p_def)
        have "holds (pipe_send_round S (whalf s) bs (p, phost s)) ?post
          (\<lambda>e t. w_frame S (pst s) t \<and> \<not> w_blocked (fst t) \<and> data (fst t) = data (pst s) \<and> write_fails s e)"
          by (rule send_round_frame [OF laws p(1)]) (use ok en args p Some in \<open>simp_all add: f, simp add: p_def\<close>)
        then show ?thesis unfolding eq by (rule holds_mono) simp_all
      qed
    next
      case (Some b)
      then have eq: "pipe_sendto S (whalf s) bad block bs (pst s, phost s) = pipe_send_round S (whalf s) bs (pst s, phost s)"
        using args half by (simp add: pipe_sendto_def)
      have "holds (pipe_send_round S (whalf s) bs (pst s, phost s)) ?post
          (\<lambda>e t. w_frame S (pst s) t \<and> \<not> w_blocked (fst t) \<and> data (fst t) = data (pst s) \<and> write_fails s e)"
        by (rule send_round_frame [OF laws ok(1)]) (use ok en args Some in simp_all)
      then show ?thesis unfolding eq by (rule holds_mono) simp_all
    qed
  qed
  from writer_call [where f = "pipe_sendto S (whalf s) bad block bs", OF inv en(1) this] show ?thesis by (simp add: idle_same en)
qed

lemma read_wake_event:
  assumes laws: "stream_laws S" and inv: "sys_inv S s" and en: "rthread s = R_read n" "r_event S s"
  shows "holds (run_event S E_read_wake s)
    (\<lambda>r s'. sys_inv S s' \<and> (case r of
        Got bs \<Rightarrow> data (pst s) = bs @ data (pst s') \<and> read_gives s n bs
      | _ \<Rightarrow> False))
    (\<lambda>e s'. False)"
proof -
  have op: "ropen s" and n: "0 < n" using inv en by (auto simp: sys_inv_def)
  note ok = sys_ok [OF inv disjI1, OF op]
  have rb: "r_blocked (pst s)" using ok(4) en by simp
  have rw: "r_woken (pst s)" using r_event_iff [OF ok(1) rb] en(2) by simp
  have ready: "data (pst s) \<noteq> [] \<or> \<not> wopen s" using ok(1,3) rb rw by (auto simp: pipe_ok_def)
  obtain h' where h': "pipe_block_thread S (stream_reader (pst s)) (pst s, phost s) = Ret () (pst s, h')"
    "stream_reader (pst s) \<noteq> 0" "stream_writer (pst s) \<noteq> 0"
    "us_ends S (stream_reader (pst s)) (stream_writer (pst s)) h' = Some (At_rest, end_of (w_blocked (pst s)) (w_woken (pst s)))"
    using block_thread_reader [OF laws ok(1) rb rw] by blast
  have out: "holds (pipe_block_reader_exit S (pst s, h'))
    (\<lambda>w (p', h''). w = r_woken (pst s) \<and> pipe_ok S (p', h'') \<and> same_data (pst s) p' \<and> \<not> r_blocked p' \<and>
       w_blocked p' = w_blocked (pst s) \<and> stream_reader p' = stream_reader (pst s)) (\<lambda>_ _. False)"
    by (rule reader_back [OF laws ok(1) rb h'(2,3)]) (simp add: h'(4) rw)
  have "holds (pipe_recv_resume S (rhalf s) n (pst s, phost s))
      (\<lambda>r t. r_frame S (pst s) t \<and>
         (case r of
            Returns bs \<Rightarrow> \<not> r_blocked (fst t) \<and> data (pst s) = bs @ data (fst t) \<and> read_gives s n bs
          | Waits \<Rightarrow> r_blocked (fst t) \<and> data (fst t) = data (pst s) \<and> 0 < n \<and> False))
      (\<lambda>e t. r_frame S (pst s) t \<and> \<not> r_blocked (fst t) \<and> data (fst t) = data (pst s) \<and> False)"
    unfolding pipe_recv_resume_def prod.case h'(1) bindO.simps
  proof (rule holds_bind [OF out], goal_cases)
    case (1 w t)
    obtain p' h'' where t: "t = (p', h'')" by fastforce
    with 1 have sd: "same_data (pst s) p'" by simp
    from same_data_eq [OF sd] sd have same: "data p' = data (pst s)" "w_alive p' = wopen s" "r_alive p' = r_alive (pst s)"
      "(buffer p' = None) = (buffer (pst s) = None)" using ok by (simp_all add: same_data_def)
    have "holds (pipe_recv_round S (rhalf s) n (p', h''))
      (\<lambda>r t. r_frame S (pst s) t \<and>
         (case r of
            Returns bs \<Rightarrow> \<not> r_blocked (fst t) \<and> data (pst s) = bs @ data (fst t) \<and> read_gives s n bs
          | Waits \<Rightarrow> r_blocked (fst t) \<and> data (fst t) = data (pst s) \<and> 0 < n \<and> data (pst s) = [] \<and> wopen s))
      (\<lambda>e t. r_frame S (pst s) t \<and> \<not> r_blocked (fst t) \<and> data (fst t) = data (pst s) \<and> read_fails s e)"
      by (rule recv_round_frame [OF laws]) (use 1 ok n same in \<open>simp_all add: t\<close>)
    then show ?case unfolding t
      by (rule holds_mono) (use ready in \<open>auto simp: read_fails_def split: progress.splits\<close>)
  qed simp
  from reader_call [where f = "pipe_recv_resume S (rhalf s) n", OF inv op this] show ?thesis
    by (simp add: en, elim holds_mono) (auto split: pipe_result.splits)
qed

lemma write_wake_event:
  assumes laws: "stream_laws S" and inv: "sys_inv S s" and en: "wthread s = W_write bs" "w_event S s"
  shows "holds (run_event S E_write_wake s)
    (\<lambda>r s'. sys_inv S s' \<and> (case r of
        Took k \<Rightarrow> data (pst s') = data (pst s) @ take k bs \<and> write_takes bs k
      | Sleeps \<Rightarrow> data (pst s') = data (pst s) \<and> data (pst s) \<noteq> [] \<and> ropen s
      | _ \<Rightarrow> False))
    (\<lambda>e s'. sys_inv S s' \<and> data (pst s') = data (pst s) \<and> write_fails s e)"
proof -
  have op: "wopen s" and bs: "bs \<noteq> []" "buffer (pst s) \<noteq> None" using inv en by (auto simp: sys_inv_def)
  note ok = sys_ok [OF inv disjI2, OF op]
  have wb: "w_blocked (pst s)" using ok(5) en by simp
  have ww: "w_woken (pst s)" using w_event_iff [OF ok(1) wb] en(2) by simp
  obtain h' where h': "pipe_block_thread S (stream_writer (pst s)) (pst s, phost s) = Ret () (pst s, h')"
    "stream_reader (pst s) \<noteq> 0" "stream_writer (pst s) \<noteq> 0"
    "us_ends S (stream_reader (pst s)) (stream_writer (pst s)) h' = Some (end_of (r_blocked (pst s)) (r_woken (pst s)), At_rest)"
    using block_thread_writer [OF laws ok(1) wb ww] by blast
  have out: "holds (pipe_block_writer_exit S (pst s, h'))
    (\<lambda>w (p', h''). w = w_woken (pst s) \<and> pipe_ok S (p', h'') \<and> same_data (pst s) p' \<and> \<not> w_blocked p' \<and>
       r_blocked p' = r_blocked (pst s) \<and> stream_writer p' = stream_writer (pst s)) (\<lambda>_ _. False)"
    by (rule writer_back [OF laws ok(1) wb h'(2,3)]) (simp add: h'(4) ww)
  have "holds (pipe_send_resume S (whalf s) bs (pst s, phost s))
      (\<lambda>r t. w_frame S (pst s) t \<and>
         (case r of
            Returns k \<Rightarrow> \<not> w_blocked (fst t) \<and> data (fst t) = data (pst s) @ take k bs \<and> write_takes bs k
          | Waits \<Rightarrow> w_blocked (fst t) \<and> data (fst t) = data (pst s) \<and> bs \<noteq> [] \<and> buffer (fst t) \<noteq> None \<and>
              data (pst s) \<noteq> [] \<and> ropen s))
      (\<lambda>e t. w_frame S (pst s) t \<and> \<not> w_blocked (fst t) \<and> data (fst t) = data (pst s) \<and> write_fails s e)"
    unfolding pipe_send_resume_def prod.case h'(1) bindO.simps
  proof (rule holds_bind [OF out], goal_cases)
    case (1 w t)
    obtain p' h'' where t: "t = (p', h'')" by fastforce
    with 1 have sd: "same_data (pst s) p'" by simp
    from same_data_eq [OF sd] sd have same: "data p' = data (pst s)" "w_alive p' = w_alive (pst s)" "r_alive p' = ropen s"
      "buffer p' \<noteq> None" using ok bs by (simp_all add: same_data_def)
    show ?case unfolding t
      by (rule send_round_frame [OF laws]) (use 1 ok bs same in \<open>simp_all add: t\<close>)
  qed simp
  from writer_call [where f = "pipe_send_resume S (whalf s) bs", OF inv op this] show ?thesis by (simp add: en)
qed

lemma reader_sleeps:
  assumes "stream_laws S" "pipe_ok S (p, h)" "\<not> r_blocked p" "data p = []" "w_alive p"
  shows "holds (pipe_block_reader_enter S (p, h))
    (\<lambda>_ t. r_frame S p t \<and> data (fst t) = data p \<and> r_blocked (fst t) \<and> \<not> r_woken (fst t)) (\<lambda>_ _. False)"
proof -
  have "holds (pipe_block_reader_enter S (p, h))
    (\<lambda>_ (p', h'). ends_ok S p' h' \<and> same_data p p' \<and> r_blocked p' \<and> \<not> r_woken p' \<and>
       w_blocked p' = w_blocked p \<and> w_woken p' = w_woken p) (\<lambda>_ _. False)"
    by (rule reader_enter_holds) (use assms in \<open>auto simp: pipe_ok_def\<close>)
  then show ?thesis
  proof (rule holds_mono, goal_cases)
    case (1 u t)
    obtain p' h' where t: "t = (p', h')" by fastforce
    with 1 have sd: "same_data p p'" by simp
    from same_data_eq [OF sd] sd have "data p' = data p" "buf_ok p' = buf_ok p" "buffer p' = buffer p" "r_alive p' = r_alive p"
      "w_alive p' = w_alive p" by (simp_all add: same_data_def)
    with 1 assms show ?case by (simp add: t pipe_ok_def r_frame_def)
  qed simp
qed

lemma reader_leaves:
  assumes "stream_laws S" "pipe_ok S (p, h)" "r_blocked p" "\<not> r_woken p"
  shows "holds (pipe_block_reader_exit S (p, h))
    (\<lambda>w t. \<not> w \<and> r_frame S p t \<and> data (fst t) = data p \<and> \<not> r_blocked (fst t)) (\<lambda>_ _. False)"
proof -
  from assms have e: "stream_reader p \<noteq> 0" "stream_writer p \<noteq> 0"
    "us_ends S (stream_reader p) (stream_writer p) h = Some (In_flight, end_of (w_blocked p) (w_woken p))"
    by (auto simp: pipe_ok_def ends_ok_def end_of_def split: if_splits)
  have "holds (pipe_block_reader_exit S (p, h))
    (\<lambda>w (p', h''). w = r_woken p \<and> pipe_ok S (p', h'') \<and> same_data p p' \<and> \<not> r_blocked p' \<and>
       w_blocked p' = w_blocked p \<and> stream_reader p' = stream_reader p) (\<lambda>_ _. False)"
    by (rule reader_back [OF assms(1-3) e(1,2)]) (simp add: e assms)
  then show ?thesis
  proof (rule holds_mono, goal_cases)
    case (1 w t)
    obtain p' h' where t: "t = (p', h')" by fastforce
    with 1 have sd: "same_data p p'" by simp
    from same_data_eq [OF sd] sd 1 assms show ?case by (simp add: t r_frame_def same_data_def)
  qed simp
qed

lemma reader_taken:
  assumes "stream_laws S" "pipe_ok S (p, h)" "r_blocked p" "r_woken p"
  shows "holds (rpoll_end S True (p, h))
    (\<lambda>b t. b \<and> r_frame S p t \<and> data (fst t) = data p \<and> \<not> r_blocked (fst t)) (\<lambda>_ _. False)"
proof -
  obtain h' where h': "us_wait S (stream_reader p) h = (16, h')" "stream_reader p \<noteq> 0" "stream_writer p \<noteq> 0"
    "us_ends S (stream_reader p) (stream_writer p) h' = Some (At_rest, end_of (w_blocked p) (w_woken p))"
    using block_thread_reader [OF assms] by blast
  have out: "holds (pipe_block_reader_exit S (p, h'))
    (\<lambda>w (p', h''). w = r_woken p \<and> pipe_ok S (p', h'') \<and> same_data p p' \<and> \<not> r_blocked p' \<and>
       w_blocked p' = w_blocked p \<and> stream_reader p' = stream_reader p) (\<lambda>_ _. False)"
    by (rule reader_back [OF assms(1-3) h'(2,3)]) (simp add: h'(4) assms(4))
  have eq: "rpoll_end S True (p, h) = pipe_read_ready S (Some (stream_reader p, 16)) (p, h')"
    by (simp add: rpoll_end_def h'(1))
  show ?thesis unfolding eq pipe_read_ready_def
  proof (rule holds_bind [OF out], goal_cases)
    case (1 w t)
    obtain p' h'' where t: "t = (p', h'')" by fastforce
    with 1 have sd: "same_data p p'" by simp
    from same_data_eq [OF sd] sd 1 assms show ?case by (simp add: t r_frame_def same_data_def holds_assert)
  qed simp
qed

lemma sys_inv_reader:
  assumes "sys_inv S s" "ropen s" "r_frame S (pst s) (p, h)" "data p = data (pst s)"
    "r_blocked p = (rt \<noteq> R_idle)" "rt = R_idle \<or> rt = R_poll"
  shows "sys_inv S (s\<lparr>pst := p, phost := h, rthread := rt\<rparr>)"
  using assms by (auto simp: sys_inv_def r_frame_def split: writer_at.splits)

lemma writer_sleeps:
  assumes "stream_laws S" "pipe_ok S (p, h)" "\<not> w_blocked p" "length (data p) = PIPE_BUF" "r_alive p"
  shows "holds (pipe_block_writer_enter S (p, h))
    (\<lambda>_ t. w_frame S p t \<and> data (fst t) = data p \<and> w_blocked (fst t) \<and> \<not> w_woken (fst t)) (\<lambda>_ _. False)"
proof -
  have "holds (pipe_block_writer_enter S (p, h))
    (\<lambda>_ (p', h'). ends_ok S p' h' \<and> same_data p p' \<and> w_blocked p' \<and> \<not> w_woken p' \<and>
       r_blocked p' = r_blocked p \<and> r_woken p' = r_woken p) (\<lambda>_ _. False)"
    by (rule writer_enter_holds) (use assms in \<open>auto simp: pipe_ok_def PIPE_BUF_def\<close>)
  then show ?thesis
  proof (rule holds_mono, goal_cases)
    case (1 u t)
    obtain p' h' where t: "t = (p', h')" by fastforce
    with 1 have sd: "same_data p p'" by simp
    from same_data_eq [OF sd] sd have "data p' = data p" "buf_ok p' = buf_ok p" "buffer p' = buffer p" "w_alive p' = w_alive p"
      "r_alive p' = r_alive p" by (simp_all add: same_data_def)
    with 1 assms show ?case by (auto simp: t pipe_ok_def w_frame_def PIPE_BUF_def)
  qed simp
qed

lemma writer_leaves:
  assumes "stream_laws S" "pipe_ok S (p, h)" "w_blocked p" "\<not> w_woken p"
  shows "holds (pipe_block_writer_exit S (p, h))
    (\<lambda>w t. \<not> w \<and> w_frame S p t \<and> data (fst t) = data p \<and> \<not> w_blocked (fst t)) (\<lambda>_ _. False)"
proof -
  from assms have e: "stream_reader p \<noteq> 0" "stream_writer p \<noteq> 0"
    "us_ends S (stream_reader p) (stream_writer p) h = Some (end_of (r_blocked p) (r_woken p), In_flight)"
    by (auto simp: pipe_ok_def ends_ok_def end_of_def split: if_splits)
  have "holds (pipe_block_writer_exit S (p, h))
    (\<lambda>w (p', h''). w = w_woken p \<and> pipe_ok S (p', h'') \<and> same_data p p' \<and> \<not> w_blocked p' \<and>
       r_blocked p' = r_blocked p \<and> stream_writer p' = stream_writer p) (\<lambda>_ _. False)"
    by (rule writer_back [OF assms(1-3) e(1,2)]) (simp add: e assms)
  then show ?thesis
  proof (rule holds_mono, goal_cases)
    case (1 w t)
    obtain p' h' where t: "t = (p', h')" by fastforce
    with 1 have sd: "same_data p p'" by simp
    from same_data_eq [OF sd] sd 1 assms show ?case by (simp add: t w_frame_def same_data_def)
  qed simp
qed

lemma writer_taken:
  assumes "stream_laws S" "pipe_ok S (p, h)" "w_blocked p" "w_woken p"
  shows "holds (wpoll_end S True (p, h))
    (\<lambda>b t. b \<and> w_frame S p t \<and> data (fst t) = data p \<and> \<not> w_blocked (fst t)) (\<lambda>_ _. False)"
proof -
  obtain h' where h': "us_wait S (stream_writer p) h = (16, h')" "stream_reader p \<noteq> 0" "stream_writer p \<noteq> 0"
    "us_ends S (stream_reader p) (stream_writer p) h' = Some (end_of (r_blocked p) (r_woken p), At_rest)"
    using block_thread_writer [OF assms] by blast
  have out: "holds (pipe_block_writer_exit S (p, h'))
    (\<lambda>w (p', h''). w = w_woken p \<and> pipe_ok S (p', h'') \<and> same_data p p' \<and> \<not> w_blocked p' \<and>
       r_blocked p' = r_blocked p \<and> stream_writer p' = stream_writer p) (\<lambda>_ _. False)"
    by (rule writer_back [OF assms(1-3) h'(2,3)]) (simp add: h'(4) assms(4))
  have eq: "wpoll_end S True (p, h) = pipe_write_ready S (Some (stream_writer p, 16)) (p, h')"
    by (simp add: wpoll_end_def h'(1))
  show ?thesis unfolding eq pipe_write_ready_def
  proof (rule holds_bind [OF out], goal_cases)
    case (1 w t)
    obtain p' h'' where t: "t = (p', h'')" by fastforce
    with 1 have sd: "same_data p p'" by simp
    from same_data_eq [OF sd] sd 1 assms show ?case by (simp add: t w_frame_def same_data_def holds_assert)
  qed simp
qed

lemma sys_inv_writer:
  assumes "sys_inv S s" "wopen s" "w_frame S (pst s) (p, h)" "data p = data (pst s)"
    "w_blocked p = (rt \<noteq> W_idle)" "rt = W_idle \<or> rt = W_poll"
  shows "sys_inv S (s\<lparr>pst := p, phost := h, wthread := rt\<rparr>)"
  using assms by (auto simp: sys_inv_def w_frame_def split: reader_at.splits)

lemma thread_last:
  "s\<lparr>rthread := x, pst := p, phost := h\<rparr> = s\<lparr>pst := p, phost := h, rthread := x\<rparr>"
  "s\<lparr>wthread := y, pst := p, phost := h\<rparr> = s\<lparr>pst := p, phost := h, wthread := y\<rparr>"
  by simp_all

lemma rpoll_event:
  assumes laws: "stream_laws S" and inv: "sys_inv S s" and en: "ropen s" "rthread s = R_idle"
  shows "holds (run_event S (E_rpoll room ev) s)
    (\<lambda>r s'. sys_inv S s' \<and> data (pst s') = data (pst s) \<and> (case r of
        Ready b \<Rightarrow> b = has POLLRDNORM ev \<and> (b \<longrightarrow> data (pst s) \<noteq> [] \<or> \<not> wopen s)
      | Sleeps \<Rightarrow> has POLLRDNORM ev \<and> data (pst s) = [] \<and> wopen s
      | _ \<Rightarrow> False))
    (\<lambda>e s'. sys_inv S s' \<and> data (pst s') = data (pst s) \<and> e = ENOMEM \<and> \<not> room)"
proof -
  note ok = sys_ok [OF inv disjI1, OF en(1)]
  have half: "is_reader (rhalf s)" using inv by (simp add: sys_inv_def)
  have empty: "(data (pst s) = []) = (buffer_len (pst s) = 0)" using ok(1) by (simp add: pipe_ok_def data_empty)
  show ?thesis
  proof (cases "has POLLRDNORM ev \<and> data (pst s) = [] \<and> wopen s")
    case False
    with half inv ok empty show ?thesis
      by (auto simp: pipe_poll_register_def on_pipe_def)
  next
    case True
    have eq: "pipe_poll_register S (rhalf s) room ev (pst s, phost s) = bindO (pipe_block_reader_enter S (pst s, phost s)) (\<lambda>_ s.
         if room then Ret Waits s else bindO (pipe_block_reader_exit S s) (\<lambda>_ s. Err ENOMEM s))"
      using True half ok empty by (simp add: pipe_poll_register_def)
    have "holds (pipe_poll_register S (rhalf s) room ev (pst s, phost s))
      (\<lambda>r t. r = Waits \<and> r_frame S (pst s) t \<and> data (fst t) = data (pst s) \<and> r_blocked (fst t))
      (\<lambda>e t. e = ENOMEM \<and> \<not> room \<and> r_frame S (pst s) t \<and> data (fst t) = data (pst s) \<and> \<not> r_blocked (fst t))"
      unfolding eq
    proof (rule holds_bind [OF reader_sleeps [OF laws ok(1)]], goal_cases)
      case (4 u t)
      obtain p' h' where t: "t = (p', h')" by fastforce
      with 4 have l: "pipe_ok S (p', h')" "r_blocked p'" "\<not> r_woken p'" by (simp_all add: r_frame_def)
      have "holds (bindO (pipe_block_reader_exit S (p', h')) (\<lambda>_ s. Err ENOMEM s)) (\<lambda>_ _. False)
        (\<lambda>e t. e = ENOMEM \<and> r_frame S p' t \<and> data (fst t) = data p' \<and> \<not> r_blocked (fst t))"
        by (rule holds_bind [OF reader_leaves [OF laws l]]) simp_all
      then have "holds (bindO (pipe_block_reader_exit S (p', h')) (\<lambda>_ s. Err ENOMEM s)) (\<lambda>_ _. False)
        (\<lambda>e t. e = ENOMEM \<and> r_frame S (pst s) t \<and> data (fst t) = data (pst s) \<and> \<not> r_blocked (fst t))"
        by (rule holds_mono) (use 4 in \<open>auto simp: t r_frame_def\<close>)
      note out = holds_mono [OF this]
      show ?case using 4 by (cases room) (simp, simp only: t if_False, rule out, simp_all)
    qed (use ok en True in simp_all)
    then have "holds (on_pipe (pipe_poll_register S (rhalf s) room ev) s)
      (\<lambda>r s'. r = Waits \<and> sys_inv S (s'\<lparr>rthread := R_poll\<rparr>) \<and> data (pst s') = data (pst s))
      (\<lambda>e s'. e = ENOMEM \<and> \<not> room \<and> sys_inv S (s'\<lparr>rthread := R_idle\<rparr>) \<and> rthread s' = R_idle \<and> data (pst s') = data (pst s))"
      unfolding on_pipe_def holds_lift_part
      by (rule holds_mono) (auto intro!: sys_inv_reader [OF inv en(1)] simp: en)
    then show ?thesis unfolding run_event.simps
      by (rule holds_bind) (use True in \<open>auto simp: idle_same\<close>)
  qed
qed

lemma rpoll_end_event:
  assumes laws: "stream_laws S" and inv: "sys_inv S s" and en: "rthread s = R_poll"
  shows "holds (run_event S E_rpoll_end s)
    (\<lambda>r s'. sys_inv S s' \<and> data (pst s') = data (pst s) \<and> r = Ready (data (pst s) \<noteq> [] \<or> \<not> wopen s)) (\<lambda>_ _. False)"
proof -
  have op: "ropen s" using inv en by (auto simp: sys_inv_def)
  note ok = sys_ok [OF inv disjI1, OF op]
  have rb: "r_blocked (pst s)" using ok(4) en by simp
  have ready: "r_event S s = r_woken (pst s)" "r_woken (pst s) = (data (pst s) \<noteq> [] \<or> \<not> wopen s)"
    using r_event_iff [OF ok(1) rb] ok(1,3) rb by (auto simp: pipe_ok_def)
  have "holds (rpoll_end S (r_event S s) (pst s, phost s))
    (\<lambda>b t. b = r_woken (pst s) \<and> r_frame S (pst s) t \<and> data (fst t) = data (pst s) \<and> \<not> r_blocked (fst t)) (\<lambda>_ _. False)"
  proof (cases "r_woken (pst s)")
    case True
    then show ?thesis unfolding ready(1) using reader_taken [OF laws ok(1) rb] by simp
  next
    case False
    have eq: "rpoll_end S False (pst s, phost s) = bindO (pipe_block_reader_exit S (pst s, phost s)) (\<lambda>_ s. Ret False s)"
      by (simp add: rpoll_end_def pipe_read_ready_def case_prod_unfold)
    show ?thesis unfolding ready(1) using False
      by (simp add: eq, intro holds_bind [OF reader_leaves [OF laws ok(1) rb False]]) simp_all
  qed
  then have "holds (on_pipe (rpoll_end S (r_event S s)) (s\<lparr>rthread := R_idle\<rparr>))
      (\<lambda>b s'. b = r_woken (pst s) \<and> sys_inv S s' \<and> data (pst s') = data (pst s)) (\<lambda>_ _. False)"
    unfolding on_pipe_def holds_lift_part
    by (simp, elim holds_mono) (auto simp: thread_last intro!: sys_inv_reader [OF inv op])
  then show ?thesis unfolding run_event.simps by (rule holds_bind) (use ready in auto)
qed

lemma wpoll_event:
  assumes laws: "stream_laws S" and inv: "sys_inv S s" and en: "wopen s" "wthread s = W_idle"
  shows "holds (run_event S (E_wpoll room ev) s)
    (\<lambda>r s'. sys_inv S s' \<and> data (pst s') = data (pst s) \<and> (case r of
        Ready b \<Rightarrow> b = has POLLWRNORM ev \<and> (b \<longrightarrow> length (data (pst s)) < PIPE_BUF \<or> \<not> ropen s)
      | Sleeps \<Rightarrow> has POLLWRNORM ev \<and> length (data (pst s)) = PIPE_BUF \<and> ropen s
      | _ \<Rightarrow> False))
    (\<lambda>e s'. sys_inv S s' \<and> data (pst s') = data (pst s) \<and> e = ENOMEM \<and> \<not> room)"
proof -
  note ok = sys_ok [OF inv disjI2, OF en(1)]
  have half: "\<not> is_reader (whalf s)" using inv by (simp add: sys_inv_def)
  have full: "(length (data (pst s)) = PIPE_BUF) = (buffer_cap (pst s) \<noteq> 0 \<and> \<not> buffer_len (pst s) < buffer_cap (pst s))"
    "length (data (pst s)) \<le> PIPE_BUF"
    using ok(1) data_len [of "pst s"] by (auto simp: pipe_ok_def buf_ok_def PIPE_BUF_def split: option.splits)
  show ?thesis
  proof (cases "has POLLWRNORM ev \<and> length (data (pst s)) = PIPE_BUF \<and> ropen s")
    case False
    with half inv ok full show ?thesis
      by (auto simp: pipe_poll_register_def on_pipe_def)
  next
    case True
    have eq: "pipe_poll_register S (whalf s) room ev (pst s, phost s) = bindO (pipe_block_writer_enter S (pst s, phost s)) (\<lambda>_ s.
         if room then Ret Waits s else bindO (pipe_block_writer_exit S s) (\<lambda>_ s. Err ENOMEM s))"
      using True half ok full by (simp add: pipe_poll_register_def)
    have "holds (pipe_poll_register S (whalf s) room ev (pst s, phost s))
      (\<lambda>r t. r = Waits \<and> w_frame S (pst s) t \<and> data (fst t) = data (pst s) \<and> w_blocked (fst t))
      (\<lambda>e t. e = ENOMEM \<and> \<not> room \<and> w_frame S (pst s) t \<and> data (fst t) = data (pst s) \<and> \<not> w_blocked (fst t))"
      unfolding eq
    proof (rule holds_bind [OF writer_sleeps [OF laws ok(1)]], goal_cases)
      case (4 u t)
      obtain p' h' where t: "t = (p', h')" by fastforce
      with 4 have l: "pipe_ok S (p', h')" "w_blocked p'" "\<not> w_woken p'" by (simp_all add: w_frame_def)
      have "holds (bindO (pipe_block_writer_exit S (p', h')) (\<lambda>_ s. Err ENOMEM s)) (\<lambda>_ _. False)
        (\<lambda>e t. e = ENOMEM \<and> w_frame S p' t \<and> data (fst t) = data p' \<and> \<not> w_blocked (fst t))"
        by (rule holds_bind [OF writer_leaves [OF laws l]]) simp_all
      then have "holds (bindO (pipe_block_writer_exit S (p', h')) (\<lambda>_ s. Err ENOMEM s)) (\<lambda>_ _. False)
        (\<lambda>e t. e = ENOMEM \<and> w_frame S (pst s) t \<and> data (fst t) = data (pst s) \<and> \<not> w_blocked (fst t))"
        by (rule holds_mono) (use 4 in \<open>auto simp: t w_frame_def\<close>)
      note out = holds_mono [OF this]
      show ?case using 4 by (cases room) (simp, simp only: t if_False, rule out, simp_all)
    qed (use ok en True in simp_all)
    then have "holds (on_pipe (pipe_poll_register S (whalf s) room ev) s)
      (\<lambda>r s'. r = Waits \<and> sys_inv S (s'\<lparr>wthread := W_poll\<rparr>) \<and> data (pst s') = data (pst s))
      (\<lambda>e s'. e = ENOMEM \<and> \<not> room \<and> sys_inv S (s'\<lparr>wthread := W_idle\<rparr>) \<and> wthread s' = W_idle \<and> data (pst s') = data (pst s))"
      unfolding on_pipe_def holds_lift_part
      by (rule holds_mono) (auto intro!: sys_inv_writer [OF inv en(1)] simp: en)
    then show ?thesis unfolding run_event.simps
      by (rule holds_bind) (use True in \<open>auto simp: idle_same\<close>)
  qed
qed

lemma wpoll_end_event:
  assumes laws: "stream_laws S" and inv: "sys_inv S s" and en: "wthread s = W_poll"
  shows "holds (run_event S E_wpoll_end s)
    (\<lambda>r s'. sys_inv S s' \<and> data (pst s') = data (pst s) \<and> (\<exists>b. r = Ready b \<and>
       (if b then length (data (pst s)) < PIPE_BUF \<or> \<not> ropen s else data (pst s) \<noteq> [] \<and> ropen s))) (\<lambda>_ _. False)"
proof -
  have op: "wopen s" using inv en by (auto simp: sys_inv_def)
  note ok = sys_ok [OF inv disjI2, OF op]
  have rb: "w_blocked (pst s)" using ok(5) en by simp
  have ready: "w_event S s = w_woken (pst s)" "w_woken (pst s) \<longrightarrow> length (data (pst s)) < PIPE_BUF \<or> \<not> ropen s"
    "\<not> w_woken (pst s) \<longrightarrow> data (pst s) \<noteq> [] \<and> ropen s"
    using w_event_iff [OF ok(1) rb] ok(1,2) rb by (auto simp: pipe_ok_def)
  have "holds (wpoll_end S (w_event S s) (pst s, phost s))
    (\<lambda>b t. b = w_woken (pst s) \<and> w_frame S (pst s) t \<and> data (fst t) = data (pst s) \<and> \<not> w_blocked (fst t)) (\<lambda>_ _. False)"
  proof (cases "w_woken (pst s)")
    case True
    then show ?thesis unfolding ready(1) using writer_taken [OF laws ok(1) rb] by simp
  next
    case False
    have eq: "wpoll_end S False (pst s, phost s) = bindO (pipe_block_writer_exit S (pst s, phost s)) (\<lambda>_ s. Ret False s)"
      by (simp add: wpoll_end_def pipe_write_ready_def case_prod_unfold)
    show ?thesis unfolding ready(1) using False
      by (simp add: eq, intro holds_bind [OF writer_leaves [OF laws ok(1) rb False]]) simp_all
  qed
  then have "holds (on_pipe (wpoll_end S (w_event S s)) (s\<lparr>wthread := W_idle\<rparr>))
      (\<lambda>b s'. b = w_woken (pst s) \<and> sys_inv S s' \<and> data (pst s') = data (pst s)) (\<lambda>_ _. False)"
    unfolding on_pipe_def holds_lift_part
    by (simp, elim holds_mono) (auto simp: thread_last intro!: sys_inv_writer [OF inv op])
  then show ?thesis unfolding run_event.simps by (rule holds_bind) (use ready in auto)
qed

lemma any_alive: "has 3 w = (has PIPE_READER_ALIVE w \<or> has PIPE_WRITER_ALIVE w)"
  using has_or [of 1 2 w] by simp

lemma rclose_event:
  assumes laws: "stream_laws S" and inv: "sys_inv S s" and en: "ropen s" "rthread s = R_idle"
  shows "holds (run_event S E_rclose s)
    (\<lambda>r s'. sys_inv S s' \<and> r = Done_with \<and> \<not> ropen s' \<and> wopen s' = wopen s \<and> sent s' = sent s \<and>
       (if wopen s then data (pst s') = data (pst s) else buffer (pst s') = None)) (\<lambda>_ _. False)"
proof -
  note ok = sys_ok [OF inv disjI1, OF en(1)]
  have half: "is_reader (rhalf s)" using inv by (simp add: sys_inv_def)
  define p where "p = pst s\<lparr>flags := clearf PIPE_READER_ALIVE (flags (pst s))\<rparr>"
  have d: "data p = data (pst s)" "buf_ok p = buf_ok (pst s)"
    by (cases "buffer (pst s)"; simp add: p_def data_def buf_ok_def)+
  have p: "ends_ok S p (phost s)" "\<not> r_alive p" "w_alive p = wopen s" "\<not> r_blocked p" "w_blocked p = w_blocked (pst s)"
    "data p = data (pst s)" "buf_ok p" "buffer p = buffer (pst s)"
    using ok en by (simp_all add: d) (auto simp: p_def pipe_ok_def ends_ok_def)
  show ?thesis
  proof (cases "wopen s")
    case False
    with p ok half inv en show ?thesis
      by (auto simp: on_pipe_def pipe_free_def pipe_state_free_def any_alive sys_inv_def Let_def p_def [symmetric] split: writer_at.splits)
  next
    case True
    have "holds (pipe_unblock_writer S (p, phost s))
      (\<lambda>_ (p', h'). ends_ok S p' h' \<and> same_data p p' \<and> r_blocked p' = r_blocked p \<and> r_woken p' = r_woken p \<and>
         w_blocked p' = w_blocked p \<and> w_woken p' = w_blocked p) (\<lambda>_ _. False)"
      by (rule unblock_writer_holds [OF laws p(1,4)])
    then obtain p' h' where u: "pipe_unblock_writer S (p, phost s) = Ret () (p', h')" "ends_ok S p' h'" "same_data p p'"
      "\<not> r_blocked p'" "w_blocked p' = w_blocked (pst s)" "w_woken p' = w_blocked (pst s)"
      using p(4,5) by (auto simp: holds_no_err)
    from same_data_eq [OF u(3)] u(3) p True have "data p' = data (pst s)" "buf_ok p'" "\<not> r_alive p'" "w_alive p'"
      "buffer p' = buffer (pst s)" by (simp_all add: same_data_def)
    with u p ok True half inv en show ?thesis
      by (auto simp: on_pipe_def pipe_free_def any_alive sys_inv_def pipe_ok_def Let_def p_def [symmetric] split: writer_at.splits)
  qed
qed

lemma wclose_event:
  assumes laws: "stream_laws S" and inv: "sys_inv S s" and en: "wopen s" "wthread s = W_idle"
  shows "holds (run_event S E_wclose s)
    (\<lambda>r s'. sys_inv S s' \<and> r = Done_with \<and> \<not> wopen s' \<and> ropen s' = ropen s \<and> sent s' = sent s \<and>
       (if ropen s then data (pst s') = data (pst s) else buffer (pst s') = None)) (\<lambda>_ _. False)"
proof -
  note ok = sys_ok [OF inv disjI2, OF en(1)]
  have half: "\<not> is_reader (whalf s)" using inv by (simp add: sys_inv_def)
  define p where "p = pst s\<lparr>flags := clearf PIPE_WRITER_ALIVE (flags (pst s))\<rparr>"
  have d: "data p = data (pst s)" "buf_ok p = buf_ok (pst s)"
    by (cases "buffer (pst s)"; simp add: p_def data_def buf_ok_def)+
  have p: "ends_ok S p (phost s)" "\<not> w_alive p" "r_alive p = ropen s" "\<not> w_blocked p" "r_blocked p = r_blocked (pst s)"
    "data p = data (pst s)" "buf_ok p" "buffer p = buffer (pst s)"
    using ok en by (simp_all add: d) (auto simp: p_def pipe_ok_def ends_ok_def)
  show ?thesis
  proof (cases "ropen s")
    case False
    with p ok half inv en show ?thesis
      by (auto simp: on_pipe_def pipe_free_def pipe_state_free_def any_alive sys_inv_def Let_def p_def [symmetric] split: reader_at.splits)
  next
    case True
    have "holds (pipe_unblock_reader S (p, phost s))
      (\<lambda>_ (p', h'). ends_ok S p' h' \<and> same_data p p' \<and> r_blocked p' = r_blocked p \<and> r_woken p' = r_blocked p \<and>
         w_blocked p' = w_blocked p \<and> w_woken p' = w_woken p) (\<lambda>_ _. False)"
      by (rule unblock_reader_holds [OF laws p(1,4)])
    then obtain p' h' where u: "pipe_unblock_reader S (p, phost s) = Ret () (p', h')" "ends_ok S p' h'" "same_data p p'"
      "\<not> w_blocked p'" "r_blocked p' = r_blocked (pst s)" "r_woken p' = r_blocked (pst s)"
      using p(4,5) by (auto simp: holds_no_err)
    from same_data_eq [OF u(3)] u(3) p True have "data p' = data (pst s)" "buf_ok p'" "\<not> w_alive p'" "r_alive p'"
      "buffer p' = buffer (pst s)" by (simp_all add: same_data_def)
    with u p ok True half inv en show ?thesis
      by (auto simp: on_pipe_def pipe_free_def any_alive sys_inv_def pipe_ok_def Let_def p_def [symmetric] split: reader_at.splits)
  qed
qed

section \<open>The contract of a pipe\<close>

text \<open>What an event may answer in a state, with the state after it, and the errors it may give.\<close>

fun allowed :: "pipe_event \<Rightarrow> 'h pipe_sys \<Rightarrow> pipe_result \<Rightarrow> 'h pipe_sys \<Rightarrow> bool" where
  "allowed (E_read _ n) s r s' = (case r of
       Got bs \<Rightarrow> data (pst s) = bs @ data (pst s') \<and> read_gives s n bs
     | Sleeps \<Rightarrow> data (pst s') = data (pst s) \<and> data (pst s) = [] \<and> wopen s
     | _ \<Rightarrow> False)"
| "allowed E_read_wake s r s' = (\<exists>n bs. rthread s = R_read n \<and> r = Got bs \<and> data (pst s) = bs @ data (pst s') \<and> read_gives s n bs)"
| "allowed (E_write _ _ bs) s r s' = (case r of
       Took k \<Rightarrow> data (pst s') = data (pst s) @ take k bs \<and> write_takes bs k
     | Sleeps \<Rightarrow> data (pst s') = data (pst s) \<and> data (pst s) \<noteq> [] \<and> ropen s
     | _ \<Rightarrow> False)"
| "allowed E_write_wake s r s' = (\<exists>bs. wthread s = W_write bs \<and> (case r of
       Took k \<Rightarrow> data (pst s') = data (pst s) @ take k bs \<and> write_takes bs k
     | Sleeps \<Rightarrow> data (pst s') = data (pst s) \<and> data (pst s) \<noteq> [] \<and> ropen s
     | _ \<Rightarrow> False))"
| "allowed (E_rsetfl fl) s r s' = (s' = s\<lparr>rhalf := (rhalf s)\<lparr>blocking := \<not> has O_NONBLOCK fl\<rparr>\<rparr>)"
| "allowed (E_wsetfl fl) s r s' = (s' = s\<lparr>whalf := (whalf s)\<lparr>blocking := \<not> has O_NONBLOCK fl\<rparr>\<rparr>)"
| "allowed (E_rpoll _ ev) s r s' = (data (pst s') = data (pst s) \<and> (case r of
       Ready b \<Rightarrow> b = has POLLRDNORM ev \<and> (b \<longrightarrow> data (pst s) \<noteq> [] \<or> \<not> wopen s)
     | Sleeps \<Rightarrow> has POLLRDNORM ev \<and> data (pst s) = [] \<and> wopen s
     | _ \<Rightarrow> False))"
| "allowed (E_wpoll _ ev) s r s' = (data (pst s') = data (pst s) \<and> (case r of
       Ready b \<Rightarrow> b = has POLLWRNORM ev \<and> (b \<longrightarrow> length (data (pst s)) < PIPE_BUF \<or> \<not> ropen s)
     | Sleeps \<Rightarrow> has POLLWRNORM ev \<and> length (data (pst s)) = PIPE_BUF \<and> ropen s
     | _ \<Rightarrow> False))"
| "allowed E_rpoll_end s r s' = (data (pst s') = data (pst s) \<and> r = Ready (data (pst s) \<noteq> [] \<or> \<not> wopen s))"
| "allowed E_wpoll_end s r s' = (data (pst s') = data (pst s) \<and> (\<exists>b. r = Ready b \<and>
     (if b then length (data (pst s)) < PIPE_BUF \<or> \<not> ropen s else data (pst s) \<noteq> [] \<and> ropen s)))"
| "allowed E_rclose s r s' = (\<not> ropen s' \<and> wopen s' = wopen s \<and> sent s' = sent s \<and>
     (if wopen s then data (pst s') = data (pst s) else buffer (pst s') = None))"
| "allowed E_wclose s r s' = (\<not> wopen s' \<and> ropen s' = ropen s \<and> sent s' = sent s \<and>
     (if ropen s then data (pst s') = data (pst s) else buffer (pst s') = None))"

fun may_fail :: "pipe_event \<Rightarrow> 'h pipe_sys \<Rightarrow> errno \<Rightarrow> bool" where
  "may_fail (E_read bad n) s e = (read_fails s e \<or> bad \<and> e = EINVAL)"
| "may_fail (E_write bad block bs) s e =
     (write_fails s e \<or> bad \<and> e = EINVAL \<or> e = ENOMEM \<and> block = None \<and> data (pst s) = [])"
| "may_fail E_write_wake s e = write_fails s e"
| "may_fail (E_rpoll room ev) s e = (e = ENOMEM \<and> \<not> room)"
| "may_fail (E_wpoll room ev) s e = (e = ENOMEM \<and> \<not> room)"
| "may_fail _ s e = False"

lemma event_holds:
  assumes laws: "stream_laws S" and inv: "sys_inv S s" and en: "enabled S ev s"
  shows "holds (run_event S ev s) (\<lambda>r s'. sys_inv S s' \<and> allowed ev s r s')
    (\<lambda>e s'. sys_inv S s' \<and> data (pst s') = data (pst s) \<and> may_fail ev s e)"
proof (cases ev)
  case (E_read bad n)
  with en show ?thesis using read_event [OF laws inv] by simp
next
  case E_read_wake
  with en obtain n where n: "rthread s = R_read n" "r_event S s" by (auto split: reader_at.splits)
  show ?thesis unfolding E_read_wake
    by (rule holds_mono [OF read_wake_event [OF laws inv n]]) (auto simp: n split: pipe_result.splits)
next
  case (E_write bad block bs)
  with en have "wopen s" "wthread s = W_idle" "\<forall>b. block = Some b \<longrightarrow> length b = PIPE_BUF" by auto
  from write_event [OF laws inv this] show ?thesis unfolding E_write by simp
next
  case E_write_wake
  with en obtain bs where bs: "wthread s = W_write bs" "w_event S s" by (auto split: writer_at.splits)
  show ?thesis unfolding E_write_wake
    by (rule holds_mono [OF write_wake_event [OF laws inv bs]]) (simp_all add: bs)
next
  case (E_rsetfl fl)
  with inv show ?thesis by (auto simp: sys_inv_def pipe_fcntl_setfl_def split: writer_at.splits)
next
  case (E_wsetfl fl)
  with inv show ?thesis by (auto simp: sys_inv_def pipe_fcntl_setfl_def split: writer_at.splits)
next
  case (E_rpoll room ev)
  with en show ?thesis using rpoll_event [OF laws inv] by simp
next
  case (E_wpoll room ev)
  with en show ?thesis using wpoll_event [OF laws inv] by simp
next
  case E_rpoll_end
  with en have "rthread s = R_poll" by simp
  from holds_mono [OF rpoll_end_event [OF laws inv this]] show ?thesis unfolding E_rpoll_end by simp
next
  case E_wpoll_end
  with en have "wthread s = W_poll" by simp
  from holds_mono [OF wpoll_end_event [OF laws inv this]] show ?thesis unfolding E_wpoll_end by simp
next
  case E_rclose
  with en have "ropen s" "rthread s = R_idle" by simp_all
  from holds_mono [OF rclose_event [OF laws inv this]] show ?thesis unfolding E_rclose by simp
next
  case E_wclose
  with en have "wopen s" "wthread s = W_idle" by simp_all
  from holds_mono [OF wclose_event [OF laws inv this]] show ?thesis unfolding E_wclose by simp
qed

lemma init_inv:
  "sys_inv S \<lparr>pst = pipe_init, phost = h, rhalf = \<lparr>is_reader = True, blocking = b\<rparr>,
      whalf = \<lparr>is_reader = False, blocking = b\<rparr>, ropen = True, wopen = True, rthread = R_idle, wthread = W_idle,
      sent = [], received = []\<rparr>"
  by (simp add: sys_inv_def pipe_ok_def pipe_init_def ends_ok_def buf_ok_def data_def)

lemma reach_inv:
  assumes "stream_laws S" "pipe_reach S s"
  shows "sys_inv S s"
  using assms(2)
proof (induction rule: pipe_reach.induct)
  case (start h b)
  show ?case by (rule init_inv)
next
  case (event s ev s')
  from event_holds [OF assms(1) event.IH event(2)] event(3) show ?case by (cases "run_event S ev s") auto
qed

section \<open>Properties\<close>

text \<open>A stream on which the laws hold: its two handles are 1 and 2, and the host keeps the state of its ends.\<close>

definition toy_stream :: "(end_state \<times> end_state) option unit_stream" where
  "toy_stream = \<lparr>
     us_new = (\<lambda>_. (0x200000001, Some (At_rest, At_rest))),
     us_drop_readable = (\<lambda>_ h. h),
     us_drop_writable = (\<lambda>_ h. h),
     us_cancel_read = (\<lambda>_ h. (CANCELLED, case h of None \<Rightarrow> None | Some (_, w) \<Rightarrow> Some (At_rest, w))),
     us_cancel_write = (\<lambda>_ h. (CANCELLED, case h of None \<Rightarrow> None | Some (r, _) \<Rightarrow> Some (r, At_rest))),
     us_read = (\<lambda>_ h. case h of None \<Rightarrow> (STATUS_BLOCKED, None)
       | Some (_, w) \<Rightarrow> if w = In_flight then (16, Some (At_rest, Completed)) else (STATUS_BLOCKED, Some (In_flight, w))),
     us_write = (\<lambda>_ h. case h of None \<Rightarrow> (STATUS_BLOCKED, None)
       | Some (r, _) \<Rightarrow> if r = In_flight then (16, Some (Completed, At_rest)) else (STATUS_BLOCKED, Some (r, In_flight))),
     us_wait = (\<lambda>x h. (16, case h of None \<Rightarrow> None
       | Some (r, w) \<Rightarrow> if x = 1 then Some (At_rest, w) else Some (r, At_rest))),
     us_ends = (\<lambda>r w h. if r = 1 \<and> w = 2 then h else None)\<rparr>"

lemma toy_laws: "stream_laws toy_stream"
  by (auto simp: stream_laws_def toy_stream_def split: if_splits)

definition toy_start :: "(end_state \<times> end_state) option pipe_sys" where
  "toy_start = \<lparr>pst = pipe_init, phost = None, rhalf = \<lparr>is_reader = True, blocking = True\<rparr>,
      whalf = \<lparr>is_reader = False, blocking = True\<rparr>, ropen = True, wopen = True, rthread = R_idle, wthread = W_idle,
      sent = [], received = []\<rparr>"

text \<open>A read that sleeps, and then a write of three bytes.\<close>

definition toy_asleep :: "(end_state \<times> end_state) option pipe_sys" where
  "toy_asleep = out_state (run_event toy_stream (E_read False 2) toy_start)"

definition toy_woken :: "(end_state \<times> end_state) option pipe_sys" where
  "toy_woken = out_state (run_event toy_stream (E_write False (Some (replicate PIPE_BUF 0)) [7, 8, 9]) toy_asleep)"

lemma toy_asleep: "run_event toy_stream (E_read False 2) toy_start = Ret Sleeps toy_asleep"
  "toy_asleep = toy_start\<lparr>pst := pipe_init\<lparr>flags := 7, stream_reader := 1, stream_writer := 2\<rparr>,
     phost := Some (In_flight, At_rest), rthread := R_read 2\<rparr>"
proof -
  have "run_event toy_stream (E_read False 2) toy_start = Ret Sleeps (toy_start\<lparr>pst := pipe_init\<lparr>flags := 7, stream_reader := 1, stream_writer := 2\<rparr>,
     phost := Some (In_flight, At_rest), rthread := R_read 2\<rparr>)"
    by code_simp
  then show "run_event toy_stream (E_read False 2) toy_start = Ret Sleeps toy_asleep"
    "toy_asleep = toy_start\<lparr>pst := pipe_init\<lparr>flags := 7, stream_reader := 1, stream_writer := 2\<rparr>,
       phost := Some (In_flight, At_rest), rthread := R_read 2\<rparr>" by (simp_all add: toy_asleep_def out_state_def)
qed

lemma toy_woken: "run_event toy_stream (E_write False (Some (replicate PIPE_BUF 0)) [7, 8, 9]) toy_asleep = Ret (Took 3) toy_woken"
  "data (pst toy_woken) = [7, 8, 9]" "rthread toy_woken = R_read 2" "wthread toy_woken = W_idle" "r_event toy_stream toy_woken"
  "ropen toy_woken" "wopen toy_woken" "sent toy_woken = [7, 8, 9]" "received toy_woken = []"
proof -
  have len: "PIPE_BUF = 4096" by (simp add: PIPE_BUF_def)
  have "\<exists>s'. run_event toy_stream (E_write False (Some (replicate PIPE_BUF 0)) [7, 8, 9]) toy_asleep = Ret (Took 3) s' \<and>
    data (pst s') = [7, 8, 9] \<and> rthread s' = R_read 2 \<and> wthread s' = W_idle \<and> r_event toy_stream s' \<and> ropen s' \<and> wopen s' \<and>
    sent s' = [7, 8, 9] \<and> received s' = []"
    by (simp add: toy_asleep(2) toy_start_def on_pipe_def pipe_sendto_def pipe_send_round_def pipe_init_def has_def setf_def
        pipe_unblock_reader_def toy_stream_def data_def r_event_def len waitable_state_def waitable_count_def)
  then show "run_event toy_stream (E_write False (Some (replicate PIPE_BUF 0)) [7, 8, 9]) toy_asleep = Ret (Took 3) toy_woken"
    "data (pst toy_woken) = [7, 8, 9]" "rthread toy_woken = R_read 2" "wthread toy_woken = W_idle" "r_event toy_stream toy_woken"
    "ropen toy_woken" "wopen toy_woken" "sent toy_woken = [7, 8, 9]" "received toy_woken = []"
    by (auto simp: toy_woken_def out_state_def)
qed

lemma toy_reach: "pipe_reach toy_stream toy_start" "pipe_reach toy_stream toy_asleep" "pipe_reach toy_stream toy_woken"
proof -
  show 1: "pipe_reach toy_stream toy_start" unfolding toy_start_def by (rule pipe_reach.start)
  show 2: "pipe_reach toy_stream toy_asleep"
    by (rule pipe_reach.event [OF 1, where ev = "E_read False 2"]) (simp_all only: toy_asleep(1) after.simps, simp add: toy_start_def)
  show "pipe_reach toy_stream toy_woken"
    by (rule pipe_reach.event [OF 2, where ev = "E_write False (Some (replicate PIPE_BUF 0)) [7, 8, 9]"])
      (simp_all only: toy_woken(1) after.simps, simp add: toy_asleep(2) toy_start_def)
qed

text \<open>C3: Whatever reads, writes, polls, changes of mode and closes two threads perform on a pipe, in any
  order, the bytes the reads returned are a beginning of the bytes the writes took, in order; while a
  half is open the difference is exactly what is in the buffer, which never holds more than
  \<open>PIPE_BUF\<close> bytes.
\<close>

theorem pipe_fifo:
  assumes "stream_laws S" "pipe_reach S s"
  shows "prefix (received s) (sent s) \<and>
    (ropen s \<or> wopen s \<longrightarrow> sent s = received s @ data (pst s) \<and> length (data (pst s)) \<le> PIPE_BUF)"
proof -
  have inv: "sys_inv S s" by (rule reach_inv [OF assms])
  have "length (data (pst s)) \<le> PIPE_BUF" if "ropen s \<or> wopen s"
    using sys_ok(1) [OF inv that] data_len [of "pst s"] by (auto simp: pipe_ok_def buf_ok_def split: option.splits)
  with inv show ?thesis by (auto simp: sys_inv_def split: if_splits)
qed

theorem pipe_fifo_witness: "stream_laws toy_stream \<and> pipe_reach toy_stream toy_woken \<and> sent toy_woken = [7, 8, 9] \<and>
  prefix (received toy_woken) (sent toy_woken)"
  using pipe_fifo [OF toy_laws toy_reach(3)] toy_laws toy_reach(3) toy_woken by simp



text \<open>C2: No wakeup is lost and two threads never wait for each other. A thread asleep at the reading half
  has an event exactly when there are bytes to read or the writer is gone; one asleep at the
  writing half has an event when the pipe is empty or the reader is gone, and only if there
  is room or the reader is gone. When both sleep, one of them has an event. A read that is woken returns,
  with bytes unless the writer is gone; a write that is woken with an empty pipe returns, and so does
  one whose reader is gone.
\<close>

theorem pipe_no_lost_wakeup:
  assumes "stream_laws S" "pipe_reach S s"
  shows "(rthread s \<noteq> R_idle \<longrightarrow> r_event S s = (data (pst s) \<noteq> [] \<or> \<not> wopen s)) \<and>
    (wthread s \<noteq> W_idle \<longrightarrow> (data (pst s) = [] \<or> \<not> ropen s \<longrightarrow> w_event S s) \<and>
       (w_event S s \<longrightarrow> length (data (pst s)) < PIPE_BUF \<or> \<not> ropen s)) \<and>
    (rthread s \<noteq> R_idle \<and> wthread s \<noteq> W_idle \<longrightarrow> r_event S s \<or> w_event S s) \<and>
    (\<forall>n. rthread s = R_read n \<and> r_event S s \<longrightarrow>
       (\<exists>bs s'. run_event S E_read_wake s = Ret (Got bs) s' \<and> (bs \<noteq> [] \<or> \<not> wopen s))) \<and>
    (\<forall>bs. wthread s = W_write bs \<and> (data (pst s) = [] \<or> \<not> ropen s) \<longrightarrow>
       (\<exists>k s'. run_event S E_write_wake s = Ret (Took k) s' \<and> 0 < k) \<or>
       (\<exists>s'. run_event S E_write_wake s = Err EPIPE s' \<and> \<not> ropen s))"
proof -
  have inv: "sys_inv S s" by (rule reach_inv [OF assms])
  have r: "r_event S s = (data (pst s) \<noteq> [] \<or> \<not> wopen s)" if "rthread s \<noteq> R_idle"
  proof -
    have op: "ropen s" using inv that by (simp add: sys_inv_def)
    note ok = sys_ok [OF inv disjI1, OF op]
    show ?thesis using r_event_iff [OF ok(1)] ok that by (auto simp: pipe_ok_def)
  qed
  have w: "data (pst s) = [] \<or> \<not> ropen s \<longrightarrow> w_event S s" "w_event S s \<longrightarrow> length (data (pst s)) < PIPE_BUF \<or> \<not> ropen s"
    if "wthread s \<noteq> W_idle"
  proof -
    have op: "wopen s" using inv that by (simp add: sys_inv_def)
    note ok = sys_ok [OF inv disjI2, OF op]
    show "data (pst s) = [] \<or> \<not> ropen s \<longrightarrow> w_event S s" "w_event S s \<longrightarrow> length (data (pst s)) < PIPE_BUF \<or> \<not> ropen s"
      using w_event_iff [OF ok(1)] ok that by (auto simp: pipe_ok_def)
  qed
  have rr: "\<exists>bs s'. run_event S E_read_wake s = Ret (Got bs) s' \<and> (bs \<noteq> [] \<or> \<not> wopen s)"
    if "rthread s = R_read n" "r_event S s" for n
    using read_wake_event [OF assms(1) inv that] inv that
    by (cases "run_event S E_read_wake s") (auto simp: read_gives_def sys_inv_def split: pipe_result.splits)
  have ww: "(\<exists>k s'. run_event S E_write_wake s = Ret (Took k) s' \<and> 0 < k) \<or>
       (\<exists>s'. run_event S E_write_wake s = Err EPIPE s' \<and> \<not> ropen s)"
    if e: "wthread s = W_write bs" "data (pst s) = [] \<or> \<not> ropen s" for bs
  proof -
    have ev: "w_event S s" using w(1) e by simp
    have "bs \<noteq> []" using inv e by (simp add: sys_inv_def)
    with write_wake_event [OF assms(1) inv e(1) ev] e(2) show ?thesis
      by (cases "run_event S E_write_wake s") (auto simp: write_takes_def write_fails_def split: pipe_result.splits)
  qed
  show ?thesis using r w rr ww by blast
qed

theorem pipe_no_lost_wakeup_witness: "rthread toy_woken \<noteq> R_idle \<and> data (pst toy_woken) \<noteq> [] \<and> r_event toy_stream toy_woken"
  using pipe_no_lost_wakeup [OF toy_laws toy_reach(3)] toy_woken by simp

end
