(* ===== verification/Pipe_Create.thy ===== *)
theory Pipe_Create
  imports Pipe_System
begin

text \<open>
  Creation of pipes: \<open>pipe2\<close> of \<^verbatim>\<open>libc-bottom-half/sources/pipe.c\<close> over the descriptor table. The
  destructor of a half is the one the table runs when an insertion fails, so a failure must leave no trace.
\<close>

unbundle bit_operations_syntax

section \<open>The destructor undoes the creation\<close>

text \<open>The memory with a new pipe: halves at \<open>rd\<close> and \<open>wr\<close>, the shared state at \<open>a\<close>.\<close>

definition with_pipe :: "data_ptr \<Rightarrow> data_ptr \<Rightarrow> nat \<Rightarrow> bool \<Rightarrow> 'h pipe_world \<Rightarrow> 'h pipe_world" where
  "with_pipe rd wr a b w = w\<lparr>pw_state := (pw_state w)(a \<mapsto> pipe_init),
     pw_half := (pw_half w)(rd \<mapsto> (\<lparr>is_reader = True, blocking = b\<rparr>, a), wr \<mapsto> (\<lparr>is_reader = False, blocking = b\<rparr>, a))\<rparr>"

definition fresh_pipe :: "data_ptr \<Rightarrow> data_ptr \<Rightarrow> nat \<Rightarrow> 'h pipe_world \<Rightarrow> bool" where
  "fresh_pipe rd wr a w \<longleftrightarrow> rd \<noteq> wr \<and> pw_half w rd = None \<and> pw_half w wr = None \<and> pw_state w a = None"

lemma init_flags: "setf PIPE_WRITER_ALIVE (setf PIPE_READER_ALIVE 0) = 3" "clearf 1 3 = 2" "clearf 2 3 = 1" "clearf 1 1 = 0" "clearf 2 2 = 0"
  "has 3 2" "has 3 1"
  by (simp_all add: setf_def clearf_def has_def)

lemma free_both:
  assumes "fresh_pipe rd wr a w"
  shows "pipe_vt_free S wr (pipe_vt_free S rd (with_pipe rd wr a b w)) = w"
    "pipe_vt_free S rd (pipe_vt_free S wr (with_pipe rd wr a b w)) = w"
proof -
  have "(pw_half w)(rd := None, wr := None) = pw_half w" "(pw_state w)(a := None) = pw_state w"
    "(pw_half w)(wr := None, rd := None) = pw_half w"
    using assms by (auto simp: fresh_pipe_def)
  moreover have "has PIPE_WRITER_BLOCKED (2 :: 32 word) = False" "has PIPE_READER_BLOCKED (2 :: 32 word) = False"
    "has PIPE_WRITER_BLOCKED (1 :: 32 word) = False" "has PIPE_READER_BLOCKED (1 :: 32 word) = False"
    by (simp_all add: has_def)
  ultimately show "pipe_vt_free S wr (pipe_vt_free S rd (with_pipe rd wr a b w)) = w"
    "pipe_vt_free S rd (pipe_vt_free S wr (with_pipe rd wr a b w)) = w"
    using assms by (auto simp: pipe_vt_free_def with_pipe_def fresh_pipe_def pipe_free_def pipe_init_def init_flags
        pipe_unblock_writer_def pipe_unblock_reader_def pipe_state_free_def fun_upd_twist)
qed

section \<open>Creation\<close>

definition half_entry :: "data_ptr \<Rightarrow> descriptor_table_entry" where
  "half_entry d = \<lparr>e_data = d, e_vtable = Pipe_vtable\<rparr>"

lemma half_entry_sel [simp]: "e_data (half_entry d) = d" "e_vtable (half_entry d) = Pipe_vtable"
  by (simp_all add: half_entry_def)

text \<open>An insertion whose error the caller looks at.\<close>

definition try_insert where
  "try_insert env d s = on_err (bindO (descriptor_table_insert env (half_entry d) s) (\<lambda>n s. Ret (Inr n) s)) (\<lambda>e s. Ret (Inl e) s)"

lemma try_insert_holds:
  assumes "dt_inv r s" "cnt s d = 0" "stdio_initialized s"
  shows "holds (try_insert env d s)
    (\<lambda>x s'. dt_inv r s' \<and> stdio_initialized s' \<and> (case x of
        Inr fd \<Rightarrow> fd = (LEAST i. fd_map (global_table s) i = None) \<and> cnt s' = (cnt s)(d := 1) \<and> world s' = world s \<and>
          fd_map (global_table s') = (fd_map (global_table s))(fd \<mapsto> half_entry d)
      | Inl e \<Rightarrow> e = ENOMEM \<and> global_table s' = global_table s \<and> cnt s' = cnt s \<and>
          world s' = vt_free env Pipe_vtable d (world s))) (\<lambda>_ _. False)"
proof -
  have "cnt s (e_data (half_entry d)) = 0" using assms by simp
  from insert_with_holds [OF assms(1) this assms(3), of "init_stdio env" env] show ?thesis
    unfolding try_insert_def descriptor_table_insert_def
    by (cases "insert_with (init_stdio env) env (half_entry d) s") auto
qed

text \<open>Taking back one half: the descriptor is free again and the destructor ran.\<close>

lemma undo_half:
  assumes "dt_inv r s" "stdio_initialized s" "fd_map (global_table s) n = Some (half_entry d)" "cnt s d = 1"
  obtains s' where "bindO (on_err (descriptor_table_remove env (int n) s) (\<lambda>_ s. Ret () s)) (\<lambda>_ s. Err e s) = Err e s'"
    "fd_map (global_table s') = (fd_map (global_table s))(n := None)" "cnt s' = (cnt s)(d := 0)"
    "world s' = vt_free env Pipe_vtable d (world s)"
proof -
  have "stdio_ready env s" using assms(2) by (simp add: stdio_ready_def)
  from remove_holds [OF assms(1) this, of "int n"] assms that show thesis
    by (cases "descriptor_table_remove env (int n) s") auto
qed

lemma fd_map_free: "fd_map t (LEAST i. fd_map t i = None) = None"
  by (rule LeastI [of _ "length (entries t)"]) (simp add: fd_map_def)

text \<open>The lowest free number after the lowest free number was taken.\<close>

lemma two_lowest:
  fixes m :: "nat \<Rightarrow> 'b option"
  assumes i: "i = (LEAST i. m i = None)" and n: "\<And>k. n \<le> k \<Longrightarrow> m k = None"
  shows "i < (LEAST k. (m(i \<mapsto> e)) k = None) \<and>
    (\<forall>k < (LEAST k. (m(i \<mapsto> e)) k = None). k \<noteq> i \<longrightarrow> m k \<noteq> None) \<and> m (LEAST k. (m(i \<mapsto> e)) k = None) = None"
proof -
  define j where "j = (LEAST k. (m(i \<mapsto> e)) k = None)"
  have "(m(i \<mapsto> e)) j = None" unfolding j_def by (rule LeastI [of _ "n + i + 1"]) (simp add: n)
  then have j: "j \<noteq> i" "m j = None" by (auto split: if_splits)
  have "i \<le> j" unfolding i by (rule Least_le) (rule j(2))
  moreover have "m k \<noteq> None" if "k < j" "k \<noteq> i" for k using not_less_Least [OF that(1) [unfolded j_def]] that(2) by simp
  ultimately show ?thesis unfolding j_def [symmetric] using j by auto
qed

text \<open>A table with the three standard descriptors and no pipe.\<close>

definition pipe_env :: "(end_state \<times> end_state) option pipe_world dt_env" where
  "pipe_env = \<lparr>version = P3, realloc_ok = (\<lambda>_. True), stdio_alloc = (\<lambda>i. Some (101 + i)),
     vt_free = (\<lambda>v d w. if v = Pipe_vtable then pipe_vt_free toy_stream d w else w)\<rparr>"

definition pipe_start :: "(end_state \<times> end_state) option pipe_world dt_state" where
  "pipe_start = dt_init \<lparr>pw_half = (\<lambda>_. None), pw_state = (\<lambda>_. None), pw_host = None\<rparr>"

definition pipe_tab :: "(end_state \<times> end_state) option pipe_world dt_state" where
  "pipe_tab = out_state (descriptor_table_get pipe_env (-1) pipe_start)"

lemma pipe_tab_eq:
  "descriptor_table_get pipe_env (-1) pipe_start = Err EBADF pipe_tab" "stdio_initialized pipe_tab"
  "cnt pipe_tab 200 = 0" "cnt pipe_tab 300 = 0" "pw_half (world pipe_tab) 200 = None" "pw_half (world pipe_tab) 300 = None"
  "pw_state (world pipe_tab) 400 = None"
  unfolding pipe_tab_def by (rule err_val_Err, code_simp) code_simp+

lemma pipe_tab_reach: "dt_reachable (\<lambda>_. 0) pipe_tab"
proof -
  have "stdio_ready pipe_env pipe_start"
    by (auto simp: stdio_ready_def stdio_fresh_def stdio_ptrs_def pipe_env_def pipe_start_def dt_init_def)
  from step_get_err [OF this pipe_tab_eq(1)] show ?thesis unfolding dt_reachable_def pipe_start_def by blast
qed

text \<open>C14: \<open>pipe2\<close> on a table that is set up either returns the two lowest free descriptors, the reading half at the
  lower, with an empty pipe behind them whose halves are blocking unless \<open>O_NONBLOCK\<close> was asked for, or fails. Then
  nothing is left of it, whichever of the allocations and insertions failed: the descriptors, the reference counts and the
  memory of the pipes are as before.
\<close>

theorem pipe2_correct:
  assumes reach: "dt_reachable r s" "stdio_initialized s"
    and env: "version env = P3" "vt_free env Pipe_vtable = pipe_vt_free S"
    and fl: "fl AND NOT O_NONBLOCK = 0"
    and fresh: "\<forall>rd wr a. ralloc = Some rd \<and> walloc = Some wr \<and> salloc = Some a \<longrightarrow>
      fresh_pipe rd wr a (world s) \<and> cnt s rd = 0 \<and> cnt s wr = 0"
  shows "holds (pipe2 env ralloc walloc salloc fl s)
    (\<lambda>(i, j) s'. i = (LEAST i. fd_map (global_table s) i = None) \<and> i < j \<and> (\<forall>k < j. k \<noteq> i \<longrightarrow> fd_map (global_table s) k \<noteq> None) \<and>
       fd_map (global_table s) j = None \<and>
       (\<exists>rd wr a. ralloc = Some rd \<and> walloc = Some wr \<and> salloc = Some a \<and>
          fd_map (global_table s') = (fd_map (global_table s))(i \<mapsto> half_entry rd, j \<mapsto> half_entry wr) \<and>
          cnt s' = (cnt s)(rd := 1, wr := 1) \<and> world s' = with_pipe rd wr a (\<not> has O_NONBLOCK fl) (world s)))
    (\<lambda>e s'. e = ENOMEM \<and> fd_map (global_table s') = fd_map (global_table s) \<and> cnt s' = cnt s \<and> world s' = world s)"
proof (cases "ralloc = None \<or> walloc = None \<or> salloc = None")
  case True
  then show ?thesis using env(1) fl by (cases ralloc; cases walloc; cases salloc) (simp_all add: pipe2_def)
next
  case False
  then obtain rd wr a where al: "ralloc = Some rd" "walloc = Some wr" "salloc = Some a" by auto
  with fresh have fr: "fresh_pipe rd wr a (world s)" "cnt s rd = 0" "cnt s wr = 0" "rd \<noteq> wr" by (auto simp: fresh_pipe_def)
  let ?m = "fd_map (global_table s)" and ?b = "\<not> has O_NONBLOCK fl"
  define s1 where "s1 = s\<lparr>world := with_pipe rd wr a ?b (world s)\<rparr>"
  have s1: "dt_inv r s1" "stdio_initialized s1" "cnt s1 = cnt s" "global_table s1 = global_table s"
    "world s1 = with_pipe rd wr a ?b (world s)"
    using dt_reachable_inv [OF reach(1)] reach(2) by (simp_all add: s1_def dt_inv_def)
  note fb = free_both [OF fr(1), of S ?b]
  let ?k = "\<lambda>rfd s. bindO (try_insert env wr s) (\<lambda>wfd s. case (rfd, wfd) of
       (Inr r, Inr w) \<Rightarrow> Ret (r, w) s
     | (Inr r, Inl e) \<Rightarrow> bindO (on_err (descriptor_table_remove env (int r) s) (\<lambda>_ s. Ret () s)) (\<lambda>_ s. Err e s)
     | (Inl e, Inr w) \<Rightarrow> bindO (on_err (descriptor_table_remove env (int w) s) (\<lambda>_ s. Ret () s)) (\<lambda>_ s. Err e s)
     | (Inl _, Inl e) \<Rightarrow> Err e s)"
  have eq: "pipe2 env ralloc walloc salloc fl s = bindO (try_insert env rd s1) ?k"
    using env(1) fl by (simp add: pipe2_def al try_insert_def half_entry_def s1_def with_pipe_def Let_def)
  let ?P = "\<lambda>(i, j) s'. i = (LEAST i. ?m i = None) \<and> i < j \<and> (\<forall>k < j. k \<noteq> i \<longrightarrow> ?m k \<noteq> None) \<and> ?m j = None \<and>
       fd_map (global_table s') = ?m(i \<mapsto> half_entry rd, j \<mapsto> half_entry wr) \<and>
          cnt s' = (cnt s)(rd := 1, wr := 1) \<and> world s' = with_pipe rd wr a ?b (world s)"
  let ?Q = "\<lambda>e s'. e = ENOMEM \<and> fd_map (global_table s') = ?m \<and> cnt s' = cnt s \<and> world s' = world s"
  have "holds (bindO (try_insert env rd s1) ?k) ?P ?Q"
  proof (rule holds_bind [OF try_insert_holds [OF s1(1) _ s1(2)]], goal_cases)
    case (2 x s2)
    have c2: "dt_inv r s2" "cnt s2 wr = 0" "stdio_initialized s2" using 2 fr s1 by (auto split: sum.splits)
    show ?case
    proof (rule holds_bind [OF try_insert_holds [OF c2]], goal_cases)
      case (1 y s3)
      note 3 = 1
      show ?case
      proof (cases x)
        case (Inr i)
        with 2 s1 have s2: "i = (LEAST i. ?m i = None)" "cnt s2 = (cnt s)(rd := 1)" "world s2 = world s1"
          "fd_map (global_table s2) = ?m(i \<mapsto> half_entry rd)" by simp_all
        have fi: "?m i = None" unfolding s2(1) by (rule fd_map_free)
        show ?thesis
        proof (cases y)
          case j: (Inr j)
          with 3 s2 have s3: "j = (LEAST k. (?m(i \<mapsto> half_entry rd)) k = None)" "cnt s3 = (cnt s2)(wr := 1)" "world s3 = world s2"
            "fd_map (global_table s3) = (fd_map (global_table s2))(j \<mapsto> half_entry wr)" by simp_all
          have "i < j \<and> (\<forall>k < j. k \<noteq> i \<longrightarrow> ?m k \<noteq> None) \<and> ?m j = None"
            unfolding s3(1) by (rule two_lowest [OF s2(1), of "length (entries (global_table s))"]) (simp add: fd_map_def)
          moreover have "fd_map (global_table s3) = ?m(i \<mapsto> half_entry rd, j \<mapsto> half_entry wr)" "cnt s3 = (cnt s)(rd := 1, wr := 1)"
            "world s3 = with_pipe rd wr a ?b (world s)" unfolding s3(2-4) s2(2-4) s1(5) by simp_all
          ultimately show ?thesis unfolding Inr j prod.case sum.case holds.simps using s2(1) by blast
        next
          case e: (Inl e)
          with 3 have s3: "e = ENOMEM" "dt_inv r s3" "stdio_initialized s3" "global_table s3 = global_table s2" "cnt s3 = cnt s2"
            "world s3 = pipe_vt_free S wr (world s2)" by (simp_all add: env)
          have "fd_map (global_table s3) i = Some (half_entry rd)" "cnt s3 rd = 1" using s2 s3 by simp_all
          then obtain s4 where s4: "bindO (on_err (descriptor_table_remove env (int i) s3) (\<lambda>_ s. Ret () s)) (\<lambda>_ s. Err e s) = (Err e s4 :: (nat \<times> nat, _) outcome)"
            "fd_map (global_table s4) = (fd_map (global_table s3))(i := None)" "cnt s4 = (cnt s3)(rd := 0)"
            "world s4 = vt_free env Pipe_vtable rd (world s3)" by (rule undo_half [OF s3(2,3)])
          have "fd_map (global_table s4) = ?m" using s4(2) s3(4) s2(4) fi by auto
          moreover have "cnt s4 = cnt s" using s4(3) s3(5) s2(2) fr(2) by auto
          moreover have "world s4 = world s" using s4(4) s3(6) s2(3) s1(5) fb(2) env(2) by simp
          ultimately show ?thesis unfolding Inr e prod.case sum.case s4(1) holds.simps using s3(1) by blast
        qed
      next
        case (Inl e)
        with 2 s1 have s2: "e = ENOMEM" "global_table s2 = global_table s" "cnt s2 = cnt s" "world s2 = pipe_vt_free S rd (world s1)"
          by (simp_all add: env)
        show ?thesis
        proof (cases y)
          case j: (Inr j)
          with 3 s2 have s3: "dt_inv r s3" "stdio_initialized s3" "j = (LEAST k. ?m k = None)" "cnt s3 = (cnt s)(wr := 1)"
            "world s3 = world s2" "fd_map (global_table s3) = ?m(j \<mapsto> half_entry wr)" by simp_all
          have fj: "?m j = None" unfolding s3(3) by (rule fd_map_free)
          have "fd_map (global_table s3) j = Some (half_entry wr)" "cnt s3 wr = 1" using s3 by simp_all
          then obtain s4 where s4: "bindO (on_err (descriptor_table_remove env (int j) s3) (\<lambda>_ s. Ret () s)) (\<lambda>_ s. Err e s) = (Err e s4 :: (nat \<times> nat, _) outcome)"
            "fd_map (global_table s4) = (fd_map (global_table s3))(j := None)" "cnt s4 = (cnt s3)(wr := 0)"
            "world s4 = vt_free env Pipe_vtable wr (world s3)" by (rule undo_half [OF s3(1,2)])
          have "fd_map (global_table s4) = ?m" using s4(2) s3(6) fj by auto
          moreover have "cnt s4 = cnt s" using s4(3) s3(4) fr(3) by auto
          moreover have "world s4 = world s" using s4(4) s3(5) s2(4) s1(5) fb(1) env(2) by simp
          ultimately show ?thesis unfolding Inl j prod.case sum.case s4(1) holds.simps using s2(1) by blast
        next
          case (Inl e')
          with \<open>x = Inl e\<close> 3 s1 s2 fb show ?thesis by (simp add: env)
        qed
      qed
    qed simp
  qed (use fr s1 in auto)
  then show ?thesis unfolding eq by (rule holds_mono) (use al in auto)
qed

theorem pipe2_correct_witness:
  "dt_reachable (\<lambda>_. 0) pipe_tab \<and> (\<exists>s'. pipe2 pipe_env (Some 200) (Some 300) (Some 400) O_NONBLOCK pipe_tab = Ret (3, 4) s' \<and>
     world s' = with_pipe 200 300 400 False (world pipe_tab))"
proof -
  have v: "version pipe_env = P3" "vt_free pipe_env Pipe_vtable = pipe_vt_free toy_stream"
    "O_NONBLOCK AND NOT O_NONBLOCK = 0" by (simp_all add: pipe_env_def)
  have fr: "\<forall>rd wr a. Some 200 = Some rd \<and> Some 300 = Some wr \<and> Some 400 = Some a \<longrightarrow>
      fresh_pipe rd wr a (world pipe_tab) \<and> cnt pipe_tab rd = 0 \<and> cnt pipe_tab wr = 0"
    using pipe_tab_eq by (simp add: fresh_pipe_def)
  have r: "ret_val (pipe2 pipe_env (Some 200) (Some 300) (Some 400) O_NONBLOCK pipe_tab) = Some (3, 4)"
    unfolding pipe_tab_def by code_simp
  from pipe2_correct [OF pipe_tab_reach pipe_tab_eq(2) v fr] pipe_tab_reach show ?thesis
    by (subst (asm) ret_val_Ret [OF r], subst ret_val_Ret [OF r]) (simp add: has_def)
qed

end
