(* ===== verification/Search_Tree.thy ===== *)
theory Search_Tree
  imports Prelude "HOL-Library.Multiset"
begin

text \<open>
  Binary search trees of \<^verbatim>\<open>libc-top-half/musl/src/search\<close>: \<open>tsearch\<close>, \<open>tfind\<close>, \<open>tdelete\<close>,
  \<open>twalk\<close> and \<open>tdestroy\<close> on AVL trees. The nodes stand in a memory that is a map from addresses, since
  the code rewrites the children in place through an array of pointers to pointers. An access to an address
  without a node, and a store behind the end of that array, is \<open>Trap\<close>.
\<close>

section \<open>Definitions\<close>

type_synonym addr = nat

record 'k node =
  nkey :: 'k
  a0 :: addr
  a1 :: addr
  nh :: int

record 'k search_mem =
  nodes :: "addr \<Rightarrow> 'k node option"
  rootp :: addr

text \<open>The pointers to pointers in the array \<open>a\<close>: the root, or a child of a node.\<close>

datatype slot = Root | Field addr bool

definition MAXH :: nat where "MAXH = 4 * 8 * 3 div 2"

definition child :: "bool \<Rightarrow> 'k node \<Rightarrow> addr" where
  "child d n = (if d then a1 n else a0 n)"

definition set_child :: "bool \<Rightarrow> addr \<Rightarrow> 'k node \<Rightarrow> 'k node" where
  "set_child d v n = (if d then n\<lparr>a1 := v\<rparr> else n\<lparr>a0 := v\<rparr>)"

type_synonym ('a, 'k) tree_op = "'k search_mem \<Rightarrow> ('a, 'k search_mem) outcome"

definition node_at :: "addr \<Rightarrow> ('k node, 'k) tree_op" where
  "node_at p m = (case nodes m p of None \<Rightarrow> Trap | Some n \<Rightarrow> Ret n m)"

definition upd_node :: "addr \<Rightarrow> ('k node \<Rightarrow> 'k node) \<Rightarrow> (unit, 'k) tree_op" where
  "upd_node p f m = (case nodes m p of None \<Rightarrow> Trap | Some n \<Rightarrow> Ret () (m\<lparr>nodes := (nodes m)(p \<mapsto> f n)\<rparr>))"

fun load :: "slot \<Rightarrow> (addr, 'k) tree_op" where
  "load Root m = Ret (rootp m) m"
| "load (Field p d) m = bindO (node_at p m) (\<lambda>n m. Ret (child d n) m)"

fun store :: "slot \<Rightarrow> addr \<Rightarrow> (unit, 'k) tree_op" where
  "store Root v m = Ret () (m\<lparr>rootp := v\<rparr>)"
| "store (Field p d) v m = upd_node p (set_child d v) m"

definition height :: "addr \<Rightarrow> (int, 'k) tree_op" where
  "height p m = (if p = 0 then Ret 0 m else bindO (node_at p m) (\<lambda>n m. Ret (nh n) m))"

definition rot :: "slot \<Rightarrow> addr \<Rightarrow> bool \<Rightarrow> (int, 'k) tree_op" where
  "rot p x dir m =
     bindO (node_at x m) (\<lambda>nx m. let y = child dir nx in
     bindO (node_at y m) (\<lambda>ny m. let z = child (\<not> dir) ny; hx = nh nx in
     bindO (height z m) (\<lambda>hz m.
     bindO (height (child dir ny) m) (\<lambda>hd m.
     bindO (if hz > hd
       then bindO (node_at z m) (\<lambda>nz m.
            bindO (upd_node x (set_child dir (child (\<not> dir) nz)) m) (\<lambda>_ m.
            bindO (upd_node y (set_child (\<not> dir) (child dir nz)) m) (\<lambda>_ m.
            bindO (upd_node z (set_child (\<not> dir) x) m) (\<lambda>_ m.
            bindO (upd_node z (set_child dir y) m) (\<lambda>_ m.
            bindO (upd_node x (\<lambda>n. n\<lparr>nh := hz\<rparr>) m) (\<lambda>_ m.
            bindO (upd_node y (\<lambda>n. n\<lparr>nh := hz\<rparr>) m) (\<lambda>_ m.
            bindO (upd_node z (\<lambda>n. n\<lparr>nh := hz + 1\<rparr>) m) (\<lambda>_ m. Ret z m))))))))
       else bindO (upd_node x (set_child dir z) m) (\<lambda>_ m.
            bindO (upd_node y (set_child (\<not> dir) x) m) (\<lambda>_ m.
            bindO (upd_node x (\<lambda>n. n\<lparr>nh := hz + 1\<rparr>) m) (\<lambda>_ m.
            bindO (upd_node y (\<lambda>n. n\<lparr>nh := hz + 2\<rparr>) m) (\<lambda>_ m. Ret y m)))))
       (\<lambda>z m.
     bindO (store p z m) (\<lambda>_ m.
     bindO (node_at z m) (\<lambda>nz m. Ret (nh nz - hx) m)))))))"

text \<open>\<open>h0 - h1 + 1u < 3u\<close> is a comparison of unsigned numbers.\<close>

definition tsearch_balance :: "slot \<Rightarrow> (int, 'k) tree_op" where
  "tsearch_balance p m =
     bindO (load p m) (\<lambda>n m.
     bindO (node_at n m) (\<lambda>nn m.
     bindO (height (a0 nn) m) (\<lambda>h0 m.
     bindO (height (a1 nn) m) (\<lambda>h1 m.
       if (h0 - h1 + 1) mod 2 ^ 32 < 3 then
         let new = (if h0 < h1 then h1 + 1 else h0 + 1) in
         bindO (upd_node n (\<lambda>n. n\<lparr>nh := new\<rparr>) m) (\<lambda>_ m. Ret (new - nh nn) m)
       else rot p n (h0 < h1) m))))"

text \<open>
  The loop down the tree of \<open>tsearch\<close> and \<open>tdelete\<close>: \<open>a\<close> is the part of the array that is filled, \<open>lim\<close> its
  size. The address is 0 when the key is not there.
\<close>

function descend :: "nat \<Rightarrow> ('k \<Rightarrow> 'k \<Rightarrow> int) \<Rightarrow> 'k \<Rightarrow> slot list \<Rightarrow> addr \<Rightarrow> 'k search_mem \<Rightarrow>
    (slot list \<times> addr, 'k search_mem) outcome" where
  "descend lim cmp key a n m =
     (if n = 0 then Ret (a, 0) m
      else case nodes m n of
        None \<Rightarrow> Trap
      | Some nn \<Rightarrow>
          let c = cmp key (nkey nn) in
          if c = 0 then Ret (a, n) m
          else if lim \<le> length a then Trap
          else descend lim cmp key (a @ [Field n (c > 0)]) (child (c > 0) nn) m)"
  by pat_completeness auto
termination
  by (relation "measure (\<lambda>(lim, cmp, key, a, n, m). lim - length a)") auto

declare descend.simps [simp del]

text \<open>The loop up: the slots are those still to be balanced, the last one first.\<close>

fun rebalance :: "slot list \<Rightarrow> (unit, 'k) tree_op" where
  "rebalance [] m = Ret () m"
| "rebalance (p # ps) m = bindO (tsearch_balance p m) (\<lambda>d m. if d \<noteq> 0 then rebalance ps m else Ret () m)"

text \<open>\<open>block\<close> is what \<open>malloc\<close> returns, 0 when there is no memory.\<close>

definition tsearch :: "('k \<Rightarrow> 'k \<Rightarrow> int) \<Rightarrow> 'k \<Rightarrow> addr \<Rightarrow> (addr, 'k) tree_op" where
  "tsearch cmp key block m =
     bindO (descend MAXH cmp key [Root] (rootp m) m) (\<lambda>(a, n) m.
       if n \<noteq> 0 then Ret n m
       else if block = 0 then Ret 0 m
       else let r = block; m = m\<lparr>nodes := (nodes m)(r \<mapsto> \<lparr>nkey = key, a0 = 0, a1 = 0, nh = 1\<rparr>)\<rparr> in
         bindO (store (last a) r m) (\<lambda>_ m.
         bindO (rebalance (rev (butlast a)) m) (\<lambda>_ m. Ret r m)))"

text \<open>\<open>while (n->a[1]) { a[i++] = &n->a[1]; n = n->a[1]; }\<close>\<close>

function go_right :: "nat \<Rightarrow> slot list \<Rightarrow> addr \<Rightarrow> 'k search_mem \<Rightarrow> (slot list \<times> addr, 'k search_mem) outcome" where
  "go_right lim a n m =
     (case nodes m n of
        None \<Rightarrow> Trap
      | Some nn \<Rightarrow>
          if a1 nn = 0 then Ret (a, n) m
          else if lim \<le> length a then Trap
          else go_right lim (a @ [Field n True]) (a1 nn) m)"
  by pat_completeness auto
termination
  by (relation "measure (\<lambda>(lim, a, n, m). lim - length a)") auto

declare go_right.simps [simp del]

text \<open>The node that \<open>tdelete\<close> frees, with the filled part of the array and the child that moves up.\<close>

definition tdelete_pick :: "slot list \<Rightarrow> addr \<Rightarrow> (slot list \<times> addr \<times> addr, 'k) tree_op" where
  "tdelete_pick a n m =
     bindO (node_at n m) (\<lambda>nn m.
       if a0 nn \<noteq> 0 then
         if MAXH + 1 \<le> length a then Trap
         else bindO (go_right (MAXH + 1) (a @ [Field n False]) (a0 nn) m) (\<lambda>(a, p) m.
              bindO (node_at p m) (\<lambda>np m.
              bindO (upd_node n (\<lambda>n. n\<lparr>nkey := nkey np\<rparr>) m) (\<lambda>_ m. Ret (a, p, a0 np) m)))
       else Ret (a, n, a1 nn) m)"

definition tdelete :: "('k \<Rightarrow> 'k \<Rightarrow> int) \<Rightarrow> 'k \<Rightarrow> (addr, 'k) tree_op" where
  "tdelete cmp key m =
     bindO (descend (MAXH + 1) cmp key [Root, Root] (rootp m) m) (\<lambda>(a, n) m.
       if n = 0 then Ret 0 m
       else
     bindO (load (a ! (length a - 2)) m) (\<lambda>parent m.
     bindO (tdelete_pick a n m) (\<lambda>(a, n, ch) m.
     let m = m\<lparr>nodes := (nodes m)(n := None)\<rparr> in
     bindO (store (last a) ch m) (\<lambda>_ m.
     bindO (rebalance (rev (tl (butlast a))) m) (\<lambda>_ m. Ret parent m)))))"

text \<open>The loop of \<open>tfind\<close> has no array that would bound it: \<open>None\<close> when it does not end.\<close>

partial_function (option) tfind_loop :: "('k \<Rightarrow> 'k \<Rightarrow> int) \<Rightarrow> 'k \<Rightarrow> addr \<Rightarrow> 'k search_mem \<Rightarrow> (addr, 'k search_mem) outcome option" where
  "tfind_loop cmp key n m =
     (if n = 0 then Some (Ret 0 m)
      else case nodes m n of
        None \<Rightarrow> Some Trap
      | Some nn \<Rightarrow>
          let c = cmp key (nkey nn) in
          if c = 0 then Some (Ret n m) else tfind_loop cmp key (child (c > 0) nn) m)"

declare tfind_loop.simps [code]

definition tfind :: "('k \<Rightarrow> 'k \<Rightarrow> int) \<Rightarrow> 'k \<Rightarrow> 'k search_mem \<Rightarrow> (addr, 'k search_mem) outcome option" where
  "tfind cmp key m = tfind_loop cmp key (rootp m) m"

datatype visit = Preorder | Postorder | Endorder | Leaf_visit

text \<open>The calls of \<open>action\<close> in order; \<open>None\<close> when the walk does not end or meets an address without a node.\<close>

partial_function (option) walk :: "'k search_mem \<Rightarrow> addr \<Rightarrow> nat \<Rightarrow> (addr \<times> visit \<times> nat) list option" where
  "walk m r d =
     (if r = 0 then Some []
      else Option.bind (nodes m r) (\<lambda>n.
        if nh n = 1 then Some [(r, Leaf_visit, d)]
        else Option.bind (walk m (a0 n) (d + 1)) (\<lambda>xs.
             Option.bind (walk m (a1 n) (d + 1)) (\<lambda>ys.
               Some ([(r, Preorder, d)] @ xs @ [(r, Postorder, d)] @ ys @ [(r, Endorder, d)])))))"

declare walk.simps [code]

definition twalk :: "'k search_mem \<Rightarrow> (addr \<times> visit \<times> nat) list option" where
  "twalk m = walk m (rootp m) 0"

text \<open>\<open>tdestroy\<close>: the keys handed to \<open>freekey\<close> in order, when there is one, and the memory without the nodes.\<close>

partial_function (option) tdestroy :: "bool \<Rightarrow> addr \<Rightarrow> 'k search_mem \<Rightarrow> ('k list \<times> 'k search_mem) option" where
  "tdestroy freekey r m =
     (if r = 0 then Some ([], m)
      else Option.bind (nodes m r) (\<lambda>n.
           Option.bind (tdestroy freekey (a0 n) m) (\<lambda>(xs, m).
           Option.bind (nodes m r) (\<lambda>n.
           Option.bind (tdestroy freekey (a1 n) m) (\<lambda>(ys, m).
           Option.bind (nodes m r) (\<lambda>n.
             Some (xs @ ys @ (if freekey then [nkey n] else []), m\<lparr>nodes := (nodes m)(r := None)\<rparr>)))))))"

declare tdestroy.simps [code]

section \<open>Trees\<close>

datatype 'k tree = Leaf | Node addr "'k tree" 'k int "'k tree"

fun ptr :: "'k tree \<Rightarrow> addr" where
  "ptr Leaf = 0"
| "ptr (Node x l k h r) = x"

fun addrs :: "'k tree \<Rightarrow> addr list" where
  "addrs Leaf = []"
| "addrs (Node x l k h r) = addrs l @ x # addrs r"

fun inorder :: "'k tree \<Rightarrow> 'k list" where
  "inorder Leaf = []"
| "inorder (Node x l k h r) = inorder l @ k # inorder r"

text \<open>The height a node says it has.\<close>

fun ht :: "'k tree \<Rightarrow> int" where
  "ht Leaf = 0"
| "ht (Node x l k h r) = h"

fun avl :: "'k tree \<Rightarrow> bool" where
  "avl Leaf = True"
| "avl (Node x l k h r) = (avl l \<and> avl r \<and> ht l - ht r \<in> {-1, 0, 1} \<and> h = 1 + max (ht l) (ht r))"

fun rep :: "(addr \<Rightarrow> 'k node option) \<Rightarrow> 'k tree \<Rightarrow> bool" where
  "rep H Leaf = True"
| "rep H (Node x l k h r) =
     (x \<noteq> 0 \<and> H x = Some \<lparr>nkey = k, a0 = ptr l, a1 = ptr r, nh = h\<rparr> \<and> rep H l \<and> rep H r)"

text \<open>A node by direction: its child at \<open>d\<close> and the other one.\<close>

definition mk :: "bool \<Rightarrow> addr \<Rightarrow> 'k \<Rightarrow> int \<Rightarrow> 'k tree \<Rightarrow> 'k tree \<Rightarrow> 'k tree" where
  "mk d x k h t s = (if d then Node x s k h t else Node x t k h s)"

definition mk_node :: "bool \<Rightarrow> 'k \<Rightarrow> int \<Rightarrow> addr \<Rightarrow> addr \<Rightarrow> 'k node" where
  "mk_node d k h p q = \<lparr>nkey = k, a0 = (if d then q else p), a1 = (if d then p else q), nh = h\<rparr>"

lemma mk_simps [simp]:
  "ptr (mk d x k h t s) = x" "ht (mk d x k h t s) = h"
  "set (addrs (mk d x k h t s)) = insert x (set (addrs t) \<union> set (addrs s))"
  "rep H (mk d x k h t s) = (x \<noteq> 0 \<and> H x = Some (mk_node d k h (ptr t) (ptr s)) \<and> rep H t \<and> rep H s)"
  "avl (mk d x k h t s) = (avl t \<and> avl s \<and> ht t - ht s \<in> {-1, 0, 1} \<and> h = 1 + max (ht t) (ht s))"
  "distinct (addrs (mk d x k h t s)) =
     (distinct (addrs t) \<and> distinct (addrs s) \<and> x \<notin> set (addrs t) \<and> x \<notin> set (addrs s) \<and> set (addrs t) \<inter> set (addrs s) = {})"
  by (auto simp: mk_def mk_node_def)

lemma mk_node_simps [simp]:
  "child d (mk_node d k h p q) = p" "child (\<not> d) (mk_node d k h p q) = q"
  "nkey (mk_node d k h p q) = k" "nh (mk_node d k h p q) = h"
  "set_child d v (mk_node d k h p q) = mk_node d k h v q" "set_child (\<not> d) v (mk_node d k h p q) = mk_node d k h p v"
  "mk_node d k h p q\<lparr>nh := h'\<rparr> = mk_node d k h' p q" "mk_node d k h p q\<lparr>nkey := k'\<rparr> = mk_node d k' h p q"
  by (auto simp: mk_node_def child_def set_child_def)

lemma mk_node_child: "child False (mk_node d k h p q) = (if d then q else p)" "child True (mk_node d k h p q) = (if d then p else q)"
  by (auto simp: mk_node_def child_def)

lemma mk_cases:
  obtains "t = Leaf" | x k h u s where "t = mk d x k h u s"
  by (cases t) (auto simp: mk_def, (metis (full_types))+)

lemma ptr_addr: "t = Leaf \<or> ptr t \<in> set (addrs t)"
  by (cases t) auto

lemma rep_ptr: "rep H t \<Longrightarrow> (ptr t = 0) = (t = Leaf)"
  by (cases t) auto

lemma rep_zero: "rep H t \<Longrightarrow> 0 \<notin> set (addrs t)"
  by (induction t) auto

lemma rep_agree: "rep H t \<Longrightarrow> (\<And>x. x \<in> set (addrs t) \<Longrightarrow> H' x = H x) \<Longrightarrow> rep H' t"
  by (induction t) auto

lemma rep_upd [simp]: "x \<notin> set (addrs t) \<Longrightarrow> rep (H(x := v)) t = rep H t"
  by (induction t) auto

lemma height_rep: "rep (nodes m) t \<Longrightarrow> height (ptr t) m = Ret (ht t) m"
  by (cases t) (auto simp: height_def node_at_def)

subsection \<open>Contexts\<close>

text \<open>The way from a subtree up to the root: at each step the node, the direction taken and the other child.\<close>

type_synonym 'k frame = "addr \<times> 'k \<times> int \<times> bool \<times> 'k tree"

fun plug :: "'k frame list \<Rightarrow> 'k tree \<Rightarrow> 'k tree" where
  "plug [] t = t"
| "plug ((x, k, h, d, s) # C) t = plug C (mk d x k h t s)"

fun slot_of :: "'k frame list \<Rightarrow> slot" where
  "slot_of [] = Root"
| "slot_of ((x, k, h, d, s) # C) = Field x d"

fun path :: "'k frame list \<Rightarrow> slot list" where
  "path [] = [Root]"
| "path (f # C) = path C @ [slot_of (f # C)]"

fun rep_ctx :: "(addr \<Rightarrow> 'k node option) \<Rightarrow> addr \<Rightarrow> 'k frame list \<Rightarrow> addr \<Rightarrow> bool" where
  "rep_ctx H rt [] p = (rt = p)"
| "rep_ctx H rt ((x, k, h, d, s) # C) p =
     (x \<noteq> 0 \<and> H x = Some (mk_node d k h p (ptr s)) \<and> rep H s \<and> rep_ctx H rt C x)"

fun ctx_addrs :: "'k frame list \<Rightarrow> addr list" where
  "ctx_addrs [] = []"
| "ctx_addrs ((x, k, h, d, s) # C) = x # addrs s @ ctx_addrs C"

lemma rep_plug: "(rep H (plug C t) \<and> rt = ptr (plug C t)) = (rep H t \<and> rep_ctx H rt C (ptr t))"
  by (induction C t rule: plug.induct) auto

text \<open>The nodes of a tree with their keys, in order.\<close>

fun pairs :: "'k tree \<Rightarrow> (addr \<times> 'k) list" where
  "pairs Leaf = []"
| "pairs (Node x l k h r) = pairs l @ (x, k) # pairs r"

lemma pairs_proj: "map fst (pairs t) = addrs t" "map snd (pairs t) = inorder t"
  by (induction t) auto

lemma pairs_key: "(x, k) \<in> set (pairs t) \<Longrightarrow> k \<in> set (inorder t)"
  by (induction t) auto

lemma pairs_mk: "pairs (mk d x k h t s) = (if d then pairs s @ (x, k) # pairs t else pairs t @ (x, k) # pairs s)"
  by (simp add: mk_def)

lemma addrs_eqI: "pairs t = pairs u \<Longrightarrow> addrs t = addrs u"
  by (metis pairs_proj(1))

lemma addrs_plug: "mset (addrs (plug C t)) = mset (addrs t) + mset (ctx_addrs C)"
  by (induction C t rule: plug.induct) (auto simp: mk_def)

text \<open>What is around the hole does not depend on what is in it.\<close>

fun before :: "'k frame list \<Rightarrow> (addr \<times> 'k) list" where
  "before [] = []"
| "before ((x, k, h, d, s) # C) = before C @ (if d then pairs s @ [(x, k)] else [])"

fun behind :: "'k frame list \<Rightarrow> (addr \<times> 'k) list" where
  "behind [] = []"
| "behind ((x, k, h, d, s) # C) = (if d then [] else (x, k) # pairs s) @ behind C"

lemma pairs_plug: "pairs (plug C t) = before C @ pairs t @ behind C"
  by (induction C t rule: plug.induct) (auto simp: pairs_mk)

lemma ctx_distinct: "distinct (addrs (plug C t)) = distinct (addrs t @ ctx_addrs C)"
  using mset_eq_imp_distinct_iff [of "addrs (plug C t)" "addrs t @ ctx_addrs C"] by (simp add: addrs_plug)

lemma rep_ctx_agree:
  "rep_ctx H rt C p \<Longrightarrow> (\<And>x. x \<in> set (ctx_addrs C) \<Longrightarrow> H' x = H x) \<Longrightarrow> rep_ctx H' rt C p"
  by (induction H rt C p rule: rep_ctx.induct) (auto intro: rep_agree)

lemma load_slot: "rep_ctx (nodes m) (rootp m) C p \<Longrightarrow> load (slot_of C) m = Ret p m"
  by (cases C rule: slot_of.cases) (auto simp: node_at_def)

lemma store_slot:
  assumes "rep_ctx (nodes m) (rootp m) C p" "distinct (ctx_addrs C)"
  obtains m' where "store (slot_of C) v m = Ret () m'" "rep_ctx (nodes m') (rootp m') C v"
    "\<And>x. x \<notin> set (ctx_addrs C) \<Longrightarrow> nodes m' x = nodes m x"
proof (cases C rule: slot_of.cases)
  case 1
  with assms show thesis by (intro that [of "m\<lparr>rootp := v\<rparr>"]) auto
next
  case (2 x k h d s C')
  let ?m = "m\<lparr>nodes := (nodes m)(x \<mapsto> mk_node d k h v (ptr s))\<rparr>"
  from 2 assms have a: "nodes m x = Some (mk_node d k h p (ptr s))" "rep (nodes m) s" "rep_ctx (nodes m) (rootp m) C' x"
    "x \<notin> set (addrs s)" "x \<notin> set (ctx_addrs C')" "x \<noteq> 0" by auto
  then have "rep_ctx (nodes ?m) (rootp ?m) C v" using 2 by (auto intro: rep_ctx_agree)
  moreover have "store (slot_of C) v m = Ret () ?m" using 2 a by (simp add: upd_node_def)
  ultimately show thesis using 2 by (intro that [of ?m]) auto
qed

section \<open>Rotations\<close>

lemma ht_pos: "avl t \<Longrightarrow> 0 \<le> ht t" "avl t \<Longrightarrow> t \<noteq> Leaf \<Longrightarrow> 0 < ht t"
  by (induction t) auto

text \<open>A place in the memory where the tree \<open>t\<close> hangs in the context \<open>C\<close>.\<close>

definition at :: "'k search_mem \<Rightarrow> 'k frame list \<Rightarrow> 'k tree \<Rightarrow> bool" where
  "at m C t \<longleftrightarrow> rep (nodes m) t \<and> rep_ctx (nodes m) (rootp m) C (ptr t) \<and> distinct (addrs t @ ctx_addrs C)"

text \<open>The memory outside a place.\<close>

definition outside :: "'k search_mem \<Rightarrow> 'k search_mem \<Rightarrow> 'k frame list \<Rightarrow> 'k tree \<Rightarrow> bool" where
  "outside m m' C t \<longleftrightarrow> (\<forall>x. x \<notin> set (addrs t) \<and> x \<notin> set (ctx_addrs C) \<longrightarrow> nodes m' x = nodes m x)"

lemma relink:
  assumes at: "at m C t" and t': "rep (nodes m1) t'" "addrs t' = addrs t" "rootp m1 = rootp m"
    and same: "\<And>x. x \<notin> set (addrs t) \<Longrightarrow> nodes m1 x = nodes m x"
  obtains m' where "store (slot_of C) (ptr t') m1 = Ret () m'" "at m' C t'" "outside m m' C t"
    "\<And>x. x \<in> set (addrs t) \<Longrightarrow> nodes m' x = nodes m1 x"
proof -
  have d: "distinct (addrs t @ ctx_addrs C)" "rep_ctx (nodes m) (rootp m) C (ptr t)" using at by (auto simp: at_def)
  have "rep_ctx (nodes m1) (rootp m1) C (ptr t)"
    unfolding t'(3) by (rule rep_ctx_agree [OF d(2)]) (use d(1) in \<open>auto intro!: same\<close>)
  with d(1) obtain m' where m': "store (slot_of C) (ptr t') m1 = Ret () m'" "rep_ctx (nodes m') (rootp m') C (ptr t')"
    "\<And>x. x \<notin> set (ctx_addrs C) \<Longrightarrow> nodes m' x = nodes m1 x" using store_slot [of m1 C "ptr t" "ptr t'"] by auto
  have dis: "x \<notin> set (ctx_addrs C)" if "x \<in> set (addrs t)" for x using that d(1) by auto
  have "rep (nodes m') t'" by (rule rep_agree [OF t'(1)]) (use dis t'(2) in \<open>auto intro!: m'(3)\<close>)
  then show thesis
    by (intro that [OF m'(1)]) (use m' d(1) t'(2) same dis in \<open>auto simp: at_def outside_def\<close>)
qed

lemma rot_single:
  assumes at: "at m C (mk d x k hx (mk d y ky hy D Z) A)" and h: "\<not> ht Z > ht D"
  obtains m' where "rot (slot_of C) x d m = Ret (ht Z + 2 - hx) m'"
    "at m' C (mk d y ky (ht Z + 2) D (mk d x k (ht Z + 1) Z A))" "outside m m' C (mk d x k hx (mk d y ky hy D Z) A)"
proof -
  let ?t = "mk d x k hx (mk d y ky hy D Z) A" and ?t' = "mk d y ky (ht Z + 2) D (mk d x k (ht Z + 1) Z A)"
  let ?m1 = "m\<lparr>nodes := (nodes m)(x \<mapsto> mk_node d k (ht Z + 1) (ptr Z) (ptr A), y \<mapsto> mk_node d ky (ht Z + 2) (ptr D) x)\<rparr>"
  from at have r: "rep (nodes m) ?t" "distinct (addrs ?t)" by (auto simp: at_def)
  then have n: "nodes m x = Some (mk_node d k hx y (ptr A))" "nodes m y = Some (mk_node d ky hy (ptr D) (ptr Z))"
    "x \<noteq> y" "x \<noteq> 0" "y \<noteq> 0" by auto
  have hts: "height (ptr Z) m = Ret (ht Z) m" "height (ptr D) m = Ret (ht D) m" using r(1) by (auto intro: height_rep)
  have "rep (nodes ?m1) ?t'" "addrs ?t' = addrs ?t" "rootp ?m1 = rootp m" using r n by (auto simp: mk_def mk_node_def)
  then obtain m' where m': "store (slot_of C) (ptr ?t') ?m1 = Ret () m'" "at m' C ?t'" "outside m m' C ?t"
    "\<And>x. x \<in> set (addrs ?t) \<Longrightarrow> nodes m' x = nodes ?m1 x" by (rule relink [OF at]) (auto simp: n)
  have "nodes m' y = Some (mk_node d ky (ht Z + 2) (ptr D) x)" using m'(4) [of y] by simp
  then have "rot (slot_of C) x d m = Ret (ht Z + 2 - hx) m'"
    using h n hts m'(1) by (simp add: rot_def node_at_def upd_node_def fun_upd_twist)
  then show thesis by (rule that) (use m' in auto)
qed

lemma rot_double:
  assumes at: "at m C (mk d x k hx (mk d y ky hy D (mk d z kz hz E B)) A)" and h: "hz > ht D"
  obtains m' where "rot (slot_of C) x d m = Ret (hz + 1 - hx) m'"
    "at m' C (mk d z kz (hz + 1) (mk d y ky hz D E) (mk d x k hz B A))"
    "outside m m' C (mk d x k hx (mk d y ky hy D (mk d z kz hz E B)) A)"
proof -
  let ?t = "mk d x k hx (mk d y ky hy D (mk d z kz hz E B)) A" and ?t' = "mk d z kz (hz + 1) (mk d y ky hz D E) (mk d x k hz B A)"
  let ?m1 = "m\<lparr>nodes := (nodes m)(x \<mapsto> mk_node d k hz (ptr B) (ptr A), y \<mapsto> mk_node d ky hz (ptr D) (ptr E),
     z \<mapsto> mk_node d kz (hz + 1) y x)\<rparr>"
  from at have r: "rep (nodes m) ?t" "distinct (addrs ?t)" by (auto simp: at_def)
  then have n: "nodes m x = Some (mk_node d k hx y (ptr A))" "nodes m y = Some (mk_node d ky hy (ptr D) z)"
    "nodes m z = Some (mk_node d kz hz (ptr E) (ptr B))" "x \<noteq> y" "x \<noteq> z" "y \<noteq> z" "x \<noteq> 0" "y \<noteq> 0" "z \<noteq> 0" by auto
  have hts: "height z m = Ret hz m" "height (ptr D) m = Ret (ht D) m"
    using r(1) height_rep [of m "mk d z kz hz E B"] by (auto intro: height_rep)
  have "rep (nodes ?m1) ?t'" "addrs ?t' = addrs ?t" "rootp ?m1 = rootp m" using r n by (auto simp: mk_def mk_node_def)
  then obtain m' where m': "store (slot_of C) (ptr ?t') ?m1 = Ret () m'" "at m' C ?t'" "outside m m' C ?t"
    "\<And>x. x \<in> set (addrs ?t) \<Longrightarrow> nodes m' x = nodes ?m1 x" by (rule relink [OF at]) (auto simp: n)
  have "nodes m' z = Some (mk_node d kz (hz + 1) y x)" using m'(4) [of z] by simp
  then have "rot (slot_of C) x d m = Ret (hz + 1 - hx) m'"
    using h n hts m'(1) by (simp add: rot_def node_at_def upd_node_def fun_upd_twist)
  then show thesis by (rule that) (use m' in auto)
qed

section \<open>Balancing\<close>

lemma at_plug: "at m C t = at m [] (plug C t)"
  using rep_plug [of "nodes m" C t "rootp m"] by (auto simp: at_def ctx_distinct)

lemma at_frame: "at m ((x, k, h, d, s) # C) t = at m C (mk d x k h t s)"
  by (simp add: at_plug [of m "(x, k, h, d, s) # C"] at_plug [of m C])

lemma outside_trans: "outside m m' C t \<Longrightarrow> outside m' m'' C u \<Longrightarrow> addrs u = addrs t \<Longrightarrow> outside m m'' C t"
  by (simp add: outside_def)

lemma outside_plug: "outside m m' C t = outside m m' [] (plug C t)"
proof -
  have "set (addrs (plug C t)) = set (addrs t) \<union> set (ctx_addrs C)"
    using addrs_plug [of C t] by (metis set_mset_mset set_mset_union)
  then show ?thesis by (auto simp: outside_def)
qed

text \<open>A node whose deeper child, at \<open>d\<close>, is two levels deeper.\<close>

lemma rot_holds:
  assumes at: "at m C (mk d x k h Y A)" and avl: "avl Y" "avl A" and deep: "ht Y = ht A + 2"
  obtains t' m' where "rot (slot_of C) x d m = Ret (ht t' - h) m'" "at m' C t'" "outside m m' C (mk d x k h Y A)"
    "pairs t' = pairs (mk d x k h Y A)" "avl t'" "ht t' = ht Y \<or> ht t' = ht Y + 1"
proof -
  have "Y \<noteq> Leaf" using deep ht_pos(1) [OF avl(2)] by auto
  then obtain y ky hy D Z where Y: "Y = mk d y ky hy D Z" using mk_cases [of Y, where d = d] by blast
  show thesis
  proof (cases "ht Z > ht D")
    case False
    let ?t' = "mk d y ky (ht Z + 2) D (mk d x k (ht Z + 1) Z A)"
    obtain m' where m': "rot (slot_of C) x d m = Ret (ht Z + 2 - h) m'" "at m' C ?t'" "outside m m' C (mk d x k h Y A)"
      using rot_single [OF at [unfolded Y] False] unfolding Y by blast
    show thesis
      by (rule that [of ?t' m']) (use m' avl deep False in \<open>auto simp: Y pairs_mk\<close>)
  next
    case True
    then have "Z \<noteq> Leaf" using ht_pos(1) [of D] avl by (auto simp: Y)
    then obtain z kz hz E B where Z: "Z = mk d z kz hz E B" using mk_cases [of Z, where d = d] by blast
    let ?t' = "mk d z kz (hz + 1) (mk d y ky hz D E) (mk d x k hz B A)"
    have "hz > ht D" using True Z by simp
    then obtain m' where m': "rot (slot_of C) x d m = Ret (hz + 1 - h) m'" "at m' C ?t'" "outside m m' C (mk d x k h Y A)"
      using rot_double [OF at [unfolded Y Z]] unfolding Y Z by blast
    show thesis
      by (rule that [of ?t' m']) (use m' avl deep True in \<open>auto simp: Y Z pairs_mk\<close>)
  qed
qed

lemma balance_holds:
  assumes at: "at m C (Node x l k h r)" and avl: "avl l" "avl r" and two: "ht l - ht r \<in> {-2, -1, 0, 1, 2}"
  obtains t' m' where "tsearch_balance (slot_of C) m = Ret (ht t' - h) m'" "at m' C t'" "outside m m' C (Node x l k h r)"
    "pairs t' = pairs (Node x l k h r)" "avl t'"
    "if ht l - ht r \<in> {-1, 0, 1} then ht t' = 1 + max (ht l) (ht r) else ht t' - max (ht l) (ht r) \<in> {0, 1}"
proof -
  let ?t = "Node x l k h r"
  have r: "rep (nodes m) ?t" and n: "nodes m x = Some \<lparr>nkey = k, a0 = ptr l, a1 = ptr r, nh = h\<rparr>"
    and c: "rep_ctx (nodes m) (rootp m) C x" and x0: "x \<noteq> 0" using at by (auto simp: at_def)
  have hts: "height (ptr l) m = Ret (ht l) m" "height (ptr r) m = Ret (ht r) m" using r by (auto intro: height_rep)
  have eq: "tsearch_balance (slot_of C) m =
     (if (ht l - ht r + 1) mod 2 ^ 32 < 3 then
         let new = (if ht l < ht r then ht r + 1 else ht l + 1) in
         bindO (upd_node x (\<lambda>n. n\<lparr>nh := new\<rparr>) m) (\<lambda>_ m. Ret (new - h) m)
       else rot (slot_of C) x (ht l < ht r) m)"
    by (simp add: tsearch_balance_def load_slot [OF c] node_at_def n hts)
  show thesis
  proof (cases "ht l - ht r \<in> {-1, 0, 1}")
    case True
    let ?h = "1 + max (ht l) (ht r)"
    let ?m = "m\<lparr>nodes := (nodes m)(x \<mapsto> \<lparr>nkey = k, a0 = ptr l, a1 = ptr r, nh = ?h\<rparr>)\<rparr>"
    have "tsearch_balance (slot_of C) m = Ret (?h - h) ?m"
      using True unfolding eq by (auto simp: upd_node_def n Let_def max_def add.commute)
    moreover have "at ?m C (Node x l k ?h r)" using at
      by (auto simp: at_def intro: rep_ctx_agree)
    ultimately show thesis
      by (intro that [of "Node x l k ?h r" ?m]) (use True avl in \<open>auto simp: outside_def\<close>)
  next
    case False
    define d where "d = (ht l < ht r)"
    have big: "\<not> (ht l - ht r + 1) mod 2 ^ 32 < 3" using False two by auto
    define Y A where "Y = (if d then r else l)" and "A = (if d then l else r)"
    have t: "?t = mk d x k h Y A" by (simp add: mk_def Y_def A_def)
    have deep: "ht Y = ht A + 2" "avl Y" "avl A" using False two avl by (auto simp: Y_def A_def d_def)
    obtain t' m' where "rot (slot_of C) x d m = Ret (ht t' - h) m'" "at m' C t'" "outside m m' C ?t"
      "pairs t' = pairs ?t" "avl t'" "ht t' = ht Y \<or> ht t' = ht Y + 1"
      using rot_holds [OF at [unfolded t] deep(2,3,1)] unfolding t by blast
    then show thesis
      by (intro that [of t' m']) (use False big deep in \<open>auto simp: eq d_def [symmetric] Y_def A_def split: if_splits\<close>)
  qed
qed

lemma avl_plug: "avl (plug C t) \<Longrightarrow> avl t"
  by (induction C t rule: plug.induct) auto

lemma avl_replace: "avl (plug C t) \<Longrightarrow> avl u \<Longrightarrow> ht u = ht t \<Longrightarrow> avl (plug C u)"
proof (induction C t arbitrary: u rule: plug.induct)
  case (2 x k h d s C t)
  have "avl (mk d x k h t s)" using avl_plug 2(2) by fastforce
  with 2(2-4) show ?case using 2(1) [of "mk d x k h u s"] by auto
qed simp

lemma path_split: "path C = butlast (path C) @ [slot_of C]"
  by (cases C rule: slot_of.cases) auto

lemma near_old:
  fixes a b a' h x :: int
  assumes "a - b \<in> {-1, 0, 1}" "a' - a \<in> {-1, 0, 1}" "h = 1 + max a b"
    "if a' - b \<in> {-1, 0, 1} then x = 1 + max a' b else x - max a' b \<in> {0, 1}"
  shows "x - h \<in> {-1, 0, 1}"
  using assms by (elim insertE emptyE; simp add: max_def split: if_splits; linarith?)

lemma rebalance_holds:
  assumes "at m C t" "avl (plug C t0)" "avl t" "ht t - ht t0 \<in> {-1, 0, 1}"
  obtains u m' where "rebalance (rev (butlast (path C))) m = Ret () m'" "at m' [] u" "avl u" "pairs u = pairs (plug C t)"
    "outside m m' [] (plug C t)"
  using assms
proof (induction C arbitrary: m t t0 thesis)
  case Nil
  then show ?case by (auto simp: outside_def)
next
  case (Cons f C)
  obtain x k h d s where f: "f = (x, k, h, d, s)" by (cases f)
  have old: "avl (mk d x k h t0 s)" using Cons.prems(3) avl_plug by (fastforce simp: f)
  define l r where "l = (if d then s else t)" and "r = (if d then t else s)"
  have nd: "mk d x k h t s = Node x l k h r" by (simp add: mk_def l_def r_def)
  have at: "at m C (Node x l k h r)" using Cons.prems(2) by (simp add: f at_frame nd)
  have lr: "avl l" "avl r" "ht l - ht r \<in> {-2, -1, 0, 1, 2}" using old Cons.prems(4,5) by (auto simp: l_def r_def)
  obtain t' m' where b: "tsearch_balance (slot_of C) m = Ret (ht t' - h) m'" "at m' C t'" "outside m m' C (Node x l k h r)"
    "pairs t' = pairs (Node x l k h r)" "avl t'"
    "if ht l - ht r \<in> {-1, 0, 1} then ht t' = 1 + max (ht l) (ht r) else ht t' - max (ht l) (ht r) \<in> {0, 1}"
    by (rule balance_holds [OF at lr])
  have rev: "rev (path C) = slot_of C # rev (butlast (path C))" by (subst path_split) simp
  have pp: "pairs (plug C t') = pairs (plug (f # C) t)" using b(4) by (simp add: pairs_plug f nd [symmetric] pairs_mk)
  have out: "outside m m' [] (plug (f # C) t)" using b(3) by (simp add: outside_plug [of m m' C] f nd)
  show ?case
  proof (cases "ht t' = h")
    case True
    have "avl (plug C t')" by (rule avl_replace [of C "mk d x k h t0 s"]) (use Cons.prems(3) b(5) True in \<open>auto simp: f\<close>)
    moreover have "rebalance (rev (butlast (path (f # C)))) m = Ret () m'" using b(1) True by (simp add: rev)
    moreover have "at m' [] (plug C t')" using b(2) by (simp only: at_plug [of m' C])
    ultimately show thesis using pp out by (intro Cons.prems(1))
  next
    case False
    have near: "ht t' - ht (mk d x k h t0 s) \<in> {-1, 0, 1}"
      unfolding mk_simps by (rule near_old [of "ht t0" "ht s" "ht t"])
        (use old Cons.prems(5) b(6) in \<open>simp_all add: l_def r_def max.commute split: if_splits\<close>)
    have avl0: "avl (plug C (mk d x k h t0 s))" using Cons.prems(3) by (simp add: f)
    obtain u m'' where u: "rebalance (rev (butlast (path C))) m' = Ret () m''" "at m'' [] u" "avl u" "pairs u = pairs (plug C t')"
      "outside m' m'' [] (plug C t')" by (rule Cons.IH [OF _ b(2) avl0 b(5) near])
    have "outside m m'' [] (plug (f # C) t)" by (rule outside_trans [OF out u(5) addrs_eqI [OF pp]])
    moreover have "rebalance (rev (butlast (path (f # C)))) m = Ret () m''" using b(1) u(1) False by (simp add: rev)
    moreover have "pairs u = pairs (plug (f # C) t)" using u(4) pp by (rule trans)
    ultimately show thesis using u(2,3) by (intro Cons.prems(1))
  qed
qed

section \<open>The height of a tree\<close>

text \<open>The least number of nodes of a tree of height \<open>n\<close>, and of the next height.\<close>

fun least_nodes :: "nat \<Rightarrow> nat \<times> nat" where
  "least_nodes 0 = (0, 1)"
| "least_nodes (Suc n) = (snd (least_nodes n), fst (least_nodes n) + snd (least_nodes n) + 1)"

lemma least_nodes_mono: "fst (least_nodes n) \<le> snd (least_nodes n)" "fst (least_nodes n) \<le> fst (least_nodes (Suc n))"
  by (induction n) auto

lemma least_nodes_up: "i \<le> j \<Longrightarrow> fst (least_nodes i) \<le> fst (least_nodes j)"
  by (rule lift_Suc_mono_le [of "\<lambda>n. fst (least_nodes n)"]) (use least_nodes_mono(2) in auto)

lemma avl_nodes: "avl t \<Longrightarrow> fst (least_nodes (nat (ht t))) \<le> length (addrs t)"
proof (induction t)
  case (Node x l k h r)
  define a b where "a = nat (min (ht l) (ht r))" and "b = nat (max (ht l) (ht r))"
  have p: "0 \<le> ht l" "0 \<le> ht r" using Node.prems ht_pos by auto
  have h: "nat h = Suc b" "b \<le> Suc a" using Node.prems p by (auto simp: a_def b_def)
  have "fst (least_nodes a) + fst (least_nodes b) \<le> length (addrs l) + length (addrs r)"
    using Node by (auto simp: a_def b_def min_def max_def)
  moreover have "fst (least_nodes (Suc b)) \<le> fst (least_nodes a) + fst (least_nodes b) + 1"
  proof (cases b)
    case (Suc c)
    then have "fst (least_nodes c) \<le> fst (least_nodes a)" using h(2) by (intro least_nodes_up) simp
    then show ?thesis using Suc by simp
  qed simp
  ultimately show ?case using h(1) by simp
qed simp

lemma least_nodes_num:
  "least_nodes (numeral v) = (case least_nodes (pred_numeral v) of (a, b) \<Rightarrow> (b, a + b + 1))"
  by (simp add: numeral_eq_Suc case_prod_unfold)

lemma least_nodes_one: "least_nodes (Suc 0) = (1, 2)"
  by simp

lemma least_nodes_47: "least_nodes 47 = (7778742048, 12586269024)"
  by (simp add: least_nodes_num least_nodes_one del: least_nodes.simps(2))

lemma avl_height:
  assumes "avl t" "distinct (addrs t)" "set (addrs t) \<subseteq> {..< 2 ^ 32}"
  shows "ht t < 47"
proof (rule ccontr)
  assume "\<not> ht t < 47"
  then have "fst (least_nodes 47) \<le> fst (least_nodes (nat (ht t)))" by (intro least_nodes_up) simp
  also have "\<dots> \<le> length (addrs t)" by (rule avl_nodes [OF assms(1)])
  also have "\<dots> \<le> 2 ^ 32" using card_mono [OF _ assms(3)] distinct_card [OF assms(2)] by simp
  finally have "fst (least_nodes 47) \<le> 2 ^ 32" .
  moreover have "least_nodes 47 = (7778742048, 12586269024)" by (rule least_nodes_47)
  ultimately show False by simp
qed

section \<open>The way down\<close>

text \<open>What POSIX asks of a comparison function.\<close>

definition cmp_laws :: "('k \<Rightarrow> 'k \<Rightarrow> int) \<Rightarrow> bool" where
  "cmp_laws cmp \<longleftrightarrow> (\<forall>a b. sgn (cmp a b) = - sgn (cmp b a)) \<and> (\<forall>a b c. cmp a b \<le> 0 \<and> cmp b c \<le> 0 \<longrightarrow> cmp a c \<le> 0)"

definition ordered :: "('k \<Rightarrow> 'k \<Rightarrow> int) \<Rightarrow> 'k tree \<Rightarrow> bool" where
  "ordered cmp t \<longleftrightarrow> sorted_wrt (\<lambda>a b. cmp a b < 0) (inorder t)"

lemma cmp_flip: "cmp_laws cmp \<Longrightarrow> (cmp a b < 0) = (cmp b a > 0)" "cmp_laws cmp \<Longrightarrow> (cmp a b = 0) = (cmp b a = 0)"
proof -
  assume "cmp_laws cmp"
  then have "sgn (cmp a b) = - sgn (cmp b a)" unfolding cmp_laws_def by blast
  then show "(cmp a b < 0) = (cmp b a > 0)" "(cmp a b = 0) = (cmp b a = 0)" by (auto simp: sgn_if split: if_splits)
qed

lemma cmp_trans:
  assumes "cmp_laws cmp" "cmp a b \<le> 0" "cmp b c \<le> 0" "cmp a b < 0 \<or> cmp b c < 0"
  shows "cmp a c < 0"
proof (rule ccontr)
  assume n: "\<not> cmp a c < 0"
  have tr: "cmp x z \<le> 0" if "cmp x y \<le> 0" "cmp y z \<le> 0" for x y z using assms(1) that unfolding cmp_laws_def by blast
  have fl: "(cmp x y < 0) = (cmp y x > 0)" for x y by (rule cmp_flip(1) [OF assms(1)])
  have "cmp a c \<le> 0" by (rule tr [OF assms(2,3)])
  with n have "cmp c a \<le> 0" using fl [of a c] by linarith
  then have "cmp b a \<le> 0" "cmp c b \<le> 0" using tr [of b c a] tr [of c a b] assms(2,3) by blast+
  with assms(4) fl [of a b] fl [of b c] show False by linarith
qed

lemma descend_holds:
  assumes laws: "cmp_laws cmp"
  shows "at m C t \<Longrightarrow> avl t \<Longrightarrow> ordered cmp (plug C t) \<Longrightarrow> int (length (pre @ path C)) + ht t \<le> int lim \<Longrightarrow>
    (\<forall>(x, k) \<in> set (before C). cmp key k > 0) \<Longrightarrow> (\<forall>(x, k) \<in> set (behind C). cmp key k < 0) \<Longrightarrow>
    \<exists>C' t'. descend lim cmp key (pre @ path C) (ptr t) m = Ret (pre @ path C', ptr t') m \<and> at m C' t' \<and>
      plug C' t' = plug C t \<and> int (length (pre @ path C')) + ht t' \<le> int lim \<and>
      (\<forall>(x, k) \<in> set (before C'). cmp key k > 0) \<and> (\<forall>(x, k) \<in> set (behind C'). cmp key k < 0) \<and>
      (case t' of Leaf \<Rightarrow> True | Node x l k h r \<Rightarrow> cmp key k = 0)"
proof (induction t arbitrary: C)
  case Leaf
  then show ?case by (intro exI [of _ C] exI [of _ Leaf]) (simp add: descend.simps)
next
  case (Node x l k h r)
  have n: "x \<noteq> 0" "nodes m x = Some \<lparr>nkey = k, a0 = ptr l, a1 = ptr r, nh = h\<rparr>" using Node.prems(1) by (auto simp: at_def)
  have "sorted_wrt (\<lambda>a b. cmp a b < 0) (map snd (before C) @ (inorder l @ k # inorder r) @ map snd (behind C))"
    using Node.prems(3) by (simp add: ordered_def pairs_plug pairs_proj(2) flip: pairs_proj(2) [of "plug C (Node x l k h r)"])
  then have lk: "\<And>k'. k' \<in> set (inorder l) \<Longrightarrow> cmp k' k < 0" "\<And>k'. k' \<in> set (inorder r) \<Longrightarrow> cmp k k' < 0"
    by (auto simp: sorted_wrt_append)
  have sub: "0 \<le> ht l" "0 \<le> ht r" "ht l < h" "ht r < h" "avl l" "avl r" using Node.prems(2) ht_pos by auto
  have room: "\<not> lim \<le> length (pre @ path C)" using Node.prems(4) sub by simp
  have up: "descend lim cmp key (pre @ path C) x m =
     (if cmp key k = 0 then Ret (pre @ path C, x) m
      else descend lim cmp key (pre @ path C @ [Field x (cmp key k > 0)]) (ptr (if cmp key k > 0 then r else l)) m)"
    using n room by (subst descend.simps) (simp add: child_def)
  consider "cmp key k = 0" | "cmp key k > 0" | "cmp key k < 0" by linarith
  then show ?case
  proof cases
    case 1
    then show ?thesis using Node.prems up by (intro exI [of _ C] exI [of _ "Node x l k h r"]) simp
  next
    case 2
    let ?C = "(x, k, h, True, l) # C"
    have gt: "cmp key k' > 0" if "(a, k') \<in> set (pairs l)" for a k'
      using cmp_trans [OF laws, of k' k key] lk(1) [OF pairs_key [OF that]] cmp_flip(1) [OF laws, of k key]
        cmp_flip(1) [OF laws, of k' key] 2 by simp
    have "\<exists>C' t'. descend lim cmp key (pre @ path ?C) (ptr r) m = Ret (pre @ path C', ptr t') m \<and> at m C' t' \<and>
      plug C' t' = plug ?C r \<and> int (length (pre @ path C')) + ht t' \<le> int lim \<and>
      (\<forall>(x, k) \<in> set (before C'). cmp key k > 0) \<and> (\<forall>(x, k) \<in> set (behind C'). cmp key k < 0) \<and>
      (case t' of Leaf \<Rightarrow> True | Node x l k h r \<Rightarrow> cmp key k = 0)"
      by (rule Node.IH(2)) (use Node.prems sub 2 gt in \<open>auto simp: at_frame mk_def\<close>)
    then show ?thesis using 2 up by (simp add: mk_def)
  next
    case 3
    let ?C = "(x, k, h, False, r) # C"
    have lt: "cmp key k' < 0" if "(a, k') \<in> set (pairs r)" for a k'
      using cmp_trans [OF laws, of key k k'] lk(2) [OF pairs_key [OF that]] 3 by simp
    have "\<exists>C' t'. descend lim cmp key (pre @ path ?C) (ptr l) m = Ret (pre @ path C', ptr t') m \<and> at m C' t' \<and>
      plug C' t' = plug ?C l \<and> int (length (pre @ path C')) + ht t' \<le> int lim \<and>
      (\<forall>(x, k) \<in> set (before C'). cmp key k > 0) \<and> (\<forall>(x, k) \<in> set (behind C'). cmp key k < 0) \<and>
      (case t' of Leaf \<Rightarrow> True | Node x l k h r \<Rightarrow> cmp key k = 0)"
      by (rule Node.IH(1)) (use Node.prems sub 3 lt in \<open>auto simp: at_frame mk_def\<close>)
    then show ?thesis using 3 up by (simp add: mk_def)
  qed
qed

lemma plug_append: "plug (D @ C) t = plug C (plug D t)"
  by (induction D t rule: plug.induct) auto

lemma before_append: "before (D @ C) = before C @ before D"
  by (induction D rule: before.induct) auto

lemma behind_append: "behind (D @ C) = behind D @ behind C"
  by (induction D rule: behind.induct) auto

lemma ctx_addrs_append: "ctx_addrs (D @ C) = ctx_addrs D @ ctx_addrs C"
  by (induction D rule: ctx_addrs.induct) auto

text \<open>The last node of a tree: everything else of the tree is before it.\<close>

lemma go_right_holds:
  "at m C t \<Longrightarrow> avl t \<Longrightarrow> t \<noteq> Leaf \<Longrightarrow> int (length (pre @ path C)) + ht t \<le> int lim + 1 \<Longrightarrow>
    \<exists>D x l k h. go_right lim (pre @ path C) (ptr t) m = Ret (pre @ path (D @ C), x) m \<and>
      plug D (Node x l k h Leaf) = t \<and> behind D = []"
proof (induction t arbitrary: C)
  case (Node x l k h r)
  have n: "x \<noteq> 0" "nodes m x = Some \<lparr>nkey = k, a0 = ptr l, a1 = ptr r, nh = h\<rparr>" "rep (nodes m) r"
    using Node.prems(1) by (auto simp: at_def)
  show ?case
  proof (cases "r = Leaf")
    case True
    then show ?thesis using n
      by (intro exI [of _ "[]"] exI [of _ x] exI [of _ l] exI [of _ k] exI [of _ h]) (simp add: go_right.simps)
  next
    case False
    let ?C = "(x, k, h, True, l) # C"
    have hs: "0 < ht r" "ht r < h" "avl r" using Node.prems(2) False ht_pos by auto
    have ih: "\<exists>D x l k h. go_right lim (pre @ path ?C) (ptr r) m = Ret (pre @ path (D @ ?C), x) m \<and>
      plug D (Node x l k h Leaf) = r \<and> behind D = []"
      by (rule Node.IH(2)) (use Node.prems False hs in \<open>auto simp: at_frame mk_def\<close>)
    then obtain D x' l' k' h' where d: "go_right lim (pre @ path ?C) (ptr r) m = Ret (pre @ path (D @ ?C), x') m"
      "plug D (Node x' l' k' h' Leaf) = r" "behind D = []" by blast
    have "\<not> lim \<le> length (pre @ path C)" using Node.prems(4) hs by simp
    then have "go_right lim (pre @ path C) x m = Ret (pre @ path (D @ ?C), x') m"
      using n False d(1) rep_ptr [OF n(3)] by (subst go_right.simps) simp
    then show ?thesis using d
      by (intro exI [of _ "D @ [(x, k, h, True, l)]"] exI [of _ x'] exI [of _ l'] exI [of _ k'] exI [of _ h'])
        (simp add: plug_append behind_append mk_def)
  qed
qed simp

text \<open>Another tree is hung into a place.\<close>

lemma hang:
  assumes "rep (nodes m) t'" "rep_ctx (nodes m) (rootp m) C p" "distinct (addrs t' @ ctx_addrs C)"
  obtains m' where "store (slot_of C) (ptr t') m = Ret () m'" "at m' C t'"
    "\<And>x. x \<notin> set (ctx_addrs C) \<Longrightarrow> nodes m' x = nodes m x"
proof -
  obtain m' where m': "store (slot_of C) (ptr t') m = Ret () m'" "rep_ctx (nodes m') (rootp m') C (ptr t')"
    "\<And>x. x \<notin> set (ctx_addrs C) \<Longrightarrow> nodes m' x = nodes m x" using assms store_slot [of m C p "ptr t'"] by auto
  have "rep (nodes m') t'" by (rule rep_agree [OF assms(1)]) (use assms(3) in \<open>auto intro!: m'(3)\<close>)
  then show thesis by (intro that [OF m'(1)]) (use m' assms(3) in \<open>auto simp: at_def\<close>)
qed

end
