(* ===== verification/Search_Ops.thy ===== *)
theory Search_Ops
  imports Search_Tree
begin

text \<open>
  The operations of \<^verbatim>\<open>libc-top-half/musl/src/search\<close> on a memory that holds an AVL tree: each
  of them is a step of an ordered list of keys, and none leaves the tree, its nodes or the array of the path.
\<close>

section \<open>The operations\<close>

text \<open>A memory that holds the tree \<open>t\<close>, with pointers of 32 bits.\<close>

definition tree_mem :: "'k search_mem \<Rightarrow> 'k tree \<Rightarrow> bool" where
  "tree_mem m t \<longleftrightarrow> at m [] t \<and> avl t \<and> set (addrs t) \<subseteq> {..< 2 ^ 32}"

text \<open>What \<open>malloc\<close> may return: nothing, or an address that is not in use.\<close>

definition malloc_ok :: "addr \<Rightarrow> 'k search_mem \<Rightarrow> bool" where
  "malloc_ok block m \<longleftrightarrow> block = 0 \<or> block < 2 ^ 32 \<and> nodes m block = None"

lemma descend_root:
  assumes "cmp_laws cmp" "tree_mem m t" "ordered cmp t" "length pre + MAXH \<le> lim + 1"
  obtains C u where "descend lim cmp key (pre @ [Root]) (rootp m) m = Ret (pre @ path C, ptr u) m" "at m C u" "plug C u = t"
    "int (length (pre @ path C)) + ht u \<le> int lim"
    "\<forall>(x, k) \<in> set (before C). cmp key k > 0" "\<forall>(x, k) \<in> set (behind C). cmp key k < 0"
    "case u of Leaf \<Rightarrow> True | Node x l k h r \<Rightarrow> cmp key k = 0"
proof -
  have t: "at m [] t" "avl t" "distinct (addrs t)" "rootp m = ptr t" using assms(2) by (auto simp: tree_mem_def at_def)
  have "ht t < 47" by (rule avl_height) (use assms(2) t in \<open>auto simp: tree_mem_def\<close>)
  with assms(4) have room: "int (length (pre @ path [])) + ht t \<le> int lim" by (simp add: MAXH_def)
  from descend_holds [OF assms(1) t(1,2) _ room, of key] assms(3) t(4) that show thesis by auto
qed

lemma rep_some: "rep H t \<Longrightarrow> x \<in> set (addrs t) \<Longrightarrow> H x \<noteq> None"
  by (induction t) auto

lemma set_addrs_plug: "set (addrs (plug C t)) = set (addrs t) \<union> set (ctx_addrs C)"
  using addrs_plug [of C t] by (metis set_mset_mset set_mset_union)

lemma path_ends: "last (pre @ path C) = slot_of C" "butlast (pre @ path C) = pre @ butlast (path C)" "path C \<noteq> []"
proof -
  show "path C \<noteq> []" using path_split [of C] by auto
  then show "last (pre @ path C) = slot_of C" "butlast (pre @ path C) = pre @ butlast (path C)"
    using arg_cong [OF path_split [of C], of last] by (simp_all add: butlast_append)
qed

lemma ordered_pairs: "ordered cmp t = sorted_wrt (\<lambda>a b. cmp a b < 0) (map snd (pairs t))"
  by (simp add: ordered_def pairs_proj)

text \<open>A node that is not yet in the tree is hung in and the tree balanced.\<close>

lemma insert_node_holds:
  assumes t: "tree_mem m (plug C Leaf)" and block: "block \<noteq> 0" "block < 2 ^ 32" "nodes m block = None"
  obtains m1 m' u where
    "store (slot_of C) block (m\<lparr>nodes := (nodes m)(block \<mapsto> \<lparr>nkey = key, a0 = 0, a1 = 0, nh = 1\<rparr>)\<rparr>) = Ret () m1"
    "rebalance (rev (butlast (path C))) m1 = Ret () m'" "tree_mem m' u" "pairs u = before C @ (block, key) # behind C"
    "\<And>x. x \<notin> insert block (set (addrs (plug C Leaf))) \<Longrightarrow> nodes m' x = nodes m x"
proof -
  let ?m = "m\<lparr>nodes := (nodes m)(block \<mapsto> \<lparr>nkey = key, a0 = 0, a1 = 0, nh = 1\<rparr>)\<rparr>" and ?N = "Node block Leaf key 1 Leaf"
  have at: "at m C Leaf" using t by (simp add: tree_mem_def at_plug [of m C])
  have new: "block \<notin> set (addrs (plug C Leaf))" using rep_some [of "nodes m" "plug C Leaf" block] t block(3)
    by (auto simp: tree_mem_def at_def)
  then have c: "rep_ctx (nodes ?m) (rootp ?m) C 0" "distinct (addrs ?N @ ctx_addrs C)" "rep (nodes ?m) ?N"
    using at block(1) by (auto simp: at_def set_addrs_plug intro: rep_ctx_agree)
  obtain m1 where m1: "store (slot_of C) (ptr ?N) ?m = Ret () m1" "at m1 C ?N"
    "\<And>x. x \<notin> set (ctx_addrs C) \<Longrightarrow> nodes m1 x = nodes ?m x" using hang [OF c(3,1,2)] by blast
  have avl: "avl (plug C Leaf)" using t by (simp add: tree_mem_def)
  obtain u m' where u: "rebalance (rev (butlast (path C))) m1 = Ret () m'" "at m' [] u" "avl u" "pairs u = pairs (plug C ?N)"
    "outside m1 m' [] (plug C ?N)" by (rule rebalance_holds [OF m1(2) avl]) auto
  have au: "set (addrs u) = insert block (set (addrs (plug C Leaf)))"
    using addrs_eqI [OF u(4)] by (auto simp: set_addrs_plug)
  have "tree_mem m' u" using u(2,3) t block(2) by (auto simp: tree_mem_def au)
  moreover have "nodes m' x = nodes m x" if "x \<notin> insert block (set (addrs (plug C Leaf)))" for x
    using u(5) m1(3) [of x] that by (auto simp: outside_def set_addrs_plug)
  ultimately show thesis using m1(1) u(1,4) by (intro that [of m1 m' u]) (auto simp: pairs_plug)
qed

lemma tsearch_holds:
  assumes laws: "cmp_laws cmp" and t: "tree_mem m t" "ordered cmp t"
    and block: "malloc_ok block m"
  shows "(\<exists>x k. (x, k) \<in> set (pairs t) \<and> cmp key k = 0 \<and> tsearch cmp key block m = Ret x m) \<or>
    (\<forall>k \<in> set (inorder t). cmp key k \<noteq> 0) \<and>
    (if block = 0 then tsearch cmp key block m = Ret 0 m
     else \<exists>m' t' xs ys. tsearch cmp key block m = Ret block m' \<and> tree_mem m' t' \<and> ordered cmp t' \<and>
       pairs t = xs @ ys \<and> pairs t' = xs @ (block, key) # ys \<and>
       (\<forall>x. x \<notin> insert block (set (addrs t)) \<longrightarrow> nodes m' x = nodes m x))"
proof -
  obtain C u where d: "descend MAXH cmp key ([] @ [Root]) (rootp m) m = Ret ([] @ path C, ptr u) m" "at m C u" "plug C u = t"
    "\<forall>(x, k) \<in> set (before C). cmp key k > 0" "\<forall>(x, k) \<in> set (behind C). cmp key k < 0"
    "case u of Leaf \<Rightarrow> True | Node x l k h r \<Rightarrow> cmp key k = 0"
    by (rule descend_root [OF laws t, of "[]" MAXH key]) auto
  show ?thesis
  proof (cases u)
    case (Node x l k h r)
    have "x \<noteq> 0" using d(2) Node by (simp add: at_def)
    then have "tsearch cmp key block m = Ret x m" using d(1) Node by (simp add: tsearch_def)
    moreover have "(x, k) \<in> set (pairs t)" using d(3) Node by (auto simp: pairs_plug)
    ultimately show ?thesis using d(6) Node by auto
  next
    case Leaf
    have p: "pairs t = before C @ behind C" using d(3) Leaf by (auto simp: pairs_plug)
    then have none: "\<forall>k \<in> set (inorder t). cmp key k \<noteq> 0" using d(4,5) by (fastforce simp flip: pairs_proj(2))
    show ?thesis
    proof (cases "block = 0")
      case True
      then show ?thesis using none d(1) Leaf by (simp add: tsearch_def)
    next
      case False
      have tm: "tree_mem m (plug C Leaf)" using t(1) d(3) Leaf by simp
      obtain m1 m' u' where i:
        "store (slot_of C) block (m\<lparr>nodes := (nodes m)(block \<mapsto> \<lparr>nkey = key, a0 = 0, a1 = 0, nh = 1\<rparr>)\<rparr>) = Ret () m1"
        "rebalance (rev (butlast (path C))) m1 = Ret () m'" "tree_mem m' u'" "pairs u' = before C @ (block, key) # behind C"
        "\<And>x. x \<notin> insert block (set (addrs (plug C Leaf))) \<Longrightarrow> nodes m' x = nodes m x"
        using insert_node_holds [OF tm False] block False unfolding malloc_ok_def by blast
      have "tsearch cmp key block m = Ret block m'"
        using d(1) Leaf False i(1,2) path_ends(1,2) [of "[]" C] by (simp add: tsearch_def)
      moreover have "ordered cmp u'"
        using t(2) d(4,5) cmp_flip(1) [OF laws] by (fastforce simp: ordered_pairs p i(4) sorted_wrt_append)
      ultimately show ?thesis using none False i(3-5) p d(3) Leaf by auto
    qed
  qed
qed

text \<open>A node with at most one child is freed, the child moves up and the tree is balanced.\<close>

lemma unlink_holds:
  assumes at: "at m C (Node x l k h r)" and avl: "avl (plug C (Node x l k h r))" and one: "l = Leaf \<or> r = Leaf"
    and ch: "ch = (if l = Leaf then r else l)"
  obtains m1 m' u where "store (slot_of C) (ptr ch) (m\<lparr>nodes := (nodes m)(x := None)\<rparr>) = Ret () m1"
    "rebalance (rev (butlast (path C))) m1 = Ret () m'" "at m' [] u" "avl u" "pairs u = before C @ pairs ch @ behind C"
    "nodes m' x = None" "\<And>y. y \<notin> set (addrs (plug C (Node x l k h r))) \<Longrightarrow> nodes m' y = nodes m y"
proof -
  let ?m = "m\<lparr>nodes := (nodes m)(x := None)\<rparr>" and ?t = "Node x l k h r"
  have a: "rep (nodes m) ?t" "rep_ctx (nodes m) (rootp m) C x" "distinct (addrs ?t @ ctx_addrs C)" using at by (simp_all add: at_def)
  have sub: "set (addrs ch) \<subseteq> set (addrs ?t)" "x \<notin> set (addrs ch)" "x \<notin> set (ctx_addrs C)" using a(3) by (auto simp: ch)
  have c: "rep (nodes ?m) ch" "rep_ctx (nodes ?m) (rootp ?m) C x" "distinct (addrs ch @ ctx_addrs C)"
    using a sub by (auto simp: ch intro: rep_ctx_agree)
  obtain m1 where m1: "store (slot_of C) (ptr ch) ?m = Ret () m1" "at m1 C ch"
    "\<And>x. x \<notin> set (ctx_addrs C) \<Longrightarrow> nodes m1 x = nodes ?m x" using hang [OF c] by blast
  have avl_t: "avl ?t" by (rule avl_plug [OF avl])
  have "avl ch" "ht ch - ht ?t \<in> {-1, 0, 1}" using avl_t one ht_pos(1) [of l] ht_pos(1) [of r] by (auto simp: ch max_def)
  then obtain u m' where u: "rebalance (rev (butlast (path C))) m1 = Ret () m'" "at m' [] u" "avl u" "pairs u = pairs (plug C ch)"
    "outside m1 m' [] (plug C ch)" by (rule rebalance_holds [OF m1(2) avl])
  have same: "nodes m' y = nodes ?m y" if "y \<notin> set (addrs (plug C ch))" for y
    using u(5) m1(3) [of y] that by (auto simp: outside_def set_addrs_plug)
  have "nodes m' x = None" using same [of x] sub by (simp add: set_addrs_plug)
  moreover have "nodes m' y = nodes m y" if "y \<notin> set (addrs (plug C ?t))" for y
    using same [of y] that sub by (auto simp: set_addrs_plug)
  ultimately show thesis using m1(1) u by (intro that [of m1 m' u]) (auto simp: pairs_plug)
qed

lemma path_rekey: "path (D @ (n, k, h, d, s) # C) = path (D @ (n, k', h, d, s) # C)"
  "slot_of (D @ (n, k, h, d, s) # C) = slot_of (D @ (n, k', h, d, s) # C)"
proof -
  have sl: "slot_of (E @ (n, k, h, d, s) # C) = slot_of (E @ (n, k', h, d, s) # C)" for E :: "'a frame list"
    by (cases E rule: slot_of.cases) auto
  show "slot_of (D @ (n, k, h, d, s) # C) = slot_of (D @ (n, k', h, d, s) # C)" by (rule sl)
  show "path (D @ (n, k, h, d, s) # C) = path (D @ (n, k', h, d, s) # C)"
    by (induction D) (simp_all add: sl [of "_ # _", simplified])
qed

lemma load_parent:
  assumes "at m C (Node n l k h r)"
  obtains p where "load ((Root # path C) ! (length (Root # path C) - 2)) m = Ret p m" "p \<noteq> 0"
proof (cases C rule: slot_of.cases)
  case 1
  with assms show thesis by (intro that [of n]) (auto simp: at_def)
next
  case (2 x k' h' d s C')
  let ?a = "Root # path C'"
  have "(Root # path C) ! (length (Root # path C) - 2) = last ?a"
    using 2 path_ends(3) [of C'] by (simp add: nth_append last_conv_nth nth_Cons')
  also have "\<dots> = slot_of C'" using path_ends(1) [of "[Root]" C'] by simp
  finally have "load ((Root # path C) ! (length (Root # path C) - 2)) m = Ret x m"
    using load_slot [of m C' x] 2 assms by (simp add: at_def)
  then show thesis by (rule that) (use 2 assms in \<open>auto simp: at_def\<close>)
qed

lemma rep_in_plug: "rep H (plug D t) \<Longrightarrow> rep H t"
  using rep_plug [of H D t "ptr (plug D t)"] by simp

text \<open>
  From the node \<open>n\<close> that was found: the node that is freed, with the child that moves up, hangs in
  a context whose slots are those of the array.
\<close>

lemma delete_node:
  assumes at: "at m C (Node n l k h r)" and avl: "avl (plug C (Node n l k h r))"
    and room: "int (length (Root # path C)) + h \<le> int (MAXH + 1)"
  obtains E x l' k' h' r' m0 where
    "tdelete_pick (Root # path C) n m = Ret (Root # path E, x, ptr (if l' = Leaf then r' else l')) m0"
    "at m0 E (Node x l' k' h' r')" "l' = Leaf \<or> r' = Leaf" "avl (plug E (Node x l' k' h' r'))"
    "set (addrs (plug E (Node x l' k' h' r'))) = set (addrs (plug C (Node n l k h r)))"
    "\<forall>y. y \<notin> set (addrs (plug C (Node n l k h r))) \<longrightarrow> nodes m0 y = nodes m y"
    "map snd (before E @ pairs (if l' = Leaf then r' else l') @ behind E) = map snd (before C @ pairs l @ pairs r @ behind C)"
proof -
  have nn: "n \<noteq> 0" "nodes m n = Some \<lparr>nkey = k, a0 = ptr l, a1 = ptr r, nh = h\<rparr>" "rep (nodes m) l" "rep (nodes m) r"
    using at by (auto simp: at_def)
  show thesis
  proof (cases "l = Leaf")
    case True
    then show thesis using nn at avl
      by (intro that [of C n l r m k h]) (auto simp: tdelete_pick_def node_at_def)
  next
    case False
    let ?C = "(n, k, h, False, r) # C"
    have atl: "at m ?C l" using at by (simp add: at_frame mk_def)
    have al: "avl l" "ht l < h" "0 < h" using avl_plug [OF avl] ht_pos(1) [of l] ht_pos(1) [of r] by auto
    have r2: "int (length ([Root] @ path ?C)) + ht l \<le> int (MAXH + 1) + 1" using room al by simp
    obtain D x l' k' h' where d: "go_right (MAXH + 1) ([Root] @ path ?C) (ptr l) m = Ret ([Root] @ path (D @ ?C), x) m"
      "plug D (Node x l' k' h' Leaf) = l" "behind D = []" using go_right_holds [OF atl al(1) False r2] by blast
    let ?E = "D @ (n, k', h, False, r) # C" and ?t = "Node x l' k' h' Leaf"
    let ?m = "m\<lparr>nodes := (nodes m)(n \<mapsto> \<lparr>nkey = k', a0 = ptr l, a1 = ptr r, nh = h\<rparr>)\<rparr>"
    have x: "nodes m x = Some \<lparr>nkey = k', a0 = ptr l', a1 = 0, nh = h'\<rparr>"
      using rep_in_plug [of "nodes m" D ?t] d(2) nn(3) by simp
    have pe: "plug ?E ?t = plug C (Node n l k' h r)" using d(2) by (simp add: plug_append mk_def)
    have "at ?m C (Node n l k' h r)" using at by (auto simp: at_def intro: rep_ctx_agree)
    then have "at ?m ?E ?t" unfolding at_plug [of _ ?E] at_plug [of _ C] pe .
    moreover have "avl (plug ?E ?t)" unfolding pe by (rule avl_replace [OF avl]) (use avl_plug [OF avl] in simp_all)
    moreover have "set (addrs (plug ?E ?t)) = set (addrs (plug C (Node n l k h r)))" unfolding pe by (simp add: set_addrs_plug)
    moreover have "pairs l = before D @ pairs l' @ [(x, k')]" using d(2,3) pairs_plug [of D ?t] by simp
    ultimately show thesis using nn x d rep_ptr [OF nn(3)] False room al
      by (intro that [of ?E x l' Leaf ?m k' h'])
        (auto simp: tdelete_pick_def node_at_def upd_node_def path_rekey [of D n k h False r C k'] before_append behind_append set_addrs_plug)
  qed
qed

lemma tdelete_holds:
  assumes laws: "cmp_laws cmp" and t: "tree_mem m t" "ordered cmp t"
  shows "if \<exists>k \<in> set (inorder t). cmp key k = 0
    then \<exists>p m' t' x. tdelete cmp key m = Ret p m' \<and> p \<noteq> 0 \<and> tree_mem m' t' \<and> ordered cmp t' \<and>
      inorder t' = filter (\<lambda>k. cmp key k \<noteq> 0) (inorder t) \<and>
      x \<in> set (addrs t) \<and> set (addrs t') = set (addrs t) - {x} \<and> nodes m' x = None \<and>
      (\<forall>y. y \<notin> set (addrs t) \<longrightarrow> nodes m' y = nodes m y)
    else tdelete cmp key m = Ret 0 m"
proof -
  obtain C u where d: "descend (MAXH + 1) cmp key ([Root] @ [Root]) (rootp m) m = Ret ([Root] @ path C, ptr u) m" "at m C u"
    "plug C u = t" "int (length ([Root] @ path C)) + ht u \<le> int (MAXH + 1)"
    "\<forall>(x, k) \<in> set (before C). cmp key k > 0" "\<forall>(x, k) \<in> set (behind C). cmp key k < 0"
    "case u of Leaf \<Rightarrow> True | Node x l k h r \<Rightarrow> cmp key k = 0"
    by (rule descend_root [OF laws t, of "[Root]" "MAXH + 1" key]) auto
  show ?thesis
  proof (cases u)
    case Leaf
    have p: "pairs t = before C @ behind C" using d(3) Leaf by (auto simp: pairs_plug)
    then have "\<forall>k \<in> set (inorder t). cmp key k \<noteq> 0" using d(5,6) by (fastforce simp flip: pairs_proj(2))
    then show ?thesis using d(1) Leaf by (auto simp: tdelete_def)
  next
    case (Node n l k h r)
    have at: "at m C (Node n l k h r)" and avl: "avl (plug C (Node n l k h r))" and n0: "n \<noteq> 0"
      using d(2,3) t(1) Node by (auto simp: tree_mem_def at_def)
    have room: "int (length (Root # path C)) + h \<le> int (MAXH + 1)" using d(4) Node by simp
    obtain p where p: "load ((Root # path C) ! (length (Root # path C) - 2)) m = Ret p m" "p \<noteq> 0" by (rule load_parent [OF at])
    obtain E x l' k' h' r' m0 where e: "tdelete_pick (Root # path C) n m = Ret (Root # path E, x, ptr (if l' = Leaf then r' else l')) m0"
      "at m0 E (Node x l' k' h' r')" "l' = Leaf \<or> r' = Leaf" "avl (plug E (Node x l' k' h' r'))"
      "set (addrs (plug E (Node x l' k' h' r'))) = set (addrs (plug C (Node n l k h r)))"
      "\<forall>y. y \<notin> set (addrs (plug C (Node n l k h r))) \<longrightarrow> nodes m0 y = nodes m y"
      "map snd (before E @ pairs (if l' = Leaf then r' else l') @ behind E) = map snd (before C @ pairs l @ pairs r @ behind C)"
      by (rule delete_node [OF at avl room])
    define ch where "ch = (if l' = Leaf then r' else l')"
    obtain m1 m' v where v: "store (slot_of E) (ptr ch) (m0\<lparr>nodes := (nodes m0)(x := None)\<rparr>) = Ret () m1"
      "rebalance (rev (butlast (path E))) m1 = Ret () m'" "at m' [] v" "avl v" "pairs v = before E @ pairs ch @ behind E"
      "nodes m' x = None" "\<And>y. y \<notin> set (addrs (plug E (Node x l' k' h' r'))) \<Longrightarrow> nodes m' y = nodes m0 y"
      using unlink_holds [OF e(2,4,3) ch_def] by blast
    have run: "tdelete cmp key m = Ret p m'"
      using d(1) Node n0 p v(1,2) path_ends(1,2) [of "[Root]" E]
      by (simp add: tdelete_def e(1) flip: ch_def)
    have pt: "pairs t = before C @ (pairs l @ (n, k) # pairs r) @ behind C" using d(3) Node by (auto simp: pairs_plug)
    have inv: "inorder v = map snd (before C @ pairs l @ pairs r @ behind C)"
      using v(5) e(7) by (simp add: ch_def flip: pairs_proj(2))
    have "sorted_wrt (\<lambda>a b. cmp a b < 0) (map snd (before C) @ (inorder l @ k # inorder r) @ map snd (behind C))"
      using t(2) by (simp add: ordered_pairs pt pairs_proj)
    then have "\<And>k'. k' \<in> set (inorder l) \<Longrightarrow> cmp k' k < 0" "\<And>k'. k' \<in> set (inorder r) \<Longrightarrow> cmp k k' < 0"
      by (auto simp: sorted_wrt_append)
    note lk = this(1) [OF pairs_key] this(2) [OF pairs_key]
    have k0: "cmp key k = 0" "cmp k key = 0" using d(7) Node cmp_flip(2) [OF laws, of key k] by auto
    have ne: "cmp key k' \<noteq> 0" if "(y, k') \<in> set (pairs l) \<union> set (pairs r)" for y k'
      using that lk k0 cmp_trans [OF laws, of k' k key] cmp_trans [OF laws, of key k k'] cmp_flip(2) [OF laws, of key k']
      by auto
    have "filter (\<lambda>k. cmp key k \<noteq> 0) (map snd ys) = map snd ys" if "ys \<in> {before C, behind C, pairs l, pairs r}" for ys
      by (rule filter_True) (use that d(5,6) ne in fastforce)
    then have filt: "filter (\<lambda>k. cmp key k \<noteq> 0) (inorder t) = inorder v"
      unfolding inv pairs_proj(2) [of t, symmetric] pt using k0(1) by simp
    have dist: "x \<notin> set (addrs ch)" "x \<notin> set (ctx_addrs E)" using e(2) by (auto simp: at_def ch_def)
    have "set (addrs v) = set (addrs ch) \<union> set (ctx_addrs E)" using addrs_eqI [of v "plug E ch"] v(5) by (simp add: pairs_plug set_addrs_plug)
    moreover have "set (addrs l') \<union> set (addrs r') = set (addrs ch)" using e(3) by (auto simp: ch_def)
    then have "set (addrs t) = insert x (set (addrs ch) \<union> set (ctx_addrs E))"
      using e(5) d(3) Node set_addrs_plug [of E "Node x l' k' h' r'"] by auto
    ultimately have av: "set (addrs v) = set (addrs t) - {x}" "x \<in> set (addrs t)" using dist by auto
    have "tree_mem m' v" "ordered cmp v" using v(3,4) t av filt by (auto simp: tree_mem_def ordered_def sorted_wrt_filter simp flip: filt)
    moreover have "\<forall>y. y \<notin> set (addrs t) \<longrightarrow> nodes m' y = nodes m y" using v(7) e(5,6) d(3) Node by auto
    moreover have "\<exists>k \<in> set (inorder t). cmp key k = 0" using k0 by (auto simp: pt simp flip: pairs_proj(2))
    ultimately show ?thesis using run p(2) filt av v(6) by auto
  qed
qed

section \<open>Finding, walking, freeing\<close>

lemma tfind_holds:
  assumes laws: "cmp_laws cmp"
  shows "rep (nodes m) t \<Longrightarrow> ordered cmp t \<Longrightarrow>
    \<exists>p. tfind_loop cmp key (ptr t) m = Some (Ret p m) \<and>
      (if \<exists>k \<in> set (inorder t). cmp key k = 0 then \<exists>k. (p, k) \<in> set (pairs t) \<and> cmp key k = 0 else p = 0)"
proof (induction t)
  case Leaf
  then show ?case by (simp add: tfind_loop.simps)
next
  case (Node x l k h r)
  have n: "x \<noteq> 0" "nodes m x = Some \<lparr>nkey = k, a0 = ptr l, a1 = ptr r, nh = h\<rparr>" "rep (nodes m) l" "rep (nodes m) r"
    using Node.prems(1) by auto
  have o: "ordered cmp l" "ordered cmp r" "\<And>k'. k' \<in> set (inorder l) \<Longrightarrow> cmp k' k < 0" "\<And>k'. k' \<in> set (inorder r) \<Longrightarrow> cmp k k' < 0"
    using Node.prems(2) by (auto simp: ordered_def sorted_wrt_append)
  have up: "tfind_loop cmp key x m = (if cmp key k = 0 then Some (Ret x m)
      else tfind_loop cmp key (ptr (if cmp key k > 0 then r else l)) m)"
    using n by (subst tfind_loop.simps) (simp add: child_def Let_def)
  have fl: "(cmp a b < 0) = (cmp b a > 0)" for a b by (rule cmp_flip(1) [OF laws])
  consider "cmp key k = 0" | "cmp key k > 0" | "cmp key k < 0" by linarith
  then show ?case
  proof cases
    case 1
    then show ?thesis using up by auto
  next
    case 2
    have "cmp key k' \<noteq> 0" if "k' \<in> set (inorder l)" for k'
      using cmp_trans [OF laws, of k' k key] o(3) [OF that] fl [of k key] fl [of k' key] 2 by simp
    then have same: "(\<exists>k' \<in> set (inorder (Node x l k h r)). cmp key k' = 0) = (\<exists>k' \<in> set (inorder r). cmp key k' = 0)" using 2 by auto
    from Node.IH(2) [OF n(4) o(2)] obtain p where p: "tfind_loop cmp key (ptr r) m = Some (Ret p m)"
      "if \<exists>k' \<in> set (inorder r). cmp key k' = 0 then \<exists>k'. (p, k') \<in> set (pairs r) \<and> cmp key k' = 0 else p = 0" by blast
    show ?thesis unfolding same using up p 2 by (intro exI [of _ p]) (auto split: if_splits)
  next
    case 3
    have "cmp key k' \<noteq> 0" if "k' \<in> set (inorder r)" for k'
      using cmp_trans [OF laws, of key k k'] o(4) [OF that] 3 by simp
    then have same: "(\<exists>k' \<in> set (inorder (Node x l k h r)). cmp key k' = 0) = (\<exists>k' \<in> set (inorder l). cmp key k' = 0)" using 3 by auto
    from Node.IH(1) [OF n(3) o(1)] obtain p where p: "tfind_loop cmp key (ptr l) m = Some (Ret p m)"
      "if \<exists>k' \<in> set (inorder l). cmp key k' = 0 then \<exists>k'. (p, k') \<in> set (pairs l) \<and> cmp key k' = 0 else p = 0" by blast
    show ?thesis unfolding same using up p 3 by (intro exI [of _ p]) (auto split: if_splits)
  qed
qed

text \<open>The calls of \<open>action\<close> that a walk makes.\<close>

fun visits :: "'k tree \<Rightarrow> nat \<Rightarrow> (addr \<times> visit \<times> nat) list" where
  "visits Leaf d = []"
| "visits (Node x l k h r) d = (if l = Leaf \<and> r = Leaf then [(x, Leaf_visit, d)]
     else [(x, Preorder, d)] @ visits l (d + 1) @ [(x, Postorder, d)] @ visits r (d + 1) @ [(x, Endorder, d)])"

lemma walk_visits: "rep (nodes m) t \<Longrightarrow> avl t \<Longrightarrow> walk m (ptr t) d = Some (visits t d)"
proof (induction t arbitrary: d)
  case Leaf
  then show ?case by (simp add: walk.simps)
next
  case (Node x l k h r)
  have "h = 1 \<longleftrightarrow> l = Leaf \<and> r = Leaf"
    using Node.prems(2) ht_pos [of l] ht_pos [of r] by (cases "l = Leaf"; cases "r = Leaf") auto
  then show ?case using Node by (subst walk.simps) (auto simp: rep_ptr)
qed

lemma visits_in_order: "map fst (filter (\<lambda>(x, v, d). v = Postorder \<or> v = Leaf_visit) (visits t d)) = addrs t"
  by (induction t arbitrary: d) auto

fun postorder :: "'k tree \<Rightarrow> 'k list" where
  "postorder Leaf = []"
| "postorder (Node x l k h r) = postorder l @ postorder r @ [k]"

lemma mset_postorder: "mset (postorder t) = mset (inorder t)"
  by (induction t) auto

lemma tdestroy_holds:
  "rep (nodes m) t \<Longrightarrow> distinct (addrs t) \<Longrightarrow>
   tdestroy fk (ptr t) m = Some (if fk then postorder t else [], m\<lparr>nodes := (\<lambda>x. if x \<in> set (addrs t) then None else nodes m x)\<rparr>)"
proof (induction t arbitrary: m)
  case Leaf
  then show ?case by (simp add: tdestroy.simps)
next
  case (Node x l k h r)
  let ?m1 = "m\<lparr>nodes := (\<lambda>y. if y \<in> set (addrs l) then None else nodes m y)\<rparr>"
  let ?m2 = "?m1\<lparr>nodes := (\<lambda>y. if y \<in> set (addrs r) then None else nodes ?m1 y)\<rparr>"
  have n: "x \<noteq> 0" "nodes m x = Some \<lparr>nkey = k, a0 = ptr l, a1 = ptr r, nh = h\<rparr>" "rep (nodes m) l" "rep (nodes m) r"
    "x \<notin> set (addrs l)" "x \<notin> set (addrs r)" using Node.prems by auto
  have r1: "rep (nodes ?m1) r" by (rule rep_agree [OF n(4)]) (use Node.prems(2) in auto)
  have 1: "tdestroy fk (ptr l) m = Some (if fk then postorder l else [], ?m1)" by (rule Node.IH(1)) (use Node.prems in auto)
  have 2: "tdestroy fk (ptr r) ?m1 = Some (if fk then postorder r else [], ?m2)" by (rule Node.IH(2) [OF r1]) (use Node.prems in auto)
  have "(nodes ?m2)(x := None) = (\<lambda>y. if y \<in> set (addrs (Node x l k h r)) then None else nodes m y)" by auto
  then show ?case using n 1 2 by (subst tdestroy.simps) simp
qed

section \<open>Properties\<close>

text \<open>The abstract list: keys in order, no two of them equal for the comparison.\<close>

definition ins_key :: "('k \<Rightarrow> 'k \<Rightarrow> int) \<Rightarrow> 'k \<Rightarrow> 'k list \<Rightarrow> 'k list" where
  "ins_key cmp key ks = (if \<exists>k \<in> set ks. cmp key k = 0 then ks
     else takeWhile (\<lambda>k. cmp key k > 0) ks @ key # dropWhile (\<lambda>k. cmp key k > 0) ks)"

definition del_key :: "('k \<Rightarrow> 'k \<Rightarrow> int) \<Rightarrow> 'k \<Rightarrow> 'k list \<Rightarrow> 'k list" where
  "del_key cmp key ks = filter (\<lambda>k. cmp key k \<noteq> 0) ks"

text \<open>The memories that sequences of calls lead to, each with the list of keys it stands for.\<close>

inductive search_reach :: "('k \<Rightarrow> 'k \<Rightarrow> int) \<Rightarrow> 'k search_mem \<Rightarrow> 'k list \<Rightarrow> bool" for cmp where
  empty: "search_reach cmp \<lparr>nodes = (\<lambda>_. None), rootp = 0\<rparr> []"
| tsearch: "search_reach cmp m ks \<Longrightarrow> malloc_ok block m \<Longrightarrow> tsearch cmp key block m = Ret p m' \<Longrightarrow>
    search_reach cmp m' (if block = 0 then ks else ins_key cmp key ks)"
| tdelete: "search_reach cmp m ks \<Longrightarrow> tdelete cmp key m = Ret p m' \<Longrightarrow> search_reach cmp m' (del_key cmp key ks)"

lemma ins_key_split:
  assumes "cmp_laws cmp" "sorted_wrt (\<lambda>a b. cmp a b < 0) (as @ key # bs)"
  shows "ins_key cmp key (as @ bs) = as @ key # bs"
proof -
  have a: "cmp key k > 0" if "k \<in> set as" for k
    using that assms(2) cmp_flip(1) [OF assms(1), of k key] by (auto simp: sorted_wrt_append)
  have b: "cmp key k < 0" if "k \<in> set bs" for k using that assms(2) by (auto simp: sorted_wrt_append)
  have "takeWhile (\<lambda>k. cmp key k > 0) bs = []" "dropWhile (\<lambda>k. cmp key k > 0) bs = bs" using b by (cases bs; fastforce)+
  moreover have "\<not> (\<exists>k \<in> set (as @ bs). cmp key k = 0)" using a b by fastforce
  ultimately show ?thesis using a by (simp add: ins_key_def takeWhile_append2 dropWhile_append2)
qed

lemma tsearch_step:
  assumes laws: "cmp_laws cmp" and t: "tree_mem m t" "ordered cmp t" and block: "malloc_ok block m"
  obtains p m' t' where "tsearch cmp key block m = Ret p m'" "tree_mem m' t'" "ordered cmp t'"
    "inorder t' = (if block = 0 then inorder t else ins_key cmp key (inorder t))" "set (pairs t) \<subseteq> set (pairs t')"
    "dom (nodes m) = set (addrs t) \<longrightarrow> dom (nodes m') = set (addrs t')"
    "if (\<exists>k \<in> set (inorder t). cmp key k = 0) then m' = m \<and> (\<exists>k. (p, k) \<in> set (pairs t) \<and> cmp key k = 0)
     else p = block \<and> (block = 0 \<longrightarrow> m' = m) \<and> (block \<noteq> 0 \<longrightarrow> (p, key) \<in> set (pairs t'))"
proof -
  note h = tsearch_holds [OF laws t block, of key]
  show thesis
  proof (cases "\<exists>x k. (x, k) \<in> set (pairs t) \<and> cmp key k = 0 \<and> tsearch cmp key block m = Ret x m")
    case True
    then obtain x k where found: "(x, k) \<in> set (pairs t)" "cmp key k = 0" "tsearch cmp key block m = Ret x m" by blast
    have "\<exists>k \<in> set (inorder t). cmp key k = 0" by (rule bexI [OF _ pairs_key [OF found(1)]]) (rule found(2))
    with found show thesis by (intro that [of x m t] t) (auto simp: ins_key_def)
  next
    case False
    with h have none: "\<not> (\<exists>k \<in> set (inorder t). cmp key k = 0)" by blast
    show thesis
    proof (cases "block = 0")
      case True
      have "tsearch cmp key block m = Ret 0 m" using h False True by (elim disjE conjE) (blast, simp)
      with True none show thesis by (intro that [of 0 m t] t) simp_all
    next
      case new: False
      with h False obtain m' t' xs ys where i: "tsearch cmp key block m = Ret block m'" "tree_mem m' t'" "ordered cmp t'"
        "pairs t = xs @ ys" "pairs t' = xs @ (block, key) # ys"
        "\<forall>x. x \<notin> insert block (set (addrs t)) \<longrightarrow> nodes m' x = nodes m x" by (simp only: if_False) blast
      have "set (addrs t') = insert block (set (addrs t))" using i(4,5) by (auto simp flip: pairs_proj(1))
      moreover have "set (addrs t') \<subseteq> dom (nodes m')" using rep_some [of "nodes m'" t'] i(2) by (auto simp: tree_mem_def at_def)
      ultimately have dom: "dom (nodes m) = set (addrs t) \<longrightarrow> dom (nodes m') = set (addrs t')" using i(6) by (fastforce simp: dom_def)
      have k: "inorder t = map snd xs @ map snd ys" "inorder t' = map snd xs @ key # map snd ys"
        using i(4,5) by (simp_all flip: pairs_proj(2))
      have "ins_key cmp key (inorder t) = inorder t'"
        unfolding k by (rule ins_key_split [OF laws]) (use i(3) k(2) in \<open>simp add: ordered_def\<close>)
      with new none i dom show thesis by (intro that [of block m' t']) auto
    qed
  qed
qed

lemma search_reach_tree:
  assumes "cmp_laws cmp" "search_reach cmp m ks"
  obtains t where "tree_mem m t" "ordered cmp t" "inorder t = ks" "dom (nodes m) = set (addrs t)"
  using assms(2)
proof (induction arbitrary: thesis rule: search_reach.induct)
  case empty
  show ?case by (rule empty [of Leaf]) (auto simp: tree_mem_def at_def ordered_def)
next
  case (tsearch m ks block key p m')
  obtain t where t: "tree_mem m t" "ordered cmp t" "inorder t = ks" "dom (nodes m) = set (addrs t)" by (rule tsearch.IH)
  obtain p' m'' t' where "tsearch cmp key block m = Ret p' m''" "tree_mem m'' t'" "ordered cmp t'"
    "inorder t' = (if block = 0 then inorder t else ins_key cmp key (inorder t))"
    "dom (nodes m) = set (addrs t) \<longrightarrow> dom (nodes m'') = set (addrs t')" by (rule tsearch_step [OF assms(1) t(1,2) tsearch.hyps(2)])
  then show ?case using tsearch.hyps(3) t(3,4) by (intro tsearch.prems [of t']) auto
next
  case (tdelete m ks key p m')
  obtain t where t: "tree_mem m t" "ordered cmp t" "inorder t = ks" "dom (nodes m) = set (addrs t)" by (rule tdelete.IH)
  show ?case
  proof (cases "\<exists>k \<in> set (inorder t). cmp key k = 0")
    case True
    from tdelete_holds [OF assms(1) t(1,2), of key] True tdelete.hyps(2) obtain t' x where t': "tree_mem m' t'" "ordered cmp t'"
      "inorder t' = filter (\<lambda>k. cmp key k \<noteq> 0) (inorder t)" "set (addrs t') = set (addrs t) - {x}" "nodes m' x = None"
      "\<forall>y. y \<notin> set (addrs t) \<longrightarrow> nodes m' y = nodes m y" by auto
    have "set (addrs t') \<subseteq> dom (nodes m')" using rep_some [of "nodes m'" t'] t'(1) by (auto simp: tree_mem_def at_def)
    then have "dom (nodes m') = set (addrs t')" using t'(4-6) t(4) by (fastforce simp: dom_def)
    with t' t(3) show ?thesis by (intro tdelete.prems [of t']) (auto simp: del_key_def)
  next
    case False
    then have "m' = m" "del_key cmp key ks = ks"
      using tdelete_holds [OF assms(1) t(1,2), of key] tdelete.hyps(2) t(3) by (auto simp: del_key_def filter_id_conv)
    with t show ?thesis by (intro tdelete.prems [of t]) auto
  qed
qed

lemma pair_node: "rep (nodes m) t \<Longrightarrow> (x, k) \<in> set (pairs t) \<Longrightarrow> x \<noteq> 0 \<and> (\<exists>n. nodes m x = Some n \<and> nkey n = k)"
  by (induction t) auto

lemma node_pair: "rep (nodes m) t \<Longrightarrow> x \<in> set (addrs t) \<Longrightarrow> \<exists>n. nodes m x = Some n \<and> (x, nkey n) \<in> set (pairs t)"
  by (induction t) auto

text \<open>The levels of a tree, counted.\<close>

fun levels :: "'k tree \<Rightarrow> nat" where
  "levels Leaf = 0"
| "levels (Node x l k h r) = Suc (max (levels l) (levels r))"

lemma levels_ht: "avl t \<Longrightarrow> int (levels t) = ht t"
  by (induction t) auto

text \<open>A concrete tree for the witnesses: three keys in ascending order, so that the root is rotated.\<close>

definition demo_cmp :: "int \<Rightarrow> int \<Rightarrow> int" where
  "demo_cmp a b = a - b"

definition demo_tree0 :: "int search_mem" where
  "demo_tree0 = \<lparr>nodes = (\<lambda>_. None), rootp = 0\<rparr>"

definition demo_tree1 :: "int search_mem" where
  "demo_tree1 = out_state (tsearch demo_cmp 1 16 demo_tree0)"

definition demo_tree2 :: "int search_mem" where
  "demo_tree2 = out_state (tsearch demo_cmp 2 32 demo_tree1)"

definition demo_tree3 :: "int search_mem" where
  "demo_tree3 = out_state (tsearch demo_cmp 3 48 demo_tree2)"

lemma demo_cmp_laws: "cmp_laws demo_cmp"
  by (auto simp: cmp_laws_def demo_cmp_def sgn_if)

lemma demo_tree_eq:
  "tsearch demo_cmp 1 16 demo_tree0 = Ret 16 demo_tree1" "tsearch demo_cmp 2 32 demo_tree1 = Ret 32 demo_tree2"
  "tsearch demo_cmp 3 48 demo_tree2 = Ret 48 demo_tree3"
  "nodes demo_tree0 16 = None" "nodes demo_tree1 32 = None" "nodes demo_tree2 48 = None" "nodes demo_tree3 64 = None"
  "rootp demo_tree3 = 32"
  unfolding demo_tree3_def demo_tree2_def demo_tree1_def
  by (rule ret_val_Ret, code_simp, rule ret_val_Ret, code_simp, rule ret_val_Ret, code_simp) code_simp+

lemma demo_tree_reach: "search_reach demo_cmp demo_tree3 [1, 2, 3]"
proof -
  have 0: "search_reach demo_cmp demo_tree0 []" unfolding demo_tree0_def by (rule search_reach.empty)
  have 1: "search_reach demo_cmp demo_tree1 [1]"
    using search_reach.tsearch [OF 0 _ demo_tree_eq(1)] demo_tree_eq(4) by (simp add: malloc_ok_def ins_key_def)
  have 2: "search_reach demo_cmp demo_tree2 [1, 2]"
    using search_reach.tsearch [OF 1 _ demo_tree_eq(2)] demo_tree_eq(5) by (simp add: malloc_ok_def ins_key_def demo_cmp_def)
  show ?thesis
    using search_reach.tsearch [OF 2 _ demo_tree_eq(3)] demo_tree_eq(6) by (simp add: malloc_ok_def ins_key_def demo_cmp_def)
qed

text \<open>C7: \<open>tsearch\<close>, \<open>tfind\<close> and \<open>tdelete\<close> implement an ordered list of keys. After any sequence of calls, with
  any answers of \<open>malloc\<close>, the keys are in order, the allocated nodes are exactly those of the tree, one for each key, and every call
  returns: \<open>tsearch\<close> gives a node whose key equals the one asked for, null only when a new node is needed and there is no memory, and
  leaves the key of every other node in place; \<open>tfind\<close> gives such a node or null when there is none; \<open>tdelete\<close> gives null
  exactly when there is none.\<close>

theorem search_refines_keys:
  assumes laws: "cmp_laws cmp" and reach: "search_reach cmp m ks" and block: "malloc_ok block m"
  shows "sorted_wrt (\<lambda>a b. cmp a b < 0) ks \<and> card (dom (nodes m)) = length ks \<and>
    (\<exists>p m'. tsearch cmp key block m = Ret p m' \<and> (p = 0 \<longleftrightarrow> block = 0 \<and> (\<forall>k \<in> set ks. cmp key k \<noteq> 0)) \<and>
       (p \<noteq> 0 \<longrightarrow> (\<exists>n. nodes m' p = Some n \<and> cmp key (nkey n) = 0)) \<and>
       (\<forall>x n. nodes m x = Some n \<longrightarrow> (\<exists>n'. nodes m' x = Some n' \<and> nkey n' = nkey n))) \<and>
    (\<exists>p. tfind cmp key m = Some (Ret p m) \<and> (p = 0 \<longleftrightarrow> (\<forall>k \<in> set ks. cmp key k \<noteq> 0)) \<and>
       (p \<noteq> 0 \<longrightarrow> (\<exists>n. nodes m p = Some n \<and> cmp key (nkey n) = 0))) \<and>
    (\<exists>p m'. tdelete cmp key m = Ret p m' \<and> (p = 0 \<longleftrightarrow> (\<forall>k \<in> set ks. cmp key k \<noteq> 0)))"
proof -
  obtain t where t: "tree_mem m t" "ordered cmp t" "inorder t = ks" "dom (nodes m) = set (addrs t)"
    by (rule search_reach_tree [OF laws reach])
  have rep: "rep (nodes m) t" "distinct (addrs t)" "rootp m = ptr t" using t(1) by (auto simp: tree_mem_def at_def)
  have "length (addrs t) = length ks" unfolding t(3) [symmetric] by (induction t) auto
  then have card: "card (dom (nodes m)) = length ks" using distinct_card [OF rep(2)] t(4) by simp
  have self: "cmp key key = 0" using cmp_flip(1) [OF laws, of key key] by linarith
  have s: "\<exists>p m'. tsearch cmp key block m = Ret p m' \<and> (p = 0 \<longleftrightarrow> block = 0 \<and> (\<forall>k \<in> set ks. cmp key k \<noteq> 0)) \<and>
       (p \<noteq> 0 \<longrightarrow> (\<exists>n. nodes m' p = Some n \<and> cmp key (nkey n) = 0)) \<and>
       (\<forall>x n. nodes m x = Some n \<longrightarrow> (\<exists>n'. nodes m' x = Some n' \<and> nkey n' = nkey n))"
  proof -
    obtain p m' t' where p: "tsearch cmp key block m = Ret p m'" "tree_mem m' t'" "set (pairs t) \<subseteq> set (pairs t')"
      "if (\<exists>k \<in> set (inorder t). cmp key k = 0) then m' = m \<and> (\<exists>k. (p, k) \<in> set (pairs t) \<and> cmp key k = 0)
       else p = block \<and> (block = 0 \<longrightarrow> m' = m) \<and> (block \<noteq> 0 \<longrightarrow> (p, key) \<in> set (pairs t'))"
      by (rule tsearch_step [OF laws t(1,2) block])
    have rep': "rep (nodes m') t'" using p(2) by (simp add: tree_mem_def at_def)
    have "\<exists>n'. nodes m' x = Some n' \<and> nkey n' = nkey n" if "nodes m x = Some n" for x n
    proof -
      have "(x, nkey n) \<in> set (pairs t)" using node_pair [OF rep(1), of x] that t(4) by (auto simp: dom_def)
      then show ?thesis using pair_node [OF rep', of x "nkey n"] p(3) by auto
    qed
    moreover have "(p = 0 \<longleftrightarrow> block = 0 \<and> (\<forall>k \<in> set ks. cmp key k \<noteq> 0)) \<and> (p \<noteq> 0 \<longrightarrow> (\<exists>n. nodes m' p = Some n \<and> cmp key (nkey n) = 0))"
    proof (cases "\<exists>k \<in> set (inorder t). cmp key k = 0")
      case True
      with p(4) obtain k where "m' = m" "(p, k) \<in> set (pairs t)" "cmp key k = 0" by auto
      then show ?thesis using pair_node [OF rep(1), of p k] True t(3) by auto
    next
      case False
      then show ?thesis using p(4) pair_node [OF rep', of p key] t(3) self by auto
    qed
    ultimately show ?thesis using p(1) by blast
  qed
  obtain q where q: "tfind cmp key m = Some (Ret q m)"
    "if \<exists>k \<in> set (inorder t). cmp key k = 0 then \<exists>k. (q, k) \<in> set (pairs t) \<and> cmp key k = 0 else q = 0"
    using tfind_holds [OF laws rep(1) t(2), of key] by (auto simp: tfind_def rep(3))
  have f: "\<exists>p. tfind cmp key m = Some (Ret p m) \<and> (p = 0 \<longleftrightarrow> (\<forall>k \<in> set ks. cmp key k \<noteq> 0)) \<and>
       (p \<noteq> 0 \<longrightarrow> (\<exists>n. nodes m p = Some n \<and> cmp key (nkey n) = 0))"
    using q t(3) pair_node [OF rep(1), of q] by (intro exI [of _ q]) (auto split: if_splits)
  have d: "\<exists>p m'. tdelete cmp key m = Ret p m' \<and> (p = 0 \<longleftrightarrow> (\<forall>k \<in> set ks. cmp key k \<noteq> 0))"
    using tdelete_holds [OF laws t(1,2), of key] t(3) by (auto split: if_splits)
  show ?thesis using t(2,3) card s f d by (simp add: ordered_def)
qed

theorem search_refines_keys_witness:
  "search_reach demo_cmp demo_tree3 [1, 2, 3] \<and> (\<exists>p m'. tdelete demo_cmp 2 demo_tree3 = Ret p m' \<and> p \<noteq> 0) \<and>
   (\<exists>m'. tdelete demo_cmp 7 demo_tree3 = Ret 0 m')"
proof -
  have ok: "malloc_ok 64 demo_tree3" using demo_tree_eq(7) by (simp add: malloc_ok_def)
  show ?thesis
    using search_refines_keys [OF demo_cmp_laws demo_tree_reach ok, of 2] search_refines_keys [OF demo_cmp_laws demo_tree_reach ok, of 7]
      demo_tree_reach by (auto simp: demo_cmp_def)
qed

text \<open>C25: The arrays of \<open>MAXH\<close> and \<open>MAXH + 1\<close> pointers for the path are large enough: in every memory that calls
  lead to, the tree has fewer than 47 levels, since its nodes have different addresses of 32 bits and a tree of \<open>n\<close> levels has at
  least as many nodes as the recurrence of the AVL trees says.\<close>

theorem search_path_fits:
  assumes "cmp_laws cmp" "search_reach cmp m ks"
  shows "\<exists>t. tree_mem m t \<and> inorder t = ks \<and> levels t < 47 \<and> levels t + 1 < MAXH \<and> fst (least_nodes (levels t)) \<le> length ks"
proof -
  obtain t where t: "tree_mem m t" "ordered cmp t" "inorder t = ks" by (rule search_reach_tree [OF assms])
  have a: "avl t" "distinct (addrs t)" "set (addrs t) \<subseteq> {..< 2 ^ 32}" using t(1) by (auto simp: tree_mem_def at_def)
  have l: "int (levels t) = ht t" by (rule levels_ht [OF a(1)])
  have "length (addrs t) = length (inorder t)" by (induction t) auto
  then have "fst (least_nodes (levels t)) \<le> length ks" using avl_nodes [OF a(1)] t(3) unfolding l [symmetric] by simp
  moreover have "levels t < 47" using avl_height [OF a] l by linarith
  ultimately show ?thesis using t by (auto simp: MAXH_def)
qed

theorem search_path_fits_witness: "\<exists>t. tree_mem demo_tree3 t \<and> inorder t = [1, 2, 3] \<and> levels t < 47"
  using search_path_fits [OF demo_cmp_laws demo_tree_reach] by blast

text \<open>C26: \<open>twalk\<close> and \<open>tdestroy\<close> end on every memory that calls lead to. The calls of the action with
  \<open>postorder\<close> or \<open>leaf\<close> are one for each key, in the order of the keys; \<open>tdestroy\<close> frees every node, touches nothing else and hands
  each key to \<open>freekey\<close> once when there is one.\<close>

theorem walk_and_destroy_end:
  assumes "cmp_laws cmp" "search_reach cmp m ks"
  shows "(\<exists>vs. twalk m = Some vs \<and>
      map (\<lambda>(x, v, d). nkey (the (nodes m x))) (filter (\<lambda>(x, v, d). v = Postorder \<or> v = Leaf_visit) vs) = ks) \<and>
    (\<exists>freed m'. tdestroy fk (rootp m) m = Some (freed, m') \<and> nodes m' = (\<lambda>_. None) \<and> mset freed = (if fk then mset ks else {#}))"
proof -
  obtain t where t: "tree_mem m t" "inorder t = ks" "dom (nodes m) = set (addrs t)" by (rule search_reach_tree [OF assms])
  have rep: "rep (nodes m) t" "distinct (addrs t)" "rootp m = ptr t" "avl t" using t(1) by (auto simp: tree_mem_def at_def)
  have key: "map (\<lambda>x. nkey (the (nodes m x))) (addrs t) = inorder t" using rep(1) by (induction t) auto
  have w: "twalk m = Some (visits t 0)" using walk_visits [OF rep(1,4)] by (simp add: twalk_def rep(3))
  have ks: "map (\<lambda>(x, v, d). nkey (the (nodes m x))) ys = map (\<lambda>x. nkey (the (nodes m x))) (map fst ys)" for ys :: "(addr \<times> visit \<times> nat) list"
    by (simp add: case_prod_unfold)
  have "map (\<lambda>(x, v, d). nkey (the (nodes m x))) (filter (\<lambda>(x, v, d). v = Postorder \<or> v = Leaf_visit) (visits t 0)) = ks"
    unfolding ks visits_in_order key by (rule t(2))
  moreover have "(\<lambda>x. if x \<in> set (addrs t) then None else nodes m x) = (\<lambda>_. None)" unfolding t(3) [symmetric] by (rule ext) (simp add: dom_def)
  ultimately show ?thesis using w tdestroy_holds [OF rep(1,2), of fk] mset_postorder [of t] t(2) by (auto simp: rep(3))
qed

theorem walk_and_destroy_end_witness:
  "\<exists>vs. twalk demo_tree3 = Some vs \<and>
     map (\<lambda>(x, v, d). nkey (the (nodes demo_tree3 x))) (filter (\<lambda>(x, v, d). v = Postorder \<or> v = Leaf_visit) vs) = [1, 2, 3]"
  using walk_and_destroy_end [OF demo_cmp_laws demo_tree_reach, of True] by blast

end
