(* ===== verification/Calendar.thy ===== *)
theory Calendar
  imports Prelude "HOL-Library.Signed_Division"
begin

text \<open>
  Calendar time of \<^verbatim>\<open>libc-top-half/musl/src/time\<close>: \<open>__secs_to_tm\<close>, \<open>__tm_to_secs\<close>, \<open>__year_to_secs\<close> and
  \<open>__month_to_secs\<close>, and \<open>gmtime_r\<close> and \<open>timegm\<close> on top of them. Numbers are mathematical; division is the
  one of C, which rounds to zero, and a number that the code stores into an \<open>int\<close> is cut to 32 bits.
\<close>

section \<open>Definitions\<close>

text \<open>Without \<open>__tm_nsec\<close>, which no code of the library reads or writes.\<close>

record tm =
  tm_sec :: int
  tm_min :: int
  tm_hour :: int
  tm_mday :: int
  tm_mon :: int
  tm_year :: int
  tm_wday :: int
  tm_yday :: int
  tm_isdst :: int
  tm_gmtoff :: int
  tm_zone :: string

abbreviation (input) INT_MAX :: int where "INT_MAX \<equiv> 2147483647"
abbreviation (input) INT_MIN :: int where "INT_MIN \<equiv> -2147483648"

definition to_int :: "int \<Rightarrow> int" where
  "to_int x = (x + 2 ^ 31) mod 2 ^ 32 - 2 ^ 31"

definition LEAPOCH :: int where "LEAPOCH = 946684800 + 86400 * (31 + 29)"
definition DAYS_PER_400Y :: int where "DAYS_PER_400Y = 365 * 400 + 97"
definition DAYS_PER_100Y :: int where "DAYS_PER_100Y = 365 * 100 + 24"
definition DAYS_PER_4Y :: int where "DAYS_PER_4Y = 365 * 4 + 1"

definition days_in_month :: "int list" where
  "days_in_month = [31, 30, 31, 30, 31, 31, 30, 31, 30, 31, 31, 29]"

text \<open>\<open>for (months=0; days_in_month[months] <= remdays; months++)\<close>; \<open>None\<close> behind the end of the table.\<close>

fun month_loop :: "int list \<Rightarrow> int \<Rightarrow> int \<Rightarrow> (int \<times> int) option" where
  "month_loop [] months remdays = None"
| "month_loop (d # ds) months remdays =
     (if d \<le> remdays then month_loop ds (months + 1) (remdays - d) else Some (months, remdays))"

text \<open>A day of a cycle of 400 years: centuries, groups of four years, years, and the days that remain.\<close>

definition split_cycle :: "int \<Rightarrow> int \<times> int \<times> int \<times> int" where
  "split_cycle remdays =
     (let c_cycles = remdays sdiv DAYS_PER_100Y;
          c_cycles = (if c_cycles = 4 then c_cycles - 1 else c_cycles);
          remdays = remdays - c_cycles * DAYS_PER_100Y;
          q_cycles = remdays sdiv DAYS_PER_4Y;
          q_cycles = (if q_cycles = 25 then q_cycles - 1 else q_cycles);
          remdays = remdays - q_cycles * DAYS_PER_4Y;
          remyears = remdays sdiv 365;
          remyears = (if remyears = 4 then remyears - 1 else remyears);
          remdays = remdays - remyears * 365 in
      (c_cycles, q_cycles, remyears, remdays))"

text \<open>\<open>Some None\<close>: the year does not fit. The outer \<open>None\<close> is an access outside the table.\<close>

definition secs_to_tm :: "int \<Rightarrow> tm \<Rightarrow> tm option option" where
  "secs_to_tm t tm =
     (if t < INT_MIN * 31622400 \<or> t > INT_MAX * 31622400 then Some None
      else
        let secs = t - LEAPOCH;
            days = secs sdiv 86400;
            remsecs = to_int (secs smod 86400);
            (remsecs, days) = (if remsecs < 0 then (remsecs + 86400, days - 1) else (remsecs, days));
            wday = to_int ((3 + days) smod 7);
            wday = (if wday < 0 then wday + 7 else wday);
            qc_cycles = to_int (days sdiv DAYS_PER_400Y);
            remdays = to_int (days smod DAYS_PER_400Y);
            (remdays, qc_cycles) = (if remdays < 0 then (remdays + DAYS_PER_400Y, qc_cycles - 1) else (remdays, qc_cycles));
            (c_cycles, q_cycles, remyears, remdays) = split_cycle remdays;
            leap = (if remyears = 0 \<and> (q_cycles \<noteq> 0 \<or> c_cycles = 0) then 1 else 0);
            yday = remdays + 31 + 28 + leap;
            yday = (if yday \<ge> 365 + leap then yday - (365 + leap) else yday);
            years = remyears + 4 * q_cycles + 100 * c_cycles + 400 * qc_cycles in
        case month_loop days_in_month 0 remdays of
          None \<Rightarrow> None
        | Some (months, remdays) \<Rightarrow>
            let (months, years) = (if months \<ge> 10 then (months - 12, years + 1) else (months, years)) in
            if years + 100 > INT_MAX \<or> years + 100 < INT_MIN then Some None
            else Some (Some (tm\<lparr>tm_year := to_int (years + 100), tm_mon := months + 2, tm_mday := remdays + 1, tm_wday := wday,
                   tm_yday := yday, tm_hour := remsecs sdiv 3600, tm_min := remsecs sdiv 60 smod 60, tm_sec := remsecs smod 60\<rparr>)))"

definition secs_through_month :: "int list" where
  "secs_through_month = [0, 31 * 86400, 59 * 86400, 90 * 86400, 120 * 86400, 151 * 86400, 181 * 86400, 212 * 86400,
     243 * 86400, 273 * 86400, 304 * 86400, 334 * 86400]"

definition month_to_secs :: "int \<Rightarrow> bool \<Rightarrow> int option" where
  "month_to_secs month is_leap =
     (if month < 0 \<or> month \<ge> int (length secs_through_month) then None
      else let t = secs_through_month ! nat month in Some (if is_leap \<and> month \<ge> 2 then t + 86400 else t))"

text \<open>The year \<open>rem\<close> of a cycle of 400: whether it is a leap year, the centuries and the leap years in the last one.\<close>

definition year_in_cycle :: "int \<Rightarrow> bool \<times> int \<times> int" where
  "year_in_cycle rem =
     (if rem = 0 then (True, 0, 0)
      else
        let (centuries, rem) =
          (if rem \<ge> 200 then (if rem \<ge> 300 then (3, rem - 300) else (2, rem - 200))
           else (if rem \<ge> 100 then (1, rem - 100) else (0, rem))) in
        if rem = 0 then (False, centuries, 0)
        else (rem mod 4 = 0, centuries, rem div 4))"

text \<open>\<open>year-2ULL <= 136\<close> compares unsigned numbers of 64 bits. The result is the count and \<open>*is_leap\<close>.\<close>

definition year_to_secs :: "int \<Rightarrow> int \<times> bool" where
  "year_to_secs year =
     (if (year - 2) mod 2 ^ 64 \<le> 136 then
        let y = to_int year;
            leaps = (y - 68) div 4;
            (leaps, is_leap) = (if (y - 68) mod 4 = 0 then (leaps - 1, True) else (leaps, False)) in
        (31536000 * (y - 70) + 86400 * leaps, is_leap)
      else
        let cycles = to_int ((year - 100) sdiv 400);
            rem = to_int ((year - 100) smod 400);
            (rem, cycles) = (if rem < 0 then (rem + 400, cycles - 1) else (rem, cycles));
            (is_leap, centuries, leaps) = year_in_cycle rem;
            leaps = leaps + (97 * cycles + 24 * centuries - (if is_leap then 1 else 0)) in
        ((year - 100) * 31536000 + leaps * 86400 + 946684800 + 86400, is_leap))"

definition tm_to_secs :: "tm \<Rightarrow> int option" where
  "tm_to_secs tm =
     (let year = tm_year tm;
          month = tm_mon tm;
          (month, year) =
            (if month \<ge> 12 \<or> month < 0 then
               let adj = month sdiv 12;
                   month = month smod 12;
                   (month, adj) = (if month < 0 then (month + 12, adj - 1) else (month, adj)) in
               (month, year + adj)
             else (month, year));
          (t, is_leap) = year_to_secs year in
      map_option (\<lambda>m. t + m + 86400 * (tm_mday tm - 1) + 3600 * tm_hour tm + 60 * tm_min tm + tm_sec tm)
        (month_to_secs month is_leap))"

definition utc :: string where
  "utc = ''UTC''"

text \<open>The state of the two calls is the structure the caller passes: the buffer of \<open>gmtime_r\<close>, and for \<open>timegm\<close> the
  time to convert, which it replaces by the normalised one. \<open>new\<close> is the uninitialised local structure of \<open>timegm\<close>.\<close>

definition gmtime_r :: "int \<Rightarrow> tm \<Rightarrow> (unit, tm) outcome" where
  "gmtime_r t tm =
     (case secs_to_tm t tm of
        None \<Rightarrow> Trap
      | Some None \<Rightarrow> Err EOVERFLOW tm
      | Some (Some tm) \<Rightarrow> Ret () (tm\<lparr>tm_isdst := 0, tm_gmtoff := 0, tm_zone := utc\<rparr>))"

definition timegm :: "tm \<Rightarrow> tm \<Rightarrow> (int, tm) outcome" where
  "timegm new tm =
     (case tm_to_secs tm of
        None \<Rightarrow> Trap
      | Some t \<Rightarrow>
          (case secs_to_tm t new of
             None \<Rightarrow> Trap
           | Some None \<Rightarrow> Err EOVERFLOW tm
           | Some (Some new) \<Rightarrow> Ret t (new\<lparr>tm_isdst := 0, tm_gmtoff := 0, tm_zone := utc\<rparr>)))"

text \<open>The only zone is UTC: no daylight saving time, no offset, no opposite offset.\<close>

definition secs_to_zone :: "int \<Rightarrow> bool \<Rightarrow> int \<times> int \<times> int \<times> string" where
  "secs_to_zone t local = (0, 0, 0, utc)"

definition localtime_r :: "int \<Rightarrow> tm \<Rightarrow> (unit, tm) outcome" where
  "localtime_r t tm =
     (if t < INT_MIN * 31622400 \<or> t > INT_MAX * 31622400 then Err EOVERFLOW tm
      else
        let (isdst, gmtoff, _, zone) = secs_to_zone t False;
            tm = tm\<lparr>tm_isdst := isdst, tm_gmtoff := gmtoff, tm_zone := zone\<rparr> in
        case secs_to_tm (t + tm_gmtoff tm) tm of
          None \<Rightarrow> Trap
        | Some None \<Rightarrow> Err EOVERFLOW tm
        | Some (Some tm) \<Rightarrow> Ret () tm)"

definition to_time_t :: "int \<Rightarrow> int" where
  "to_time_t x = (x + 2 ^ 63) mod 2 ^ 64 - 2 ^ 63"

definition mktime :: "tm \<Rightarrow> tm \<Rightarrow> (int, tm) outcome" where
  "mktime new tm =
     (case tm_to_secs tm of
        None \<Rightarrow> Trap
      | Some t \<Rightarrow>
          let (isdst, gmtoff, opp, zone) = secs_to_zone t True;
              new = new\<lparr>tm_isdst := isdst, tm_gmtoff := gmtoff, tm_zone := zone\<rparr>;
              t = (if tm_isdst tm \<ge> 0 \<and> tm_isdst new \<noteq> tm_isdst tm then t - (opp - tm_gmtoff new) else t);
              t = t - tm_gmtoff new in
          if to_time_t t \<noteq> t then Err EOVERFLOW tm
          else
            let (isdst, gmtoff, opp, zone) = secs_to_zone t False;
                new = new\<lparr>tm_isdst := isdst, tm_gmtoff := gmtoff, tm_zone := zone\<rparr> in
            case secs_to_tm (t + tm_gmtoff new) new of
              None \<Rightarrow> Trap
            | Some None \<Rightarrow> Err EOVERFLOW tm
            | Some (Some new) \<Rightarrow> Ret t new)"

section \<open>The Gregorian calendar\<close>

definition leap :: "int \<Rightarrow> bool" where
  "leap y \<longleftrightarrow> y mod 4 = 0 \<and> (y mod 100 \<noteq> 0 \<or> y mod 400 = 0)"

definition year_len :: "int \<Rightarrow> int" where
  "year_len y = (if leap y then 366 else 365)"

definition month_len :: "int \<Rightarrow> int \<Rightarrow> int" where
  "month_len y m = (if m = 1 then if leap y then 29 else 28 else if m \<in> {3, 5, 8, 10} then 30 else 31)"

text \<open>The days from the epoch to the first day of a year, and from there to the first day of a month.\<close>

definition year_start :: "int \<Rightarrow> int" where
  "year_start y = 365 * (y - 1970) + (y - 1) div 4 - (y - 1) div 100 + (y - 1) div 400 - 477"

definition month_start :: "int \<Rightarrow> int \<Rightarrow> int" where
  "month_start y m = (\<Sum>i \<in> {0 ..< m}. month_len y i)"

lemma year_start_epoch: "year_start 1970 = 0"
  by (simp add: year_start_def)

lemma div_pred:
  fixes y b :: int
  assumes "1 < b"
  shows "y div b = (y - 1) div b + (if y mod b = 0 then 1 else 0)"
proof -
  define q r where "q = y div b" and "r = y mod b"
  have y: "y = b * q + r" "0 \<le> r" "r < b" using assms by (simp_all add: q_def r_def)
  show ?thesis
  proof (cases "r = 0")
    case True
    have "(y - 1) div b = q - 1" by (rule int_div_pos_eq [of _ _ _ "b - 1"]) (use True y(1) assms in \<open>simp_all add: algebra_simps\<close>)
    then show ?thesis using True by (simp add: q_def r_def)
  next
    case False
    have "(y - 1) div b = q" by (rule int_div_pos_eq [of _ _ _ "r - 1"]) (use False y in simp_all)
    then show ?thesis using False by (simp add: q_def r_def)
  qed
qed

lemma mod_factors: "y mod 400 = 0 \<Longrightarrow> y mod 100 = 0" "y mod 100 = 0 \<Longrightarrow> y mod 4 = 0" for y :: int
  using mod_mod_cancel [of 100 400 y] mod_mod_cancel [of 4 100 y] by auto

lemma year_len_sum:
  "year_len y = 365 + (if y mod 4 = 0 then 1 else 0) - (if y mod 100 = 0 then 1 else 0) + (if y mod 400 = 0 then 1 else 0)"
  by (cases "y mod 4 = 0"; cases "y mod 100 = 0"; cases "y mod 400 = 0") (use mod_factors [of y] in \<open>simp_all add: year_len_def leap_def\<close>)

lemma regroup: "365 * (y + 1 - 1970) + (a + i) - (b + j) + (c + k) - 477 = 365 * (y - 1970) + a - b + c - 477 + (365 + i - j + k)"
  for a b c i j k y :: int
  by simp

lemma year_start_next: "year_start (y + 1) = year_start y + year_len y"
proof -
  have "year_start (y + 1) = 365 * (y + 1 - 1970) + y div 4 - y div 100 + y div 400 - 477" by (simp add: year_start_def)
  also have "\<dots> = 365 * (y + 1 - 1970) + ((y - 1) div 4 + (if y mod 4 = 0 then 1 else 0)) -
      ((y - 1) div 100 + (if y mod 100 = 0 then 1 else 0)) + ((y - 1) div 400 + (if y mod 400 = 0 then 1 else 0)) - 477"
    using div_pred [of 4 y] div_pred [of 100 y] div_pred [of 400 y] by (simp only: one_less_numeral_iff semiring_norm HOL.simp_thms)
  also have "\<dots> = year_start y + year_len y"
    unfolding year_start_def year_len_sum by (rule regroup)
  finally show ?thesis .
qed

lemma month_starts:
  "month_start y 0 = 0" "month_start y 1 = 31" "month_start y 2 = (if leap y then 60 else 59)"
  "month_start y 3 = (if leap y then 91 else 90)" "month_start y 4 = (if leap y then 121 else 120)"
  "month_start y 5 = (if leap y then 152 else 151)" "month_start y 6 = (if leap y then 182 else 181)"
  "month_start y 7 = (if leap y then 213 else 212)" "month_start y 8 = (if leap y then 244 else 243)"
  "month_start y 9 = (if leap y then 274 else 273)" "month_start y 10 = (if leap y then 305 else 304)"
  "month_start y 11 = (if leap y then 335 else 334)" "month_start y 12 = year_len y"
proof -
  have step: "month_start y (m + 1) = month_start y m + month_len y m" if "0 \<le> m" for m
  proof -
    have "{0 ..< m + 1} = insert m {0 ..< m}" using that by auto
    then show ?thesis by (simp add: month_start_def)
  qed
  show 0: "month_start y 0 = 0" by (simp add: month_start_def)
  show 1: "month_start y 1 = 31" using step [of 0] 0 by (simp add: month_len_def)
  show 2: "month_start y 2 = (if leap y then 60 else 59)" using step [of 1] 1 by (simp add: month_len_def)
  show 3: "month_start y 3 = (if leap y then 91 else 90)" using step [of 2] 2 by (simp add: month_len_def)
  show 4: "month_start y 4 = (if leap y then 121 else 120)" using step [of 3] 3 by (simp add: month_len_def)
  show 5: "month_start y 5 = (if leap y then 152 else 151)" using step [of 4] 4 by (simp add: month_len_def)
  show 6: "month_start y 6 = (if leap y then 182 else 181)" using step [of 5] 5 by (simp add: month_len_def)
  show 7: "month_start y 7 = (if leap y then 213 else 212)" using step [of 6] 6 by (simp add: month_len_def)
  show 8: "month_start y 8 = (if leap y then 244 else 243)" using step [of 7] 7 by (simp add: month_len_def)
  show 9: "month_start y 9 = (if leap y then 274 else 273)" using step [of 8] 8 by (simp add: month_len_def)
  show 10: "month_start y 10 = (if leap y then 305 else 304)" using step [of 9] 9 by (simp add: month_len_def)
  show 11: "month_start y 11 = (if leap y then 335 else 334)" using step [of 10] 10 by (simp add: month_len_def)
  show "month_start y 12 = year_len y" using step [of 11] 11 by (simp add: month_len_def year_len_def)
qed

text \<open>The second a broken-down time stands for, and the broken-down times that are dates.\<close>

definition denotes :: "tm \<Rightarrow> int" where
  "denotes tm = 86400 * (year_start (tm_year tm + 1900) + month_start (tm_year tm + 1900) (tm_mon tm) + tm_mday tm - 1) +
     3600 * tm_hour tm + 60 * tm_min tm + tm_sec tm"

definition is_date :: "tm \<Rightarrow> bool" where
  "is_date tm \<longleftrightarrow> 0 \<le> tm_mon tm \<and> tm_mon tm < 12 \<and> 1 \<le> tm_mday tm \<and> tm_mday tm \<le> month_len (tm_year tm + 1900) (tm_mon tm) \<and>
     0 \<le> tm_hour tm \<and> tm_hour tm < 24 \<and> 0 \<le> tm_min tm \<and> tm_min tm < 60 \<and> 0 \<le> tm_sec tm \<and> tm_sec tm < 60"

section \<open>From years to seconds\<close>

lemma to_int_id: "INT_MIN \<le> x \<Longrightarrow> x \<le> INT_MAX \<Longrightarrow> to_int x = x"
  by (simp add: to_int_def)

text \<open>Division as in C, corrected for a negative remainder, is floor division.\<close>

lemma floor_div:
  fixes a b :: int
  assumes "0 < b"
  shows "(if a smod b < 0 then (a smod b + b, a sdiv b - 1) else (a smod b, a sdiv b)) = (a mod b, a div b)"
proof -
  have e: "a = b * (a sdiv b) + a smod b" by (simp add: mult_sdiv_smod_eq)
  have r: "- b < a smod b" "a smod b < b" using smod_int_range [of b a] assms by auto
  show ?thesis
  proof (cases "a smod b < 0")
    case True
    have "a = b * (a sdiv b - 1) + (a smod b + b)" using e by (simp add: right_diff_distrib)
    then have "a div b = a sdiv b - 1" "a mod b = a smod b + b"
      using True r by (auto intro: int_div_pos_eq int_mod_pos_eq)
    with True show ?thesis by simp
  next
    case False
    then have "a div b = a sdiv b" "a mod b = a smod b" using e r by (auto intro: int_div_pos_eq int_mod_pos_eq)
    with False show ?thesis by simp
  qed
qed

lemma floor_nonneg: "0 \<le> a \<Longrightarrow> 0 < b \<Longrightarrow> a sdiv b = a div b" "0 \<le> a \<Longrightarrow> 0 < b \<Longrightarrow> a smod b = a mod b" for a b :: int
  using floor_div [of b a] smod_int_compares(2) [of a b] by (auto split: if_splits)

lemma to_int_smod: "0 < b \<Longrightarrow> b \<le> 2 ^ 31 \<Longrightarrow> to_int (a smod b) = a smod b"
  using smod_int_range [of b a] by (intro to_int_id) auto

lemma years_near: "\<forall>y \<in> set [2..138]. year_to_secs y = (86400 * year_start (y + 1900), leap (y + 1900))"
  by code_simp

lemma cycle_years: "\<forall>r \<in> set [0..399]. case year_in_cycle r of (l, c, n) \<Rightarrow>
    l = leap (r + 2000) \<and> n + 24 * c - (if l then 1 else 0) + 8 = (r + 1999) div 4 - (r + 1999) div 100 + (r + 1999) div 400 - 477"
  by code_simp

text \<open>The calendar repeats after 400 years.\<close>

lemma leap_cycle: "leap (400 * c + y) = leap y"
proof -
  have "(400 * c + y) mod 4 = y mod 4" "(400 * c + y) mod 100 = y mod 100" "(400 * c + y) mod 400 = y mod 400"
    using mod_mult_self1 [of y "100 * c" 4] mod_mult_self1 [of y "4 * c" 100] mod_mult_self1 [of y c 400]
    by (simp_all add: algebra_simps)
  then show ?thesis by (simp only: leap_def)
qed

lemma year_start_cycle: "year_start (400 * c + y) = 146097 * c + year_start y"
proof -
  have "(400 * c + y - 1) div 4 = 100 * c + (y - 1) div 4" "(400 * c + y - 1) div 100 = 4 * c + (y - 1) div 100"
    "(400 * c + y - 1) div 400 = c + (y - 1) div 400"
    using div_mult_self1 [of 4 "y - 1" "100 * c"] div_mult_self1 [of 100 "y - 1" "4 * c"] div_mult_self1 [of 400 "y - 1" c]
    by (simp_all add: algebra_simps)
  then show ?thesis by (simp only: year_start_def) (simp add: algebra_simps)
qed

lemma year_to_secs_eq:
  assumes "- (2 ^ 33) \<le> year" "year \<le> 2 ^ 33"
  shows "year_to_secs year = (86400 * year_start (year + 1900), leap (year + 1900))"
proof (cases "(year - 2) mod 2 ^ 64 \<le> 136")
  case True
  have "2 \<le> year \<and> year \<le> 138"
  proof (cases "2 \<le> year")
    case True
    have "(year - 2) mod 2 ^ 64 = year - 2" by (rule mod_pos_pos_trivial) (use True assms in simp_all)
    with True \<open>(year - 2) mod 2 ^ 64 \<le> 136\<close> show ?thesis by simp
  next
    case False
    have "(year - 2) mod 2 ^ 64 = year - 2 + 2 ^ 64" by (rule int_mod_pos_eq [of _ _ "-1"]) (use False assms in simp_all)
    with \<open>(year - 2) mod 2 ^ 64 \<le> 136\<close> assms show ?thesis by simp
  qed
  then have "year \<in> set [2..138]" unfolding set_upto by simp
  then show ?thesis by (rule bspec [OF years_near])
next
  case False
  define z cy r where "z = year - 100" and "cy = z div 400" and "r = z mod 400"
  have z: "z = 400 * cy + r" "0 \<le> r" "r < 400" by (simp_all add: cy_def r_def)
  obtain l c n where lcn: "year_in_cycle r = (l, c, n)" by (cases "year_in_cycle r")
  have "r \<in> set [0..399]" unfolding set_upto using z by simp
  from bspec [OF cycle_years this, unfolded lcn prod.case] have cyc: "l = leap (r + 2000)" "n + 24 * c - (if l then 1 else 0) + 8 = (r + 1999) div 4 - (r + 1999) div 100 + (r + 1999) div 400 - 477"
    by blast+
  have lim: "to_int (z sdiv 400) = z sdiv 400"
    using mult_sdiv_smod_eq [of 400 z] smod_int_range [of 400 z] assms by (intro to_int_id) (auto simp: z_def)
  have fl: "(if z smod 400 < 0 then (z smod 400 + 400, z sdiv 400 - 1) else (z smod 400, z sdiv 400)) = (r, cy)"
    unfolding r_def cy_def by (rule floor_div) simp
  have eq: "year_to_secs year = (z * 31536000 + (n + (97 * cy + 24 * c - (if l then 1 else 0))) * 86400 + 946684800 + 86400, l)"
    unfolding year_to_secs_def if_not_P [OF False] Let_def z_def [symmetric] to_int_smod [of 400, simplified] lim fl prod.case lcn by simp
  have y: "year + 1900 = 400 * cy + (r + 2000)" using z by (simp add: z_def)
  have "year_start (year + 1900) = 146097 * cy + (365 * (r + 30) + (n + 24 * c - (if l then 1 else 0) + 8))"
    unfolding y year_start_cycle cyc(2) by (simp add: year_start_def add.commute)
  then show ?thesis unfolding eq y leap_cycle cyc(1) [symmetric] using z(1) by (simp add: algebra_simps)
qed

section \<open>From seconds to dates\<close>

definition march_start :: "int list" where
  "march_start = [0, 31, 61, 92, 122, 153, 184, 214, 245, 275, 306, 337]"

lemma month_loop_days: "\<forall>d \<in> set [0..365]. case month_loop days_in_month 0 d of
    Some (m, r) \<Rightarrow> 0 \<le> m \<and> m \<le> 11 \<and> d = march_start ! nat m + r \<and> 0 \<le> r \<and> r < days_in_month ! nat m | None \<Rightarrow> False"
  by code_simp

text \<open>A day of a cycle of 400 years that begin in March, by centuries, groups of four years and years.\<close>

lemma day_consts: "DAYS_PER_400Y = 146097" "DAYS_PER_100Y = 36524" "DAYS_PER_4Y = 1461" "LEAPOCH = 951868800"
  by (simp_all add: DAYS_PER_400Y_def DAYS_PER_100Y_def DAYS_PER_4Y_def LEAPOCH_def)

lemma split_cycle_holds:
  fixes d :: int
  assumes d: "0 \<le> d" "d < 146097"
  obtains c q y d3 where "split_cycle d = (c, q, y, d3)"
    "0 \<le> c \<and> c \<le> 3 \<and> 0 \<le> q \<and> q \<le> 24 \<and> 0 \<le> y \<and> y \<le> 3" "0 \<le> d3" "d3 \<le> 365"
    "d = 36524 * c + 1461 * q + 365 * y + d3" "d3 = 365 \<longrightarrow> y = 3 \<and> (q = 24 \<longrightarrow> c = 3)"
proof -
  define c where "c = (if d div 36524 = 4 then 3 else d div 36524)"
  define d1 where "d1 = d - c * 36524"
  define q where "q = (if d1 div 1461 = 25 then 24 else d1 div 1461)"
  define d2 where "d2 = d1 - q * 1461"
  define y where "y = (if d2 div 365 = 4 then 3 else d2 div 365)"
  define d3 where "d3 = d2 - y * 365"
  have m: "d = 36524 * (d div 36524) + d mod 36524" "0 \<le> d mod 36524" "d mod 36524 < 36524" by simp_all
  have m1: "d1 = 1461 * (d1 div 1461) + d1 mod 1461" "0 \<le> d1 mod 1461" "d1 mod 1461 < 1461" by simp_all
  have m2: "d2 = 365 * (d2 div 365) + d2 mod 365" "0 \<le> d2 mod 365" "d2 mod 365 < 365" by simp_all
  have c': "0 \<le> c" "c \<le> 3" "0 \<le> d1" "d1 \<le> 36524" "d1 = 36524 \<Longrightarrow> c = 3"
    using m c_def d d1_def by (auto split: if_splits)
  have q': "0 \<le> q" "q \<le> 24" "0 \<le> d2" "d2 \<le> 1460" "q = 24 \<Longrightarrow> d2 = 1460 \<Longrightarrow> c = 3"
    using m1 q_def c' d2_def by (auto split: if_splits)
  have y': "0 \<le> y" "y \<le> 3" "0 \<le> d3" "d3 \<le> 365" "d3 = 365 \<Longrightarrow> y = 3 \<and> d2 = 1460"
    using m2 y_def q' d3_def by (auto split: if_splits)
  have e: "(if d sdiv 36524 = 4 then d sdiv 36524 - 1 else d sdiv 36524) = c"
    "(if d1 sdiv 1461 = 25 then d1 sdiv 1461 - 1 else d1 sdiv 1461) = q"
    "(if d2 sdiv 365 = 4 then d2 sdiv 365 - 1 else d2 sdiv 365) = y"
    using d(1) c'(3) q'(3) by (simp_all add: floor_nonneg c_def q_def y_def)
  have "split_cycle d = (c, q, y, d3)"
    unfolding split_cycle_def
    by (simp only: day_consts Let_def e d1_def [symmetric] d2_def [symmetric] d3_def [symmetric])
  then show thesis
    by (rule that) (use c'(1,2) q' y' in \<open>auto simp: d1_def d2_def d3_def\<close>)
qed

lemma cycle_table: "\<forall>c \<in> set [0..3]. \<forall>q \<in> set [0..24]. \<forall>y \<in> set [0..3]. let v = y + 4 * q + 100 * c in
    leap v = (y = 0 \<and> (q \<noteq> 0 \<or> c = 0)) \<and>
    year_start v + 59 + (if leap v then 1 else 0) + 730485 = 11017 + 36524 * c + 1461 * q + 365 * y \<and>
    (y = 3 \<and> (q = 24 \<longrightarrow> c = 3) \<longrightarrow> leap (v + 1))"
  by code_simp

text \<open>The day \<open>d3\<close> after the first of March of the year \<open>2000 + Y\<close>.\<close>

lemma march_year:
  fixes c q y qc :: int
  assumes r: "0 \<le> c \<and> c \<le> 3 \<and> 0 \<le> q \<and> q \<le> 24 \<and> 0 \<le> y \<and> y \<le> 3" and Y: "Y = y + 4 * q + 100 * c + 400 * qc"
  shows "leap (2000 + Y) = (y = 0 \<and> (q \<noteq> 0 \<or> c = 0))"
    "year_start (2000 + Y) + 59 + (if leap (2000 + Y) then 1 else 0) = 11017 + 146097 * qc + 36524 * c + 1461 * q + 365 * y"
    "y = 3 \<and> (q = 24 \<longrightarrow> c = 3) \<Longrightarrow> leap (2001 + Y)"
proof -
  let ?v = "y + 4 * q + 100 * c"
  have "c \<in> set [0..3]" "q \<in> set [0..24]" "y \<in> set [0..3]" using r unfolding set_upto by auto
  from bspec [OF bspec [OF bspec [OF cycle_table this(1)] this(2)] this(3)]
  have t: "leap ?v = (y = 0 \<and> (q \<noteq> 0 \<or> c = 0))"
    "year_start ?v + 59 + (if leap ?v then 1 else 0) + 730485 = 11017 + 36524 * c + 1461 * q + 365 * y"
    "y = 3 \<and> (q = 24 \<longrightarrow> c = 3) \<longrightarrow> leap (?v + 1)" unfolding Let_def by blast+
  have e: "2000 + Y = 400 * (qc + 5) + ?v" "2001 + Y = 400 * (qc + 5) + (?v + 1)" using Y by simp_all
  show "leap (2000 + Y) = (y = 0 \<and> (q \<noteq> 0 \<or> c = 0))" unfolding e leap_cycle by (rule t(1))
  show "year_start (2000 + Y) + 59 + (if leap (2000 + Y) then 1 else 0) = 11017 + 146097 * qc + 36524 * c + 1461 * q + 365 * y"
    unfolding e leap_cycle year_start_cycle using t(2) by simp
  show "y = 3 \<and> (q = 24 \<longrightarrow> c = 3) \<Longrightarrow> leap (2001 + Y)" unfolding e leap_cycle using t(3) by blast
qed

lemma march_date:
  assumes d3: "0 \<le> d3" "d3 \<le> 365" "d3 = 365 \<Longrightarrow> leap (2001 + Y)"
    and ml: "month_loop days_in_month 0 d3 = Some (m, r)"
    and my: "(mon, yr) = (if m \<ge> 10 then (m - 12, Y + 1) else (m, Y))"
  shows "0 \<le> mon + 2" "mon + 2 < 12" "0 \<le> r" "r + 1 \<le> month_len (2000 + yr) (mon + 2)"
    "year_start (2000 + yr) + month_start (2000 + yr) (mon + 2) + r =
       year_start (2000 + Y) + 59 + (if leap (2000 + Y) then 1 else 0) + d3"
    "month_start (2000 + yr) (mon + 2) + r =
       (if d3 + 59 + (if leap (2000 + Y) then 1 else 0) \<ge> 365 + (if leap (2000 + Y) then 1 else 0)
        then d3 - 306 else d3 + 59 + (if leap (2000 + Y) then 1 else 0))"
proof -
  have "d3 \<in> set [0..365]" using d3 unfolding set_upto by simp
  from bspec [OF month_loop_days this] ml have b: "0 \<le> m" "m \<le> 11" "d3 = march_start ! nat m + r" "0 \<le> r" "r < days_in_month ! nat m"
    by auto
  have last: "d3 < 365 \<or> leap (2001 + Y)" using d3(2,3) by linarith
  have nxt: "year_start (2001 + Y) = year_start (2000 + Y) + 365 + (if leap (2000 + Y) then 1 else 0)"
    using year_start_next [of "2000 + Y"] by (simp add: year_len_def add.commute)
  from b(1,2) have "m \<in> {0, 1, 2, 3, 4, 5, 6, 7, 8, 9, 10, 11}" unfolding insert_iff empty_iff by presburger
  then have "0 \<le> mon + 2 \<and> mon + 2 < 12 \<and> r + 1 \<le> month_len (2000 + yr) (mon + 2) \<and>
    year_start (2000 + yr) + month_start (2000 + yr) (mon + 2) + r = year_start (2000 + Y) + 59 + (if leap (2000 + Y) then 1 else 0) + d3 \<and>
    month_start (2000 + yr) (mon + 2) + r =
       (if d3 + 59 + (if leap (2000 + Y) then 1 else 0) \<ge> 365 + (if leap (2000 + Y) then 1 else 0)
        then d3 - 306 else d3 + 59 + (if leap (2000 + Y) then 1 else 0))"
    using b(3-5) d3(1,2) last my nxt
    by (elim insertE emptyE) (auto simp: march_start_def days_in_month_def month_starts month_len_def add.commute split: if_splits)
  with b(4) show "0 \<le> mon + 2" "mon + 2 < 12" "0 \<le> r" "r + 1 \<le> month_len (2000 + yr) (mon + 2)"
    "year_start (2000 + yr) + month_start (2000 + yr) (mon + 2) + r =
       year_start (2000 + Y) + 59 + (if leap (2000 + Y) then 1 else 0) + d3"
    "month_start (2000 + yr) (mon + 2) + r =
       (if d3 + 59 + (if leap (2000 + Y) then 1 else 0) \<ge> 365 + (if leap (2000 + Y) then 1 else 0)
        then d3 - 306 else d3 + 59 + (if leap (2000 + Y) then 1 else 0))" by blast+
qed

lemma clock:
  fixes rs :: int
  assumes "0 \<le> rs" "rs < 86400"
  shows "rs = 3600 * (rs sdiv 3600) + 60 * (rs sdiv 60 smod 60) + rs smod 60" "0 \<le> rs sdiv 3600" "rs sdiv 3600 < 24"
    "0 \<le> rs sdiv 60 smod 60" "rs sdiv 60 smod 60 < 60" "0 \<le> rs smod 60" "rs smod 60 < 60"
proof -
  define h m s where "h = rs div 60 div 60" and "m = rs div 60 mod 60" and "s = rs mod 60"
  have "rs = 60 * (rs div 60) + s" "rs div 60 = 60 * h + m" "0 \<le> s" "s < 60" "0 \<le> m" "m < 60"
    by (simp_all add: h_def m_def s_def)
  moreover have "rs sdiv 3600 = h" "rs sdiv 60 smod 60 = m" "rs smod 60 = s"
    using assms zdiv_zmult2_eq [of 60 rs 60] by (simp_all add: floor_nonneg h_def m_def s_def pos_imp_zdiv_nonneg_iff)
  ultimately show "rs = 3600 * (rs sdiv 3600) + 60 * (rs sdiv 60 smod 60) + rs smod 60" "0 \<le> rs sdiv 3600" "rs sdiv 3600 < 24"
    "0 \<le> rs sdiv 60 smod 60" "rs sdiv 60 smod 60 < 60" "0 \<le> rs smod 60" "rs smod 60 < 60" using assms by linarith+
qed

lemma weekday: "(3 + (k - 11017)) mod 7 = (k + 4) mod (7 :: int)"
  by presburger

text \<open>The date of a second, with whatever year that is.\<close>

lemma secs_to_tm_holds:
  assumes t: "\<not> (t < INT_MIN * 31622400 \<or> t > INT_MAX * 31622400)"
  obtains tm where "is_date tm" "denotes tm = t" "tm_wday tm = (t div 86400 + 4) mod 7"
    "tm_yday tm = month_start (tm_year tm + 1900) (tm_mon tm) + tm_mday tm - 1"
    "secs_to_tm t buf = Some (if INT_MIN \<le> tm_year tm \<and> tm_year tm \<le> INT_MAX then Some tm else None)"
proof -
  define secs days rs where "secs = t - 951868800" and "days = secs div 86400" and "rs = secs mod 86400"
  define qc d where "qc = days div 146097" and "d = days mod 146097"
  have secs: "secs = 86400 * days + rs" "0 \<le> rs" "rs < 86400" by (simp_all add: days_def rs_def)
  have dd: "days = 146097 * qc + d" "0 \<le> d" "d < 146097" by (simp_all add: qc_def d_def)
  have lim: "to_int (days sdiv 146097) = days sdiv 146097"
    using mult_sdiv_smod_eq [of 146097 days] smod_int_range [of 146097 days] secs t by (intro to_int_id) (auto simp: secs_def)
  have f1: "(if secs smod 86400 < 0 then (secs smod 86400 + 86400, secs sdiv 86400 - 1) else (secs smod 86400, secs sdiv 86400)) = (rs, days)"
    unfolding rs_def days_def by (rule floor_div) simp
  have f2: "(if days smod 146097 < 0 then (days smod 146097 + 146097, days sdiv 146097 - 1) else (days smod 146097, days sdiv 146097)) = (d, qc)"
    unfolding d_def qc_def by (rule floor_div) simp
  have f3: "(if (3 + days) smod 7 < 0 then (3 + days) smod 7 + 7 else (3 + days) smod 7) = (3 + days) mod 7"
    using floor_div [of 7 "3 + days"] by (simp split: if_splits)
  obtain c q y d3 where sp: "split_cycle d = (c, q, y, d3)" "0 \<le> c \<and> c \<le> 3 \<and> 0 \<le> q \<and> q \<le> 24 \<and> 0 \<le> y \<and> y \<le> 3"
    "0 \<le> d3" "d3 \<le> 365" "d = 36524 * c + 1461 * q + 365 * y + d3" "d3 = 365 \<longrightarrow> y = 3 \<and> (q = 24 \<longrightarrow> c = 3)"
    by (rule split_cycle_holds [OF dd(2,3)])
  define Y where "Y = y + 4 * q + 100 * c + 400 * qc"
  note my = march_year [OF sp(2) Y_def]
  have "d3 \<in> set [0..365]" using sp(3,4) unfolding set_upto by simp
  with month_loop_days obtain m r where ml: "month_loop days_in_month 0 d3 = Some (m, r)" by (fastforce split: option.splits)
  obtain mon yr where mon: "(mon, yr) = (if m \<ge> 10 then (m - 12, Y + 1) else (m, Y))" by (metis surj_pair)
  have last: "d3 = 365 \<Longrightarrow> leap (2001 + Y)" using sp(6) my(3) by blast
  note md = march_date [OF sp(3,4) last ml mon]
  define lp where "lp = (if y = 0 \<and> (q \<noteq> 0 \<or> c = 0) then 1 else 0 :: int)"
  define yday where "yday = (if d3 + 31 + 28 + lp \<ge> 365 + lp then d3 + 31 + 28 + lp - (365 + lp) else d3 + 31 + 28 + lp)"
  define mk where "mk x = buf\<lparr>tm_year := x, tm_mon := mon + 2, tm_mday := r + 1, tm_wday := (3 + days) mod 7,
    tm_yday := yday, tm_hour := rs sdiv 3600, tm_min := rs sdiv 60 smod 60, tm_sec := rs smod 60\<rparr>" for x
  define tm where "tm = mk (yr + 100)"
  have sel: "tm_year tm = yr + 100" "tm_mon tm = mon + 2" "tm_mday tm = r + 1" "tm_wday tm = (3 + days) mod 7" "tm_yday tm = yday"
    "tm_hour tm = rs sdiv 3600" "tm_min tm = rs sdiv 60 smod 60" "tm_sec tm = rs smod 60" by (simp_all add: tm_def mk_def)
  have fit: "to_int (yr + 100) = yr + 100" if "\<not> (yr + 100 > INT_MAX \<or> yr + 100 < INT_MIN)" using that by (intro to_int_id) auto
  have "secs_to_tm t buf = (if yr + 100 > INT_MAX \<or> yr + 100 < INT_MIN then Some None else Some (Some (mk (to_int (yr + 100)))))"
    unfolding secs_to_tm_def if_not_P [OF t] mk_def yday_def lp_def
    by (simp only: day_consts Let_def secs_def [symmetric] to_int_smod [of 86400, simplified] to_int_smod [of 7, simplified]
        to_int_smod [of 146097, simplified] f1 f2 f3 lim prod.case sp(1) Y_def [symmetric] ml option.case mon [symmetric])
  then have eq: "secs_to_tm t buf = Some (if INT_MIN \<le> yr + 100 \<and> yr + 100 \<le> INT_MAX then Some tm else None)"
    using fit by (auto simp: tm_def)
  note hms = clock [OF secs(2,3)]
  have yr: "yr + 100 + 1900 = 2000 + yr" by simp
  have date: "is_date tm" unfolding is_date_def sel yr using md(1-4) hms by simp
  have "year_start (2000 + yr) + month_start (2000 + yr) (mon + 2) + r = 11017 + days"
    using md(5) my(2) sp(5) dd(1) by simp
  then have den: "denotes tm = t" unfolding denotes_def sel yr using hms(1) secs(1) by (simp add: secs_def)
  have "days = t div 86400 - 11017" unfolding days_def secs_def using div_mult_self1 [of 86400 t "-11017"] by simp
  then have wd: "tm_wday tm = (t div 86400 + 4) mod 7" unfolding sel using weekday [of "t div 86400"] by simp
  have yd: "tm_yday tm = month_start (tm_year tm + 1900) (tm_mon tm) + tm_mday tm - 1"
    unfolding sel yr using md(6) my(1) by (simp add: yday_def lp_def)
  show thesis by (rule that [OF date den wd yd]) (simp add: eq sel)
qed

section \<open>Dates are unique\<close>

lemma year_start_mono: "y \<le> y' \<Longrightarrow> year_start y \<le> year_start y'"
proof -
  assume "y \<le> y'"
  then obtain n where n: "y' = y + int n" using zle_iff_zadd by blast
  have "year_start y \<le> year_start (y + int n)" for n
  proof (induction n)
    case (Suc n)
    have e: "y + int (Suc n) = (y + int n) + 1" by simp
    have "0 < year_len (y + int n)" by (simp add: year_len_def)
    then show ?case unfolding e year_start_next using Suc by linarith
  qed simp
  then show ?thesis by (simp add: n)
qed

lemma month_len_pos: "0 < month_len y m"
  by (simp add: month_len_def)

lemma month_start_next: "0 \<le> m \<Longrightarrow> month_start y (m + 1) = month_start y m + month_len y m"
proof -
  assume "0 \<le> m"
  then have "{0 ..< m + 1} = insert m {0 ..< m}" by auto
  then show ?thesis by (simp add: month_start_def)
qed

lemma month_start_mono: "m \<le> m' \<Longrightarrow> month_start y m \<le> month_start y m'"
  unfolding month_start_def by (rule sum_mono2) (auto intro: less_imp_le month_len_pos)

text \<open>The day of the year and the day since the epoch of a date.\<close>

definition year_day :: "tm \<Rightarrow> int" where
  "year_day tm = month_start (tm_year tm + 1900) (tm_mon tm) + tm_mday tm - 1"

definition epoch_day :: "tm \<Rightarrow> int" where
  "epoch_day tm = year_start (tm_year tm + 1900) + year_day tm"

definition clock_secs :: "tm \<Rightarrow> int" where
  "clock_secs tm = 3600 * tm_hour tm + 60 * tm_min tm + tm_sec tm"

lemma denotes_parts: "denotes tm = 86400 * epoch_day tm + clock_secs tm"
  by (simp add: denotes_def epoch_day_def year_day_def clock_secs_def)

lemma date_ranges:
  assumes "is_date tm"
  shows "0 \<le> clock_secs tm" "clock_secs tm < 86400" "0 \<le> year_day tm" "year_day tm < year_len (tm_year tm + 1900)"
proof -
  show "0 \<le> clock_secs tm" "clock_secs tm < 86400" using assms by (auto simp: is_date_def clock_secs_def)
  let ?y = "tm_year tm + 1900" and ?m = "tm_mon tm"
  have m: "0 \<le> ?m" "?m + 1 \<le> 12" "1 \<le> tm_mday tm" "tm_mday tm \<le> month_len ?y ?m" using assms by (auto simp: is_date_def)
  have "month_start ?y 0 \<le> month_start ?y ?m" "month_start ?y (?m + 1) \<le> month_start ?y 12" by (rule month_start_mono, use m in simp)+
  then show "0 \<le> year_day tm" "year_day tm < year_len ?y"
    using m month_start_next [OF m(1), of ?y] by (simp_all add: year_day_def month_starts)
qed

lemma epoch_day_year:
  assumes "is_date tm"
  shows "year_start (tm_year tm + 1900) \<le> epoch_day tm" "epoch_day tm < year_start (tm_year tm + 1901)"
  using date_ranges(3,4) [OF assms] year_start_next [of "tm_year tm + 1900"] by (simp_all add: epoch_day_def add.commute)

lemma epoch_day_denotes:
  assumes "is_date tm"
  shows "denotes tm div 86400 = epoch_day tm" "denotes tm mod 86400 = clock_secs tm"
  by (rule int_div_pos_eq [of _ _ _ "clock_secs tm"] int_mod_pos_eq [of _ _ "epoch_day tm"],
      use date_ranges(1,2) [OF assms] in \<open>simp_all add: denotes_parts\<close>)+

lemma clock_fields:
  assumes "is_date tm"
  shows "tm_hour tm = clock_secs tm div 3600" "tm_min tm = clock_secs tm mod 3600 div 60" "tm_sec tm = clock_secs tm mod 3600 mod 60"
proof -
  have r: "0 \<le> tm_min tm" "tm_min tm < 60" "0 \<le> tm_sec tm" "tm_sec tm < 60" using assms by (auto simp: is_date_def)
  have "clock_secs tm div 3600 = tm_hour tm"
    by (rule int_div_pos_eq [of _ _ _ "60 * tm_min tm + tm_sec tm"]) (use r in \<open>simp_all add: clock_secs_def\<close>)
  moreover have m: "clock_secs tm mod 3600 = 60 * tm_min tm + tm_sec tm"
    by (rule int_mod_pos_eq [of _ _ "tm_hour tm"]) (use r in \<open>simp_all add: clock_secs_def\<close>)
  moreover have "(60 * tm_min tm + tm_sec tm) div 60 = tm_min tm"
    by (rule int_div_pos_eq [of _ _ _ "tm_sec tm"]) (use r in simp_all)
  moreover have "(60 * tm_min tm + tm_sec tm) mod 60 = tm_sec tm"
    by (rule int_mod_pos_eq [of _ _ "tm_min tm"]) (use r in simp_all)
  ultimately show "tm_hour tm = clock_secs tm div 3600" "tm_min tm = clock_secs tm mod 3600 div 60" "tm_sec tm = clock_secs tm mod 3600 mod 60" by simp_all
qed

lemma denotes_inj:
  assumes d: "is_date a" "is_date b" and e: "denotes a = denotes b"
  shows "tm_year a = tm_year b" "tm_mon a = tm_mon b" "tm_mday a = tm_mday b" "tm_hour a = tm_hour b" "tm_min a = tm_min b" "tm_sec a = tm_sec b"
proof -
  have day: "epoch_day a = epoch_day b" and clk: "clock_secs a = clock_secs b"
    using e epoch_day_denotes [OF d(1)] epoch_day_denotes [OF d(2)] by simp_all
  show yr: "tm_year a = tm_year b"
  proof (rule ccontr)
    assume "tm_year a \<noteq> tm_year b"
    then consider "tm_year a + 1901 \<le> tm_year b + 1900" | "tm_year b + 1901 \<le> tm_year a + 1900" by linarith
    then show False
      using year_start_mono epoch_day_year [OF d(1)] epoch_day_year [OF d(2)] day by cases fastforce+
  qed
  let ?y = "tm_year a + 1900"
  have yd: "year_day a = year_day b" using day yr by (simp add: epoch_day_def)
  have ra: "0 \<le> tm_mon a" "1 \<le> tm_mday a" "tm_mday a \<le> month_len ?y (tm_mon a)" using d(1) by (auto simp: is_date_def)
  have rb: "0 \<le> tm_mon b" "1 \<le> tm_mday b" "tm_mday b \<le> month_len ?y (tm_mon b)" using d(2) yr by (auto simp: is_date_def)
  show mo: "tm_mon a = tm_mon b"
  proof (rule ccontr)
    assume "tm_mon a \<noteq> tm_mon b"
    then consider "tm_mon a + 1 \<le> tm_mon b" | "tm_mon b + 1 \<le> tm_mon a" by linarith
    then show False
      using month_start_mono [of "tm_mon a + 1" "tm_mon b" ?y] month_start_mono [of "tm_mon b + 1" "tm_mon a" ?y]
        month_start_next [OF ra(1), of ?y] month_start_next [OF rb(1), of ?y] ra rb yd yr
      by cases (simp_all add: year_day_def)
  qed
  show "tm_mday a = tm_mday b" using yd mo yr by (simp add: year_day_def)
  show "tm_hour a = tm_hour b" "tm_min a = tm_min b" "tm_sec a = tm_sec b"
    using clk clock_fields [OF d(1)] clock_fields [OF d(2)] by simp_all
qed

section \<open>The conversions on every time\<close>

definition year_fits :: "tm \<Rightarrow> bool" where
  "year_fits tm \<longleftrightarrow> INT_MIN \<le> tm_year tm \<and> tm_year tm \<le> INT_MAX"

text \<open>The two members that the code derives from the others.\<close>

definition derived_ok :: "tm \<Rightarrow> bool" where
  "derived_ok tm \<longleftrightarrow> tm_wday tm = (epoch_day tm + 4) mod 7 \<and> tm_yday tm = year_day tm"

lemma year_limits: "INT_MIN * 31622400 \<le> 86400 * year_start (INT_MIN + 1900)" "86400 * year_start (INT_MAX + 1901) \<le> INT_MAX * 31622400"
  by (simp_all add: year_start_def)

lemma year_fits_range:
  assumes "is_date tm" "year_fits tm"
  shows "INT_MIN * 31622400 \<le> denotes tm" "denotes tm \<le> INT_MAX * 31622400"
proof -
  define lo hi where "lo = year_start (INT_MIN + 1900)" and "hi = year_start (INT_MAX + 1901)"
  have "lo \<le> year_start (tm_year tm + 1900)" unfolding lo_def
    by (rule year_start_mono) (use assms(2) in \<open>simp add: year_fits_def\<close>)
  then have "lo \<le> epoch_day tm" using epoch_day_year(1) [OF assms(1)] by linarith
  moreover have "year_start (tm_year tm + 1901) \<le> hi" unfolding hi_def
    by (rule year_start_mono) (use assms(2) in \<open>simp add: year_fits_def\<close>)
  then have "epoch_day tm + 1 \<le> hi" using epoch_day_year(2) [OF assms(1)] by linarith
  moreover have "INT_MIN * 31622400 \<le> 86400 * lo" "86400 * hi \<le> INT_MAX * 31622400" unfolding lo_def hi_def by (rule year_limits)+
  ultimately show "INT_MIN * 31622400 \<le> denotes tm" "denotes tm \<le> INT_MAX * 31622400"
    using date_ranges(1,2) [OF assms(1)] unfolding denotes_parts by linarith+
qed

text \<open>What the calls store besides: no daylight saving time, no offset, the zone UTC.\<close>

definition in_utc :: "tm \<Rightarrow> bool" where
  "in_utc tm \<longleftrightarrow> tm_isdst tm = 0 \<and> tm_gmtoff tm = 0 \<and> tm_zone tm = utc"

definition utc_tm :: "int \<Rightarrow> tm \<Rightarrow> bool" where
  "utc_tm t tm \<longleftrightarrow> is_date tm \<and> year_fits tm \<and> denotes tm = t \<and> derived_ok tm \<and> in_utc tm"

lemma utc_tm_parts: "utc_tm t tm \<Longrightarrow> is_date tm \<and> year_fits tm \<and> denotes tm = t"
  by (simp add: utc_tm_def)

lemma utc_tm_unique:
  assumes a: "utc_tm t a" and b: "utc_tm t b"
  shows "a = b"
proof -
  have d: "is_date a" "is_date b" "denotes a = denotes b" using a b by (simp_all add: utc_tm_def)
  note same = denotes_inj [OF d]
  have "tm_wday a = tm_wday b" "tm_yday a = tm_yday b"
    using a b same by (simp_all add: utc_tm_def derived_ok_def epoch_day_def year_day_def)
  with same a b show ?thesis by (simp add: utc_tm_def in_utc_def)
qed

lemma secs_to_tm_cases:
  obtains (date) tm where "secs_to_tm t buf = Some (Some tm)" "utc_tm t (tm\<lparr>tm_isdst := 0, tm_gmtoff := 0, tm_zone := utc\<rparr>)"
  | (overflow) "secs_to_tm t buf = Some None" "\<nexists>tm. is_date tm \<and> year_fits tm \<and> denotes tm = t"
proof (cases "t < INT_MIN * 31622400 \<or> t > INT_MAX * 31622400")
  case True
  then have "\<nexists>tm. is_date tm \<and> year_fits tm \<and> denotes tm = t" using year_fits_range by fastforce
  then show ?thesis using overflow True by (simp add: secs_to_tm_def)
next
  case False
  then obtain tm where tm: "is_date tm" "denotes tm = t" "tm_wday tm = (t div 86400 + 4) mod 7"
    "tm_yday tm = month_start (tm_year tm + 1900) (tm_mon tm) + tm_mday tm - 1"
    "secs_to_tm t buf = Some (if INT_MIN \<le> tm_year tm \<and> tm_year tm \<le> INT_MAX then Some tm else None)"
    by (rule secs_to_tm_holds)
  have d: "tm_wday tm = (epoch_day tm + 4) mod 7" "tm_yday tm = year_day tm"
    using tm(2,3,4) epoch_day_denotes [OF tm(1)] by (simp_all add: year_day_def)
  show ?thesis
  proof (cases "year_fits tm")
    case True
    have "utc_tm t (tm\<lparr>tm_isdst := 0, tm_gmtoff := 0, tm_zone := utc\<rparr>)"
      using tm(1,2) True d unfolding utc_tm_def is_date_def denotes_def derived_ok_def in_utc_def year_fits_def
      by (simp add: epoch_day_def year_day_def)
    moreover have "secs_to_tm t buf = Some (Some tm)" using tm(5) True unfolding year_fits_def by simp
    ultimately show ?thesis by (rule date [rotated])
  next
    case False
    have "\<not> year_fits x" if "is_date x" "denotes x = t" for x
      using False denotes_inj(1) [OF that(1) tm(1)] that(2) tm(2) by (simp add: year_fits_def)
    then have "\<nexists>x. is_date x \<and> year_fits x \<and> denotes x = t" by blast
    moreover have "secs_to_tm t buf = Some None" using tm(5) False unfolding year_fits_def by simp
    ultimately show ?thesis by (rule overflow [rotated])
  qed
qed

text \<open>Months outside the year move the year; the other fields only add up.\<close>

definition normal_month :: "tm \<Rightarrow> tm" where
  "normal_month tm = tm\<lparr>tm_year := tm_year tm + tm_mon tm div 12, tm_mon := tm_mon tm mod 12\<rparr>"

definition month_fits :: "tm \<Rightarrow> bool" where
  "month_fits tm \<longleftrightarrow> INT_MIN \<le> tm_mon tm \<and> tm_mon tm \<le> INT_MAX"

lemma month_to_secs_eq:
  assumes "0 \<le> m" "m < 12"
  shows "month_to_secs m (leap y) = Some (86400 * month_start y m)"
proof -
  have "m \<in> set [0..11]" unfolding set_upto using assms by simp
  moreover have "[0..11] = [0, 1, 2, 3, 4, 5, 6, 7, 8, 9, 10, 11 :: int]" by code_simp
  ultimately consider "m = 0" | "m = 1" | "m = 2" | "m = 3" | "m = 4" | "m = 5" | "m = 6" | "m = 7" | "m = 8" | "m = 9" | "m = 10" | "m = 11"
    by auto
  then show ?thesis by cases (simp_all add: month_to_secs_def secs_through_month_def month_starts)
qed

lemma tm_to_secs_eq:
  assumes "year_fits tm" "month_fits tm"
  shows "tm_to_secs tm = Some (denotes (normal_month tm))"
proof -
  define q r where "q = tm_mon tm div 12" and "r = tm_mon tm mod 12"
  have qr: "tm_mon tm = 12 * q + r" "0 \<le> r" "r < 12" by (simp_all add: q_def r_def)
  have f: "(if tm_mon tm smod 12 < 0 then (tm_mon tm smod 12 + 12, tm_mon tm sdiv 12 - 1) else (tm_mon tm smod 12, tm_mon tm sdiv 12)) = (r, q)"
    unfolding r_def q_def by (rule floor_div) simp
  have adj: "(if tm_mon tm \<ge> 12 \<or> tm_mon tm < 0 then let adj = tm_mon tm sdiv 12; month = tm_mon tm smod 12;
      (month, adj) = (if month < 0 then (month + 12, adj - 1) else (month, adj)) in (month, tm_year tm + adj)
    else (tm_mon tm, tm_year tm)) = (r, tm_year tm + q)"
    using f qr by (auto simp: Let_def)
  have y: "year_to_secs (tm_year tm + q) = (86400 * year_start (tm_year tm + q + 1900), leap (tm_year tm + q + 1900))"
    by (rule year_to_secs_eq) (use assms qr in \<open>simp_all add: year_fits_def month_fits_def\<close>)
  show ?thesis
    unfolding tm_to_secs_def Let_def [of "tm_year tm"] Let_def [of "tm_mon tm"] adj
    by (simp add: y month_to_secs_eq qr(2,3) denotes_def normal_month_def q_def [symmetric] r_def [symmetric])
qed

lemma normal_month_date: "is_date tm \<Longrightarrow> normal_month tm = tm"
  by (simp add: normal_month_def is_date_def)

lemma tm_to_secs_date: "is_date tm \<Longrightarrow> year_fits tm \<Longrightarrow> tm_to_secs tm = Some (denotes tm)"
  using tm_to_secs_eq [of tm] by (simp add: normal_month_date) (simp add: month_fits_def is_date_def)

lemma gmtime_r_cases:
  obtains (date) tm where "gmtime_r t buf = Ret () tm" "utc_tm t tm"
  | (overflow) "gmtime_r t buf = Err EOVERFLOW buf" "\<nexists>tm. is_date tm \<and> year_fits tm \<and> denotes tm = t"
  by (rule secs_to_tm_cases [of t buf]) (simp_all add: gmtime_r_def)

lemma timegm_cases:
  assumes "tm_to_secs tm = Some t"
  obtains (date) res where "timegm new tm = Ret t res" "utc_tm t res"
  | (overflow) "timegm new tm = Err EOVERFLOW tm" "\<nexists>tm. is_date tm \<and> year_fits tm \<and> denotes tm = t"
  by (rule secs_to_tm_cases [of t new]) (simp_all add: timegm_def assms)

section \<open>Local time\<close>

text \<open>Every field that the conversion to seconds reads is an \<open>int\<close>.\<close>

definition fields_fit :: "tm \<Rightarrow> bool" where
  "fields_fit tm \<longleftrightarrow> (\<forall>x \<in> set [tm_year tm, tm_mon tm, tm_mday tm, tm_hour tm, tm_min tm, tm_sec tm]. INT_MIN \<le> x \<and> x \<le> INT_MAX)"

lemma secs_to_tm_keeps:
  "secs_to_tm t buf = Some (Some tm) \<Longrightarrow> tm_isdst tm = tm_isdst buf \<and> tm_gmtoff tm = tm_gmtoff buf \<and> tm_zone tm = tm_zone buf"
  unfolding secs_to_tm_def Let_def by (auto split: prod.splits option.splits if_splits)

lemma secs_to_tm_local:
  assumes "tm_isdst buf = 0" "tm_gmtoff buf = 0" "tm_zone buf = utc"
  obtains (date) tm where "secs_to_tm t buf = Some (Some tm)" "utc_tm t tm"
  | (overflow) "secs_to_tm t buf = Some None" "\<nexists>tm. is_date tm \<and> year_fits tm \<and> denotes tm = t"
proof (cases rule: secs_to_tm_cases [of t buf])
  case (date tm)
  have "tm\<lparr>tm_isdst := 0, tm_gmtoff := 0, tm_zone := utc\<rparr> = tm" using secs_to_tm_keeps [OF date(1)] assms by simp
  with date show ?thesis using that(1) by simp
next
  case overflow
  then show ?thesis by (rule that(2))
qed

lemma to_time_t_id: "- (2 ^ 63) \<le> x \<Longrightarrow> x < 2 ^ 63 \<Longrightarrow> to_time_t x = x"
  by (simp add: to_time_t_def)

lemma denotes_fits:
  assumes "fields_fit tm"
  shows "to_time_t (denotes (normal_month tm)) = denotes (normal_month tm)"
proof -
  define y m where "y = tm_year tm + tm_mon tm div 12 + 1900" and "m = tm_mon tm mod 12"
  have f: "INT_MIN \<le> x \<and> x \<le> INT_MAX" if "x \<in> set [tm_year tm, tm_mon tm, tm_mday tm, tm_hour tm, tm_min tm, tm_sec tm]" for x
    by (rule bspec [OF assms [unfolded fields_fit_def] that])
  have "-5000000000 \<le> y" "y \<le> 5000000000" using f [of "tm_year tm"] f [of "tm_mon tm"] unfolding y_def by simp_all linarith+
  then have "year_start (-5000000000) \<le> year_start y" "year_start y \<le> year_start 5000000000" by (simp_all add: year_start_mono)
  then have ys: "-2000000000000 \<le> year_start y" "year_start y \<le> 2000000000000" by (simp_all add: year_start_def)
  have "month_start y 0 \<le> month_start y m" "month_start y m \<le> month_start y 12" by (rule month_start_mono, simp add: m_def)+
  then have ms: "0 \<le> month_start y m" "month_start y m \<le> 366" by (simp_all add: month_starts year_len_def split: if_splits)
  have d: "denotes (normal_month tm) = 86400 * (year_start y + month_start y m + tm_mday tm - 1) + 3600 * tm_hour tm + 60 * tm_min tm + tm_sec tm"
    by (simp add: denotes_def normal_month_def y_def m_def)
  show ?thesis unfolding d
    by (rule to_time_t_id) (use ys ms f [of "tm_mday tm"] f [of "tm_hour tm"] f [of "tm_min tm"] f [of "tm_sec tm"] in simp_all)
qed

lemma localtime_r_cases:
  obtains (date) tm where "localtime_r t buf = Ret () tm" "utc_tm t tm"
  | (overflow) kept where "localtime_r t buf = Err EOVERFLOW kept" "\<nexists>tm. is_date tm \<and> year_fits tm \<and> denotes tm = t"
      "kept\<lparr>tm_isdst := tm_isdst buf, tm_gmtoff := tm_gmtoff buf, tm_zone := tm_zone buf\<rparr> = buf"
proof (cases "t < INT_MIN * 31622400 \<or> t > INT_MAX * 31622400")
  case True
  then have "\<nexists>tm. is_date tm \<and> year_fits tm \<and> denotes tm = t" using year_fits_range by fastforce
  then show ?thesis by (rule overflow [of buf, rotated]) (use True in \<open>simp_all add: localtime_r_def\<close>)
next
  case False
  define z where "z = buf\<lparr>tm_isdst := 0, tm_gmtoff := 0, tm_zone := utc\<rparr>"
  have z: "tm_isdst z = 0" "tm_gmtoff z = 0" "tm_zone z = utc" by (simp_all add: z_def)
  have eq: "localtime_r t buf = (case secs_to_tm t z of None \<Rightarrow> Trap | Some None \<Rightarrow> Err EOVERFLOW z | Some (Some tm) \<Rightarrow> Ret () tm)"
    unfolding z_def localtime_r_def if_not_P [OF False] by (simp add: secs_to_zone_def Let_def)
  show ?thesis
  proof (cases rule: secs_to_tm_local [OF z, of t])
    case (1 tm)
    then show ?thesis using date eq by simp
  next
    case 2
    then show ?thesis using overflow [of z] eq by (simp add: z_def)
  qed
qed

lemma mktime_cases:
  assumes f: "fields_fit tm"
  obtains (date) res where "mktime new tm = Ret (denotes (normal_month tm)) res" "utc_tm (denotes (normal_month tm)) res"
  | (overflow) "mktime new tm = Err EOVERFLOW tm" "\<nexists>x. is_date x \<and> year_fits x \<and> denotes x = denotes (normal_month tm)"
proof -
  define z where "z = new\<lparr>tm_isdst := 0, tm_gmtoff := 0, tm_zone := utc\<rparr>"
  have z: "tm_isdst z = 0" "tm_gmtoff z = 0" "tm_zone z = utc" by (simp_all add: z_def)
  have "year_fits tm" "month_fits tm" using f by (simp_all add: fields_fit_def year_fits_def month_fits_def)
  note t = tm_to_secs_eq [OF this]
  have "mktime new tm = (case secs_to_tm (denotes (normal_month tm)) z of
      None \<Rightarrow> Trap | Some None \<Rightarrow> Err EOVERFLOW tm | Some (Some res) \<Rightarrow> Ret (denotes (normal_month tm)) res)"
    unfolding z_def by (simp add: mktime_def t secs_to_zone_def denotes_fits [OF f] Let_def split: option.split)
  then show ?thesis using secs_to_tm_local [OF z, of "denotes (normal_month tm)"] date overflow by fastforce
qed

section \<open>Properties\<close>

text \<open>C17: \<open>gmtime_r\<close> is right on every time. It never reads outside its table of months. What it stores is a date
  of the Gregorian calendar with every field in its range (the day no later than the last one of its month, the year
  in an \<open>int\<close>), it is the date of the given second, the days of the week and of the year are those of the date, and
  the zone is UTC. It fails with \<open>EOVERFLOW\<close>, the buffer unchanged, only for a time whose date no \<open>struct tm\<close> can hold.\<close>

theorem gmtime_r_correct:
  "case gmtime_r t buf of
     Ret _ tm \<Rightarrow> is_date tm \<and> year_fits tm \<and> denotes tm = t \<and> derived_ok tm \<and> in_utc tm
   | Err e kept \<Rightarrow> e = EOVERFLOW \<and> kept = buf \<and> (\<nexists>tm. is_date tm \<and> year_fits tm \<and> denotes tm = t)
   | Trap \<Rightarrow> False
   | Diverge \<Rightarrow> False"
  by (rule gmtime_r_cases [of t buf]) (simp_all add: utc_tm_def)

text \<open>C18: \<open>timegm\<close> and \<open>gmtime_r\<close> are inverse to each other: a date with a year that fits gives the second it
  denotes, and \<open>gmtime_r\<close> gives back a date with the same six fields, the same that \<open>timegm\<close> leaves in its argument;
  and the date \<open>gmtime_r\<close> stores for a time gives that time and is left as it is. For fields outside their ranges
  \<open>timegm\<close> returns the time that they add up to, with the months carried into the years, and leaves the date of that
  time in its argument; or it fails with \<open>EOVERFLOW\<close>, the argument unchanged, when no date with a year that fits has that time.\<close>

theorem timegm_gmtime_roundtrip:
  "(is_date tm \<and> year_fits tm \<longrightarrow>
     (\<exists>res. timegm new tm = Ret (denotes tm) res \<and> gmtime_r (denotes tm) buf = Ret () res \<and>
        (tm_year res, tm_mon res, tm_mday res, tm_hour res, tm_min res, tm_sec res) =
        (tm_year tm, tm_mon tm, tm_mday tm, tm_hour tm, tm_min tm, tm_sec tm))) \<and>
   (gmtime_r t buf = Ret () tm \<longrightarrow> timegm new tm = Ret t tm) \<and>
   (year_fits tm \<and> month_fits tm \<longrightarrow>
     (case timegm new tm of
        Ret r res \<Rightarrow> r = denotes (normal_month tm) \<and> denotes res = r \<and> is_date res \<and> year_fits res \<and> derived_ok res \<and> in_utc res
      | Err e kept \<Rightarrow> e = EOVERFLOW \<and> kept = tm \<and> (\<nexists>d. is_date d \<and> year_fits d \<and> denotes d = denotes (normal_month tm))
      | Trap \<Rightarrow> False
      | Diverge \<Rightarrow> False))"
proof (intro conjI impI; (elim conjE)?)
  assume d: "is_date tm" "year_fits tm"
  have "\<exists>x. is_date x \<and> year_fits x \<and> denotes x = denotes tm" using d by blast
  then obtain a b where a: "timegm new tm = Ret (denotes tm) a" "utc_tm (denotes tm) a"
    and b: "gmtime_r (denotes tm) buf = Ret () b" "utc_tm (denotes tm) b"
    using timegm_cases [OF tm_to_secs_date [OF d], of new] gmtime_r_cases [of "denotes tm" buf] by metis
  have "b = a" by (rule utc_tm_unique [OF b(2) a(2)])
  moreover have "is_date a" "denotes a = denotes tm" using a(2) by (simp_all add: utc_tm_def)
  note denotes_inj [OF this(1) d(1) this(2)]
  ultimately show "\<exists>res. timegm new tm = Ret (denotes tm) res \<and> gmtime_r (denotes tm) buf = Ret () res \<and>
      (tm_year res, tm_mon res, tm_mday res, tm_hour res, tm_min res, tm_sec res) =
      (tm_year tm, tm_mon tm, tm_mday tm, tm_hour tm, tm_min tm, tm_sec tm)" using a(1) b(1) by simp
next
  assume g: "gmtime_r t buf = Ret () tm"
  then have u: "utc_tm t tm" by (rule_tac gmtime_r_cases [of t buf]) simp_all
  then have d: "is_date tm" "year_fits tm" "denotes tm = t" by (simp_all add: utc_tm_def)
  show "timegm new tm = Ret t tm"
    using timegm_cases [OF tm_to_secs_date [OF d(1,2)], of new] d utc_tm_unique [OF _ u] by metis
next
  assume f: "year_fits tm" "month_fits tm"
  show "case timegm new tm of
        Ret r res \<Rightarrow> r = denotes (normal_month tm) \<and> denotes res = r \<and> is_date res \<and> year_fits res \<and> derived_ok res \<and> in_utc res
      | Err e kept \<Rightarrow> e = EOVERFLOW \<and> kept = tm \<and> (\<nexists>d. is_date d \<and> year_fits d \<and> denotes d = denotes (normal_month tm))
      | Trap \<Rightarrow> False
      | Diverge \<Rightarrow> False"
    by (rule timegm_cases [OF tm_to_secs_eq [OF f], of new]) (simp_all add: utc_tm_def)
qed


text \<open>The 29th of February 2000.\<close>

definition leap_day :: tm where
  "leap_day = \<lparr>tm_sec = 1, tm_min = 2, tm_hour = 3, tm_mday = 29, tm_mon = 1, tm_year = 100, tm_wday = 2, tm_yday = 59,
     tm_isdst = 0, tm_gmtoff = 0, tm_zone = utc\<rparr>"

theorem timegm_gmtime_roundtrip_witness:
  "is_date leap_day \<and> year_fits leap_day \<and> month_fits leap_day \<and> gmtime_r 951793321 leap_day = Ret () leap_day \<and>
   timegm leap_day leap_day = Ret 951793321 leap_day \<and> denotes (normal_month leap_day) = 951793321"
proof -
  have d: "is_date leap_day" "year_fits leap_day" "month_fits leap_day"
    by (simp_all add: leap_day_def is_date_def year_fits_def month_fits_def month_len_def leap_def)
  have g: "gmtime_r 951793321 leap_day = Ret () leap_day" by code_simp
  show ?thesis using timegm_gmtime_roundtrip [of leap_day leap_day leap_day 951793321] d g by (auto split: outcome.splits)
qed


end
