(* ===== verification/Spec2Isabelle.thy ===== *)
theory Spec2Isabelle
  imports Descriptor_Table File Preopens Cwd Utf8 Time_Conv Stat_Impl Fs_Calls Posix Pipe_Create Search_Ops Calendar
begin

text \<open>
  A verification development of the WASI C library.
\<close>

end
